theory Spec2Isabelle
  imports Complex_Main "HOL-Library.Log_Nat"
begin

section \<open>Data model of \<open>main.py\<close>\<close>

text \<open>
  Python integers are \<open>int\<close>. The floats stored in the player and in the entity
  (positions, headings, stamina) are modelled as \<open>real\<close>, which is exact wherever the
  program only adds small integers and idealised elsewhere. Where the rounding of double
  arithmetic decides the outcome, in the march of a flashlight ray and in the fade of
  explored tiles, the floats are modelled with the rounding written out (subsection
  \<open>Floating point\<close>).
\<close>

datatype TileType =
  EMPTY | WALL | FLOOR | DOOR | EXIT | VENT | WATER_DAMAGE | ELECTRICAL
  | STAIRWELL | ELEVATOR | LEVEL_EXIT | POOL | POOL_EDGE

datatype RoomType =
  OFFICE_SPACE | LONG_HALLWAY | CONFERENCE_ROOM | STORAGE_ROOM | ELECTRICAL_ROOM
  | FLOODED_AREA | MAINTENANCE | LOBBY | CAFETERIA | BATHROOM | SERVER_ROOM
  | ABANDONED_OFFICE | POOL_AREA | POOL_CORRIDOR | POOL_CHANGING

datatype LevelType = LEVEL_0 | POOLROOMS

datatype py_error = IndexError | ValueError

record Room =
  room_x :: int
  room_y :: int
  room_width :: int
  room_height :: int
  room_type :: RoomType
  is_lit :: bool
  connections :: "(int \<times> int) list"

text \<open>The level map is a list of rows: \<open>level_map[y][x]\<close>.\<close>

type_synonym grid = "TileType list list"

abbreviation (input) TILE_SIZE :: int where "TILE_SIZE \<equiv> 20"
abbreviation (input) MAX_STAMINA :: real where "MAX_STAMINA \<equiv> 100"
abbreviation (input) STAMINA_DRAIN_RATE :: real where "STAMINA_DRAIN_RATE \<equiv> 3 / 2"
abbreviation (input) STAMINA_REGEN_RATE :: real where "STAMINA_REGEN_RATE \<equiv> 4 / 5"
abbreviation (input) SPRINT_MULTIPLIER :: real where "SPRINT_MULTIPLIER \<equiv> 2"
abbreviation (input) FLASHLIGHT_RANGE :: int where "FLASHLIGHT_RANGE \<equiv> 80"
abbreviation (input) FLASHLIGHT_ANGLE :: int where "FLASHLIGHT_ANGLE \<equiv> 60"

text \<open>\<open>xs[i]\<close> of Python: a negative index counts from the end, an index out of range
  raises \<open>IndexError\<close>.\<close>

definition py_index :: "'a list \<Rightarrow> int \<Rightarrow> py_error + 'a" where
  "py_index xs i =
     (if 0 \<le> i then (if i < int (length xs) then Inr (xs ! nat i) else Inl IndexError)
      else (if - int (length xs) \<le> i then Inr (xs ! nat (int (length xs) + i))
            else Inl IndexError))"

text \<open>\<open>level_map[grid_y][grid_x]\<close>.\<close>

definition tile_at :: "grid \<Rightarrow> int \<Rightarrow> int \<Rightarrow> py_error + TileType" where
  "tile_at level_map grid_x grid_y =
     (case py_index level_map grid_y of
        Inl e \<Rightarrow> Inl e
      | Inr row \<Rightarrow> py_index row grid_x)"

text \<open>\<open>0 <= grid_x < len(level_map[0]) and 0 <= grid_y < len(level_map)\<close>: the chained
  comparison stops at \<open>0 <= grid_x\<close> when that is false, and \<open>level_map[0]\<close> raises on an
  empty map.\<close>

definition in_bounds :: "grid \<Rightarrow> int \<Rightarrow> int \<Rightarrow> py_error + bool" where
  "in_bounds level_map grid_x grid_y =
     (if 0 \<le> grid_x then
        (case level_map of
           [] \<Rightarrow> Inl IndexError
         | row0 # _ \<Rightarrow>
             Inr (grid_x < int (length row0) \<and> 0 \<le> grid_y \<and> grid_y < int (length level_map)))
      else Inr False)"

text \<open>\<open>int(v // TILE_SIZE)\<close> on a float is the floor of the quotient; \<open>int(v)\<close> truncates
  towards zero.\<close>

definition grid_coord :: "real \<Rightarrow> int" where
  "grid_coord v = \<lfloor>v / real_of_int TILE_SIZE\<rfloor>"

definition py_int :: "real \<Rightarrow> int" where
  "py_int v = (if 0 \<le> v then \<lfloor>v\<rfloor> else \<lceil>v\<rceil>)"

section \<open>Player\<close>

record Player =
  p_x :: real
  p_y :: real
  p_angle :: real
  has_flashlight :: bool
  stamina :: real
  is_sprinting :: bool
  can_sprint :: bool

text \<open>\<open>Player.__init__\<close>.\<close>

definition Player_init :: "real \<Rightarrow> real \<Rightarrow> Player" where
  "Player_init x y =
     \<lparr>p_x = x, p_y = y, p_angle = 0, has_flashlight = True, stamina = MAX_STAMINA,
      is_sprinting = False, can_sprint = True\<rparr>"

text \<open>The loop of \<open>_can_move_to\<close> over \<open>positions_to_check\<close>: the first probe that is out
  of bounds, a wall or a pool edge returns \<open>False\<close>.\<close>

fun check_positions :: "grid \<Rightarrow> (real \<times> real) list \<Rightarrow> py_error + bool" where
  "check_positions level_map [] = Inr True"
| "check_positions level_map ((check_x, check_y) # rest) =
     (case in_bounds level_map (grid_coord check_x) (grid_coord check_y) of
        Inl e \<Rightarrow> Inl e
      | Inr ok \<Rightarrow>
          if \<not> ok then Inr False
          else (case tile_at level_map (grid_coord check_x) (grid_coord check_y) of
                  Inl e \<Rightarrow> Inl e
                | Inr tile_type \<Rightarrow>
                    if tile_type = WALL \<or> tile_type = POOL_EDGE then Inr False
                    else check_positions level_map rest))"

definition positions_to_check :: "real \<Rightarrow> real \<Rightarrow> (real \<times> real) list" where
  "positions_to_check x y =
     [(x - 8, y - 8), (x + 8, y - 8), (x - 8, y + 8), (x + 8, y + 8), (x, y)]"

definition can_move_to :: "real \<Rightarrow> real \<Rightarrow> grid \<Rightarrow> py_error + bool" where
  "can_move_to x y level_map = check_positions level_map (positions_to_check x y)"

text \<open>\<open>Player.move\<close>: the sprint bookkeeping, then the horizontal and the vertical step.\<close>

definition move :: "Player \<Rightarrow> real \<Rightarrow> real \<Rightarrow> grid \<Rightarrow> bool \<Rightarrow> py_error + Player" where
  "move p dx dy level_map is_sprint_pressed =
     (let p1 = (if stamina p \<le> 0 then p\<lparr>can_sprint := False\<rparr>
                else if stamina p \<ge> MAX_STAMINA then p\<lparr>can_sprint := True\<rparr>
                else p);
          sprint = (can_sprint p1 \<and> is_sprint_pressed \<and> (dx \<noteq> 0 \<or> dy \<noteq> 0));
          p2 = (if sprint
                then p1\<lparr>is_sprinting := True,
                        stamina := max 0 (stamina p1 - STAMINA_DRAIN_RATE)\<rparr>
                else (if stamina p1 < MAX_STAMINA
                      then p1\<lparr>is_sprinting := False,
                              stamina := min MAX_STAMINA (stamina p1 + STAMINA_REGEN_RATE)\<rparr>
                      else p1\<lparr>is_sprinting := False\<rparr>));
          speed_multiplier = (if sprint then SPRINT_MULTIPLIER else 1);
          new_x = p_x p2 + dx * speed_multiplier
      in case can_move_to new_x (p_y p2) level_map of
           Inl e \<Rightarrow> Inl e
         | Inr okx \<Rightarrow>
             (let p3 = (if okx then p2\<lparr>p_x := new_x\<rparr> else p2);
                  new_y = p_y p3 + dy * speed_multiplier
              in case can_move_to (p_x p3) new_y level_map of
                   Inl e \<Rightarrow> Inl e
                 | Inr oky \<Rightarrow> Inr (if oky then p3\<lparr>p_y := new_y\<rparr> else p3)))"

text \<open>The sprint bookkeeping of \<open>move\<close> on its own (the statements before
  \<open>dx *= speed_multiplier\<close>), used to state what \<open>move\<close> does to the sprint fields.\<close>

definition sprint_phase :: "Player \<Rightarrow> real \<Rightarrow> real \<Rightarrow> bool \<Rightarrow> Player" where
  "sprint_phase p dx dy is_sprint_pressed =
     (let p1 = (if stamina p \<le> 0 then p\<lparr>can_sprint := False\<rparr>
                else if stamina p \<ge> MAX_STAMINA then p\<lparr>can_sprint := True\<rparr>
                else p);
          sprint = (can_sprint p1 \<and> is_sprint_pressed \<and> (dx \<noteq> 0 \<or> dy \<noteq> 0))
      in (if sprint
          then p1\<lparr>is_sprinting := True,
                  stamina := max 0 (stamina p1 - STAMINA_DRAIN_RATE)\<rparr>
          else (if stamina p1 < MAX_STAMINA
                then p1\<lparr>is_sprinting := False,
                        stamina := min MAX_STAMINA (stamina p1 + STAMINA_REGEN_RATE)\<rparr>
                else p1\<lparr>is_sprinting := False\<rparr>)))"

definition speed_of :: "Player \<Rightarrow> real" where
  "speed_of p = (if is_sprinting p then SPRINT_MULTIPLIER else 1)"

text \<open>A run of ticks: one \<open>move\<close> per input \<open>(dx, dy, is_sprint_pressed)\<close>.\<close>

fun moves :: "Player \<Rightarrow> grid \<Rightarrow> (real \<times> real \<times> bool) list \<Rightarrow> py_error + Player" where
  "moves p level_map [] = Inr p"
| "moves p level_map ((dx, dy, pressed) # rest) =
     (case move p dx dy level_map pressed of
        Inl e \<Rightarrow> Inl e
      | Inr p' \<Rightarrow> moves p' level_map rest)"

text \<open>What the five probes are asked to establish, stated on the map directly: every probe
  falls in a cell inside the map that is neither a wall nor a pool edge.\<close>

definition rect_grid :: "grid \<Rightarrow> bool" where
  "rect_grid level_map =
     (level_map \<noteq> [] \<and> list_all (\<lambda>row. length row = length (hd level_map)) level_map)"

definition cell_clear :: "grid \<Rightarrow> int \<times> int \<Rightarrow> bool" where
  "cell_clear level_map c =
     (0 \<le> fst c \<and> fst c < int (length (hd level_map)) \<and>
      0 \<le> snd c \<and> snd c < int (length level_map) \<and>
      level_map ! nat (snd c) ! nat (fst c) \<noteq> WALL \<and>
      level_map ! nat (snd c) ! nat (fst c) \<noteq> POOL_EDGE)"

definition probes_clear :: "grid \<Rightarrow> real \<Rightarrow> real \<Rightarrow> bool" where
  "probes_clear level_map x y =
     (cell_clear level_map (grid_coord (x - 8), grid_coord (y - 8)) \<and>
      cell_clear level_map (grid_coord (x + 8), grid_coord (y - 8)) \<and>
      cell_clear level_map (grid_coord (x - 8), grid_coord (y + 8)) \<and>
      cell_clear level_map (grid_coord (x + 8), grid_coord (y + 8)) \<and>
      cell_clear level_map (grid_coord x, grid_coord y))"

section \<open>Visibility\<close>

text \<open>\<open>range(a, b)\<close> and \<open>range(a, b, step)\<close> for a positive step.\<close>

definition py_range :: "int \<Rightarrow> int \<Rightarrow> int list" where
  "py_range a b = [a..b - 1]"

definition py_range_step :: "int \<Rightarrow> int \<Rightarrow> int \<Rightarrow> int list" where
  "py_range_step a b step = map (\<lambda>k. a + step * k) [0..(b - a + step - 1) div step - 1]"

definition radians :: "real \<Rightarrow> real" where
  "radians a = a * pi / 180"

text \<open>\<open>Game._get_current_room\<close>: the first room of the list whose rectangle holds the
  player's cell.\<close>

fun get_current_room :: "Room list \<Rightarrow> int \<Rightarrow> int \<Rightarrow> Room option" where
  "get_current_room [] player_grid_x player_grid_y = None"
| "get_current_room (room # rest) player_grid_x player_grid_y =
     (if room_x room \<le> player_grid_x \<and> player_grid_x < room_x room + room_width room \<and>
         room_y room \<le> player_grid_y \<and> player_grid_y < room_y room + room_height room
      then Some room
      else get_current_room rest player_grid_x player_grid_y)"

text \<open>The two nested loops of \<open>_update_visibility\<close> over the rectangle of a lit room.\<close>

fun light_row :: "grid \<Rightarrow> int \<Rightarrow> int list \<Rightarrow> (int \<times> int) set \<Rightarrow> py_error + (int \<times> int) set" where
  "light_row level_map y [] visible_tiles = Inr visible_tiles"
| "light_row level_map y (x # xs) visible_tiles =
     (case in_bounds level_map x y of
        Inl e \<Rightarrow> Inl e
      | Inr ok \<Rightarrow> light_row level_map y xs (if ok then insert (x, y) visible_tiles else visible_tiles))"

fun light_rows ::
  "grid \<Rightarrow> int list \<Rightarrow> int list \<Rightarrow> (int \<times> int) set \<Rightarrow> py_error + (int \<times> int) set" where
  "light_rows level_map [] xs visible_tiles = Inr visible_tiles"
| "light_rows level_map (y # ys) xs visible_tiles =
     (case light_row level_map y xs visible_tiles of
        Inl e \<Rightarrow> Inl e
      | Inr visible_tiles' \<Rightarrow> light_rows level_map ys xs visible_tiles')"

subsection \<open>Floating point\<close>

text \<open>
  The coordinates along a flashlight ray and the strengths stored in \<open>explored_tiles\<close> are
  Python floats, and the cells a ray samples, like what the fade does after 300 steps,
  depend on how each operation is rounded. So they are modelled as binary floating-point
  numbers with the rounding of IEEE 754 double precision written out: a pair \<open>(m, e)\<close>
  stands for \<open>m * 2 ^ e\<close>, and the result of an operation is the exact result rounded to 53
  significant bits, to nearest, ties to even. (Overflow, subnormal numbers and the sign of
  zero are not modelled.)
\<close>

type_synonym dbl = "int \<times> int"

definition dval :: "dbl \<Rightarrow> real" where
  "dval d = real_of_int (fst d) * 2 powr real_of_int (snd d)"

text \<open>\<open>m / 2 ^ s\<close> rounded to the nearest integer, ties to the even one.\<close>

definition round_shift :: "int \<Rightarrow> nat \<Rightarrow> int" where
  "round_shift m s =
     (if s = 0 then m
      else (let q = m div 2 ^ s; r = m mod 2 ^ s; half = 2 ^ (s - 1)
            in if r < half then q
               else if half < r then q + 1
               else if even q then q else q + 1))"

definition dround :: "dbl \<Rightarrow> dbl" where
  "dround d =
     (let s = bitlen \<bar>fst d\<bar> - 53
      in if s \<le> 0 then d else (round_shift (fst d) (nat s), snd d + s))"

definition dsub :: "dbl \<Rightarrow> dbl \<Rightarrow> dbl" where
  "dsub a b =
     (let e = min (snd a) (snd b)
      in dround (fst a * 2 ^ nat (snd a - e) - fst b * 2 ^ nat (snd b - e), e))"

definition dadd :: "dbl \<Rightarrow> dbl \<Rightarrow> dbl" where
  "dadd a b =
     (let e = min (snd a) (snd b)
      in dround (fst a * 2 ^ nat (snd a - e) + fst b * 2 ^ nat (snd b - e), e))"

definition dmul :: "dbl \<Rightarrow> dbl \<Rightarrow> dbl" where
  "dmul a b = dround (fst a * fst b, snd a + snd b)"

text \<open>\<open>a < b\<close> and \<open>a == b\<close> on floats compare the exact values.\<close>

definition dless :: "dbl \<Rightarrow> dbl \<Rightarrow> bool" where
  "dless a b =
     (let e = min (snd a) (snd b)
      in fst a * 2 ^ nat (snd a - e) < fst b * 2 ^ nat (snd b - e))"

definition deq :: "dbl \<Rightarrow> dbl \<Rightarrow> bool" where
  "deq a b =
     (let e = min (snd a) (snd b)
      in fst a * 2 ^ nat (snd a - e) = fst b * 2 ^ nat (snd b - e))"

text \<open>\<open>int(v)\<close> on a float truncates toward zero.\<close>

definition dtrunc :: "dbl \<Rightarrow> int" where
  "dtrunc d =
     (if 0 \<le> snd d then fst d * 2 ^ nat (snd d)
      else if 0 \<le> fst d then fst d div 2 ^ nat (- snd d)
      else - ((- fst d) div 2 ^ nat (- snd d)))"

text \<open>An \<open>int\<close> that meets a float in an operation is converted to the nearest float.\<close>

definition dbl_of_int :: "int \<Rightarrow> dbl" where
  "dbl_of_int i = dround (i, 0)"

text \<open>The float nearest to an exact value \<open>v\<close>: with \<open>2 ^ (expo v - 1) \<le> \<bar>v\<bar> < 2 ^ expo v\<close>,
  it is \<open>v / 2 ^ (expo v - 53)\<close> rounded to the nearest integer, ties to the even one, times
  \<open>2 ^ (expo v - 53)\<close>. It gives the result of a division and of a subtraction whose
  operands the model holds as exact values (the player's position and heading).\<close>

definition round_half_even :: "real \<Rightarrow> int" where
  "round_half_even v =
     (let q = \<lfloor>v\<rfloor>; r = v - real_of_int q
      in if r < 1 / 2 then q
         else if 1 / 2 < r then q + 1
         else if even q then q else q + 1)"

definition expo :: "real \<Rightarrow> int" where
  "expo v = (if 1 \<le> \<bar>v\<bar> then bitlen \<lfloor>\<bar>v\<bar>\<rfloor> else 1 - bitlen (\<lceil>1 / \<bar>v\<bar>\<rceil> - 1))"

definition dbl_of_real :: "real \<Rightarrow> dbl" where
  "dbl_of_real v =
     (if v = 0 then (0, 0)
      else (let s = expo v - 53
            in (round_half_even (v / 2 powr real_of_int s), s)))"

text \<open>The float literal \<open>0.1\<close> (\<open>0x1.999999999999ap-4\<close>), and \<open>math.radians\<close> of an \<open>int\<close>:
  the product with the float \<open>pi / 180.0\<close> (\<open>0x1.1df46a2529d39p-6\<close>).\<close>

definition tenth :: dbl where
  "tenth = (3602879701896397, - 55)"

definition deg_to_rad :: dbl where
  "deg_to_rad = (5030569068109113, - 58)"

definition radians_d :: "int \<Rightarrow> dbl" where
  "radians_d angle = dmul (dbl_of_int angle) deg_to_rad"

text \<open>\<open>math.cos\<close> and \<open>math.sin\<close> are those of the platform's C library, whose results are
  not fixed by the language: they are a parameter of the model, and what is proved of the
  rays holds for every library.\<close>

record Libm =
  m_cos :: "dbl \<Rightarrow> dbl"
  m_sin :: "dbl \<Rightarrow> dbl"

subsection \<open>The flashlight\<close>

text \<open>The loop of \<open>Game._cast_ray\<close>; \<open>dx\<close> and \<open>dy\<close> are the cosine and the sine of the
  ray's angle. With a large \<open>max_distance\<close> the additions of \<open>0.1\<close> stop changing
  \<open>distance\<close> and the loop need not end: the result is \<open>None\<close> when it does not.\<close>

partial_function (option) cast_ray_loop ::
  "grid \<Rightarrow> dbl \<Rightarrow> dbl \<Rightarrow> dbl \<Rightarrow> dbl \<Rightarrow> dbl \<Rightarrow> dbl \<Rightarrow> (int \<times> int) set
     \<Rightarrow> (py_error + (int \<times> int) set) option" where
  "cast_ray_loop level_map dx dy max_distance x y distance visible_tiles =
     (if dless distance max_distance then
        (case in_bounds level_map (dtrunc x) (dtrunc y) of
           Inl e \<Rightarrow> Some (Inl e)
         | Inr ok \<Rightarrow>
             if \<not> ok then Some (Inr visible_tiles)
             else (case tile_at level_map (dtrunc x) (dtrunc y) of
                     Inl e \<Rightarrow> Some (Inl e)
                   | Inr tile_type \<Rightarrow>
                       if tile_type = WALL
                       then Some (Inr (insert (dtrunc x, dtrunc y) visible_tiles))
                       else cast_ray_loop level_map dx dy max_distance
                              (dadd x (dmul dx tenth)) (dadd y (dmul dy tenth))
                              (dadd distance tenth)
                              (insert (dtrunc x, dtrunc y) visible_tiles)))
      else Some (Inr visible_tiles))"

definition cast_ray ::
  "grid \<Rightarrow> Libm \<Rightarrow> dbl \<Rightarrow> dbl \<Rightarrow> dbl \<Rightarrow> dbl \<Rightarrow> (int \<times> int) set
     \<Rightarrow> (py_error + (int \<times> int) set) option" where
  "cast_ray level_map libm start_x start_y angle max_distance visible_tiles =
     cast_ray_loop level_map (m_cos libm angle) (m_sin libm angle) max_distance
       start_x start_y (dbl_of_int 0) visible_tiles"

text \<open>The loop of \<open>_calculate_flashlight_visibility\<close> over the sampled angles.\<close>

fun cast_rays ::
  "grid \<Rightarrow> Libm \<Rightarrow> dbl \<Rightarrow> dbl \<Rightarrow> int list \<Rightarrow> (int \<times> int) set
     \<Rightarrow> (py_error + (int \<times> int) set) option" where
  "cast_rays level_map libm start_x start_y [] visible_tiles = Some (Inr visible_tiles)"
| "cast_rays level_map libm start_x start_y (angle # angles) visible_tiles =
     (case cast_ray level_map libm start_x start_y (radians_d angle)
             (dbl_of_int (FLASHLIGHT_RANGE div TILE_SIZE)) visible_tiles of
        None \<Rightarrow> None
      | Some (Inl e) \<Rightarrow> Some (Inl e)
      | Some (Inr visible_tiles') \<Rightarrow> cast_rays level_map libm start_x start_y angles visible_tiles')"

definition calculate_flashlight_visibility ::
  "grid \<Rightarrow> Libm \<Rightarrow> Player \<Rightarrow> (int \<times> int) set \<Rightarrow> (py_error + (int \<times> int) set) option" where
  "calculate_flashlight_visibility level_map libm player visible_tiles =
     (if \<not> has_flashlight player then Some (Inr visible_tiles)
      else
        (let start_angle = dbl_of_real (p_angle player - real_of_int (FLASHLIGHT_ANGLE div 2));
             end_angle = dbl_of_real (p_angle player + real_of_int (FLASHLIGHT_ANGLE div 2))
         in cast_rays level_map libm
              (dbl_of_real (p_x player / real_of_int TILE_SIZE))
              (dbl_of_real (p_y player / real_of_int TILE_SIZE))
              (py_range_step (dtrunc start_angle) (dtrunc end_angle + 1) 2)
              visible_tiles))"

subsection \<open>Exploration memory\<close>

text \<open>\<open>max(0.0, v)\<close>.\<close>

definition dmax0 :: "dbl \<Rightarrow> dbl" where
  "dmax0 v = (if 0 < fst v then v else (0, 0))"

definition dbl_one :: dbl where
  "dbl_one = (1, 0)"

text \<open>\<open>FADE_RATE = 1.0 / FADE_TIME\<close>: the double nearest to \<open>1 / 300\<close>
  (\<open>0x1.b4e81b4e81b4fp-9\<close>).\<close>

abbreviation (input) FADE_TIME :: int where "FADE_TIME \<equiv> 300"

definition FADE_RATE :: dbl where
  "FADE_RATE = (7686143364045647, - 61)"

text \<open>What \<open>_update_fade_timers\<close> does to one entry that is not visible: the entry is
  deleted when the new strength is not positive.\<close>

definition fade_tile :: "dbl \<Rightarrow> dbl option" where
  "fade_tile visibility =
     (let new_visibility = dmax0 (dsub visibility FADE_RATE)
      in if fst new_visibility \<le> 0 then None else Some new_visibility)"

text \<open>\<open>Game._update_fade_timers\<close>: every stored tile that is not visible fades; the loop
  treats each entry on its own, so the dictionary is a map updated pointwise.\<close>

definition update_fade_timers ::
  "(int \<times> int) set \<Rightarrow> (int \<times> int \<rightharpoonup> dbl) \<Rightarrow> (int \<times> int \<rightharpoonup> dbl)" where
  "update_fade_timers visible_tiles explored_tiles =
     (\<lambda>tile. case explored_tiles tile of
                None \<Rightarrow> None
              | Some visibility \<Rightarrow>
                  if tile \<notin> visible_tiles then fade_tile visibility else Some visibility)"

text \<open>\<open>Game._update_visibility\<close>. The visible set is cleared first, so the result does not
  depend on the set of the tick before.\<close>

definition update_visibility ::
  "grid \<Rightarrow> Libm \<Rightarrow> Room list \<Rightarrow> Player \<Rightarrow> (int \<times> int \<rightharpoonup> dbl)
     \<Rightarrow> (py_error + ((int \<times> int) set \<times> (int \<times> int \<rightharpoonup> dbl))) option" where
  "update_visibility level_map libm rooms player explored_tiles =
     (case (case get_current_room rooms (grid_coord (p_x player)) (grid_coord (p_y player)) of
              None \<Rightarrow> Inr {}
            | Some current_room \<Rightarrow>
                if is_lit current_room
                then light_rows level_map
                       (py_range (room_y current_room) (room_y current_room + room_height current_room))
                       (py_range (room_x current_room) (room_x current_room + room_width current_room))
                       {}
                else Inr {}) of
        Inl e \<Rightarrow> Some (Inl e)
      | Inr lit_tiles \<Rightarrow>
          (case calculate_flashlight_visibility level_map libm player lit_tiles of
             None \<Rightarrow> None
           | Some (Inl e) \<Rightarrow> Some (Inl e)
           | Some (Inr visible_tiles) \<Rightarrow>
               Some (Inr (visible_tiles,
                    (\<lambda>tile. if tile \<in> visible_tiles then Some dbl_one
                             else update_fade_timers visible_tiles explored_tiles tile)))))"

text \<open>A tile that was visible and then is not for \<open>k\<close> ticks in a row: \<open>k\<close> fades of the
  strength 1.0, stopping when the entry is deleted.\<close>

fun fade_ticks :: "nat \<Rightarrow> dbl option \<Rightarrow> dbl option" where
  "fade_ticks 0 v = v"
| "fade_ticks (Suc k) v = (case v of None \<Rightarrow> None | Some visibility \<Rightarrow> fade_ticks k (fade_tile visibility))"

text \<open>\<open>k\<close> ticks of \<open>_update_visibility\<close> with the player standing still.\<close>

fun visibility_ticks ::
  "nat \<Rightarrow> grid \<Rightarrow> Libm \<Rightarrow> Room list \<Rightarrow> Player \<Rightarrow> (int \<times> int \<rightharpoonup> dbl)
     \<Rightarrow> (py_error + (int \<times> int \<rightharpoonup> dbl)) option" where
  "visibility_ticks 0 level_map libm rooms player explored_tiles = Some (Inr explored_tiles)"
| "visibility_ticks (Suc k) level_map libm rooms player explored_tiles =
     (case update_visibility level_map libm rooms player explored_tiles of
        None \<Rightarrow> None
      | Some (Inl e) \<Rightarrow> Some (Inl e)
      | Some (Inr (visible_tiles, explored_tiles')) \<Rightarrow>
          visibility_ticks k level_map libm rooms player explored_tiles')"

subsection \<open>The visible set as the specification describes it\<close>

text \<open>The cells inside the map; the rectangle of the first room holding a cell, when
  lit.\<close>

definition grid_cells :: "grid \<Rightarrow> (int \<times> int) set" where
  "grid_cells level_map =
     {c. 0 \<le> fst c \<and> fst c < int (length (hd level_map)) \<and>
         0 \<le> snd c \<and> snd c < int (length level_map)}"

definition room_contains :: "Room \<Rightarrow> int \<times> int \<Rightarrow> bool" where
  "room_contains room c =
     (room_x room \<le> fst c \<and> fst c < room_x room + room_width room \<and>
      room_y room \<le> snd c \<and> snd c < room_y room + room_height room)"

definition lit_room_cells :: "grid \<Rightarrow> Room list \<Rightarrow> int \<times> int \<Rightarrow> (int \<times> int) set" where
  "lit_room_cells level_map rooms c =
     (case find (\<lambda>room. room_contains room c) rooms of
        None \<Rightarrow> {}
      | Some room \<Rightarrow> if is_lit room then {d. room_contains room d} \<inter> grid_cells level_map else {})"

text \<open>A ray: its \<open>k\<close>-th sample, counted from a position \<open>(x, y)\<close>, is reached by \<open>k\<close>
  rounded additions of the rounded products \<open>dx * 0.1\<close> and \<open>dy * 0.1\<close>, and the distance
  it has then covered by \<open>k\<close> rounded additions of \<open>0.1\<close>. The cell of a sample is marked
  when the distances of the samples up to it are below the range, the samples up to it
  lie inside the map, and no sample before it lies in a wall.\<close>

primrec sample :: "dbl \<Rightarrow> dbl \<Rightarrow> nat \<Rightarrow> dbl" where
  "sample v dv 0 = v"
| "sample v dv (Suc k) = sample (dadd v (dmul dv tenth)) dv k"

primrec travelled :: "dbl \<Rightarrow> nat \<Rightarrow> dbl" where
  "travelled distance 0 = distance"
| "travelled distance (Suc k) = travelled (dadd distance tenth) k"

definition march_cell :: "dbl \<Rightarrow> dbl \<Rightarrow> dbl \<Rightarrow> dbl \<Rightarrow> nat \<Rightarrow> int \<times> int" where
  "march_cell x y dx dy k = (dtrunc (sample x dx k), dtrunc (sample y dy k))"

definition march_cells ::
  "grid \<Rightarrow> dbl \<Rightarrow> dbl \<Rightarrow> dbl \<Rightarrow> dbl \<Rightarrow> dbl \<Rightarrow> dbl \<Rightarrow> (int \<times> int) set" where
  "march_cells level_map dx dy max_distance x y distance =
     {march_cell x y dx dy k | k.
        (\<forall>j\<le>k. dless (travelled distance j) max_distance) \<and>
        (\<forall>j\<le>k. march_cell x y dx dy j \<in> grid_cells level_map) \<and>
        (\<forall>j<k. level_map ! nat (snd (march_cell x y dx dy j))
                         ! nat (fst (march_cell x y dx dy j)) \<noteq> WALL)}"

definition ray_cells :: "grid \<Rightarrow> Libm \<Rightarrow> dbl \<Rightarrow> dbl \<Rightarrow> dbl \<Rightarrow> dbl \<Rightarrow> (int \<times> int) set" where
  "ray_cells level_map libm start_x start_y angle max_distance =
     march_cells level_map (m_cos libm angle) (m_sin libm angle) max_distance
       start_x start_y (dbl_of_int 0)"

text \<open>The angles of the rays, in degrees: every second integer from \<open>int(angle - 30)\<close> up
  to \<open>int(angle + 30)\<close>.\<close>

definition ray_angles :: "real \<Rightarrow> int list" where
  "ray_angles angle =
     py_range_step (dtrunc (dbl_of_real (angle - 30))) (dtrunc (dbl_of_real (angle + 30)) + 1) 2"

definition flashlight_cells :: "grid \<Rightarrow> Libm \<Rightarrow> Player \<Rightarrow> (int \<times> int) set" where
  "flashlight_cells level_map libm player =
     (\<Union>a \<in> set (ray_angles (p_angle player)).
        ray_cells level_map libm (dbl_of_real (p_x player / 20)) (dbl_of_real (p_y player / 20))
          (radians_d a) (dbl_of_int 4))"

text \<open>The union of the two sources.\<close>

definition visible_now :: "grid \<Rightarrow> Libm \<Rightarrow> Room list \<Rightarrow> Player \<Rightarrow> (int \<times> int) set" where
  "visible_now level_map libm rooms player =
     lit_room_cells level_map rooms (grid_coord (p_x player), grid_coord (p_y player)) \<union>
     (if has_flashlight player then flashlight_cells level_map libm player else {})"

subsection \<open>Examples\<close>

text \<open>A corridor of twelve floor tiles, for the examples.\<close>

definition corridor12 :: grid where
  "corridor12 =
     [[FLOOR, FLOOR, FLOOR, FLOOR, FLOOR, FLOOR, FLOOR, FLOOR, FLOOR, FLOOR, FLOOR, FLOOR]]"

text \<open>A lit room over the first three tiles of the corridor.\<close>

definition lit_hall :: Room where
  "lit_hall =
     \<lparr>room_x = 0, room_y = 0, room_width = 3, room_height = 1, room_type = LONG_HALLWAY,
      is_lit = True, connections = []\<rparr>"

text \<open>A C library for the examples. Each row holds an argument and the cosine and the
  sine that CPython 3.11 returns for it on an x86-64 machine; the arguments are
  \<open>math.radians\<close> of \<open>-30, -28, ..., 30\<close>, the 31 ray angles of a player whose heading is 0.
  Any other argument, which no example reaches, gets 0.\<close>

definition trig_table :: "(dbl \<times> dbl \<times> dbl) list" where
  "trig_table =
     [((- 4716158501352293, - 53), (7800463371553963, - 53), (- 9007199254740991, - 54)),
      ((- 2200873967297737, - 52), (994110612546785, - 50), (- 8457247820894329, - 54)),
      ((- 8174674735677309, - 54), (4047808531995749, - 52), (- 987124066664633, - 51)),
      ((- 3772926801081835, - 53), (8228485965250453, - 53), (- 7327115976776401, - 54)),
      ((- 3458516234325015, - 53), (1043916215482731, - 50), (- 6748312458073729, - 54)),
      ((- 6288211335136391, - 54), (2115999668407111, - 51), (- 6161287160138741, - 54)),
      ((- 176855943800711, - 49), (8566355544790271, - 53), (- 5566755282872655, - 54)),
      ((- 5030569068109113, - 54), (67642778369271, - 46), (- 4965441171787305, - 54)),
      ((- 2200873967297737, - 53), (8739646942591525, - 53), (- 8716154871003421, - 55)),
      ((- 3772926801081835, - 54), (68831018284033, - 46), (- 3745404053171323, - 54)),
      ((- 6288211335136391, - 55), (8870359658994711, - 53), (- 6256334945874825, - 55)),
      ((- 5030569068109113, - 55), (4459770905381437, - 52), (- 5014239404989977, - 55)),
      ((- 3772926801081835, - 55), (4478928437392355, - 52), (- 1883017392887259, - 54)),
      ((- 5030569068109113, - 56), (4492629085028347, - 52), (- 628310458321445, - 53)),
      ((- 5030569068109113, - 57), (9001712312321383, - 53), (- 5029547531033639, - 57)),
      ((0, 0), (1, 0), (0, 0)),
      ((5030569068109113, - 57), (9001712312321383, - 53), (5029547531033639, - 57)),
      ((5030569068109113, - 56), (4492629085028347, - 52), (628310458321445, - 53)),
      ((3772926801081835, - 55), (4478928437392355, - 52), (1883017392887259, - 54)),
      ((5030569068109113, - 55), (4459770905381437, - 52), (5014239404989977, - 55)),
      ((6288211335136391, - 55), (8870359658994711, - 53), (6256334945874825, - 55)),
      ((3772926801081835, - 54), (68831018284033, - 46), (3745404053171323, - 54)),
      ((2200873967297737, - 53), (8739646942591525, - 53), (8716154871003421, - 55)),
      ((5030569068109113, - 54), (67642778369271, - 46), (4965441171787305, - 54)),
      ((176855943800711, - 49), (8566355544790271, - 53), (5566755282872655, - 54)),
      ((6288211335136391, - 54), (2115999668407111, - 51), (6161287160138741, - 54)),
      ((3458516234325015, - 53), (1043916215482731, - 50), (6748312458073729, - 54)),
      ((3772926801081835, - 53), (8228485965250453, - 53), (7327115976776401, - 54)),
      ((8174674735677309, - 54), (4047808531995749, - 52), (987124066664633, - 51)),
      ((2200873967297737, - 52), (994110612546785, - 50), (8457247820894329, - 54)),
      ((4716158501352293, - 53), (7800463371553963, - 53), (9007199254740991, - 54))]"

definition table_libm :: Libm where
  "table_libm =
     \<lparr>m_cos = (\<lambda>angle. case find (\<lambda>row. deq (fst row) angle) trig_table of
                         None \<Rightarrow> (0, 0) | Some row \<Rightarrow> fst (snd row)),
      m_sin = (\<lambda>angle. case find (\<lambda>row. deq (fst row) angle) trig_table of
                         None \<Rightarrow> (0, 0) | Some row \<Rightarrow> snd (snd row))\<rparr>"

text \<open>The cells a ray marks, computed: at most \<open>n\<close> samples.\<close>

fun march_list ::
  "grid \<Rightarrow> dbl \<Rightarrow> dbl \<Rightarrow> dbl \<Rightarrow> dbl \<Rightarrow> dbl \<Rightarrow> dbl \<Rightarrow> nat \<Rightarrow> (int \<times> int) list" where
  "march_list level_map dx dy max_distance x y distance 0 = []"
| "march_list level_map dx dy max_distance x y distance (Suc n) =
     (if dless distance max_distance \<and>
         0 \<le> dtrunc x \<and> dtrunc x < int (length (hd level_map)) \<and>
         0 \<le> dtrunc y \<and> dtrunc y < int (length level_map) then
        (dtrunc x, dtrunc y) #
          (if level_map ! nat (dtrunc y) ! nat (dtrunc x) = WALL then []
           else march_list level_map dx dy max_distance
                  (dadd x (dmul dx tenth)) (dadd y (dmul dy tenth)) (dadd distance tenth) n)
      else [])"

section \<open>Entity\<close>

text \<open>
  The random source is a sequence of raw draws and a position in it; every call of the
  \<open>random\<close> module reads the draw at the position and moves on by one. \<open>random.random()\<close>
  is the fractional part of the draw, in \<open>[0, 1)\<close>; \<open>random.uniform(a, b)\<close> is
  \<open>a + (b - a) * random()\<close>; \<open>random.randint(a, b)\<close> takes the integer part of the draw
  into \<open>[a, b]\<close> and raises \<open>ValueError\<close> on an empty range; \<open>random.choice(xs)\<close> takes it
  into the indices of \<open>xs\<close> and raises \<open>IndexError\<close> on an empty list. Every outcome of the
  Python calls is the outcome of some draw, and conversely.
\<close>

type_synonym rng = "nat \<Rightarrow> real"

definition random_unit :: "real \<Rightarrow> real" where
  "random_unit raw = raw - real_of_int \<lfloor>raw\<rfloor>"

definition uniform :: "real \<Rightarrow> real \<Rightarrow> real \<Rightarrow> real" where
  "uniform a b raw = a + (b - a) * random_unit raw"

definition randint :: "int \<Rightarrow> int \<Rightarrow> real \<Rightarrow> py_error + int" where
  "randint a b raw = (if b < a then Inl ValueError else Inr (a + \<lfloor>raw\<rfloor> mod (b - a + 1)))"

definition choice :: "'a list \<Rightarrow> real \<Rightarrow> py_error + 'a" where
  "choice xs raw =
     (if xs = [] then Inl IndexError else Inr (xs ! nat (\<lfloor>raw\<rfloor> mod int (length xs))))"

record Entity =
  e_x :: real
  e_y :: real
  visible :: bool
  visibility_timer :: int
  spawn_timer :: int
  e_angle :: real
  last_player_x :: real
  last_player_y :: real
  move_timer :: int
  target_angle :: real

text \<open>\<open>Entity.__init__\<close>, which draws the first spawn countdown.\<close>

definition Entity_init :: "rng \<Rightarrow> nat \<Rightarrow> py_error + (Entity \<times> nat)" where
  "Entity_init rng pos =
     (case randint 1800 3600 (rng pos) of
        Inl err \<Rightarrow> Inl err
      | Inr t \<Rightarrow>
          Inr (\<lparr>e_x = 0, e_y = 0, visible = False, visibility_timer = 0, spawn_timer = t,
                e_angle = 0, last_player_x = 0, last_player_y = 0, move_timer = 0,
                target_angle = 0\<rparr>, pos + 1))"

text \<open>The placement loop of \<open>Entity.update\<close> (\<open>while attempts < 20 and not spawned\<close>). It
  returns the accepted spawn position, if any, and the position in the random source.\<close>

function spawn_loop ::
  "rng \<Rightarrow> nat \<Rightarrow> real \<Rightarrow> real \<Rightarrow> (int \<times> int) set \<Rightarrow> grid \<Rightarrow> int
     \<Rightarrow> py_error + ((real \<times> real) option \<times> nat)" where
  "spawn_loop rng pos player_x player_y visible_tiles level_map attempts =
     (if attempts < 20 then
        (case randint 120 180 (rng pos) of
           Inl err \<Rightarrow> Inl err
         | Inr distance \<Rightarrow>
             (let angle = uniform 0 (2 * pi) (rng (pos + 1));
                  spawn_x = player_x + cos angle * real_of_int distance;
                  spawn_y = player_y + sin angle * real_of_int distance
              in case in_bounds level_map (grid_coord spawn_x) (grid_coord spawn_y) of
                   Inl err \<Rightarrow> Inl err
                 | Inr ok \<Rightarrow>
                     if \<not> ok
                     then spawn_loop rng (pos + 2) player_x player_y visible_tiles level_map
                            (attempts + 1)
                     else (case tile_at level_map (grid_coord spawn_x) (grid_coord spawn_y) of
                             Inl err \<Rightarrow> Inl err
                           | Inr tile_type \<Rightarrow>
                               if tile_type = FLOOR \<and>
                                  (grid_coord spawn_x, grid_coord spawn_y) \<notin> visible_tiles
                               then Inr (Some (spawn_x, spawn_y), pos + 2)
                               else spawn_loop rng (pos + 2) player_x player_y visible_tiles
                                      level_map (attempts + 1))))
      else Inr (None, pos))"
  by pat_completeness auto
termination
  by (relation "measure (\<lambda>(rng, pos, player_x, player_y, visible_tiles, level_map, attempts).
                  nat (20 - attempts))") auto

declare spawn_loop.simps [simp del]

text \<open>The block \<open>if self.spawn_timer <= 0 and not self.visible\<close> of \<open>Entity.update\<close>.\<close>

definition spawn_phase ::
  "Entity \<Rightarrow> real \<Rightarrow> real \<Rightarrow> (int \<times> int) set \<Rightarrow> grid \<Rightarrow> rng \<Rightarrow> nat
     \<Rightarrow> py_error + (Entity \<times> nat)" where
  "spawn_phase e player_x player_y visible_tiles level_map rng pos =
     (if spawn_timer e \<le> 0 \<and> \<not> visible e then
        (case spawn_loop rng pos player_x player_y visible_tiles level_map 0 of
           Inl err \<Rightarrow> Inl err
         | Inr (None, pos1) \<Rightarrow> Inr (e\<lparr>spawn_timer := 60\<rparr>, pos1)
         | Inr (Some (spawn_x, spawn_y), pos1) \<Rightarrow>
             (case randint 120 300 (rng (pos1 + 1)) of
                Inl err \<Rightarrow> Inl err
              | Inr vt \<Rightarrow>
                  (case randint 1200 2400 (rng (pos1 + 2)) of
                     Inl err \<Rightarrow> Inl err
                   | Inr st \<Rightarrow>
                       Inr (e\<lparr>e_x := spawn_x, e_y := spawn_y,
                              e_angle := uniform 0 360 (rng pos1),
                              target_angle := uniform 0 360 (rng pos1),
                              visible := True, visibility_timer := vt, spawn_timer := st,
                              last_player_x := player_x, last_player_y := player_y,
                              move_timer := 0\<rparr>, pos1 + 3))))
      else Inr (e, pos))"

text \<open>The block \<open>if self.visible\<close> of \<open>Entity.update\<close>. \<open>Entity._can_move_to\<close> is the same
  code as \<open>Player._can_move_to\<close>.\<close>

definition normalize_diff :: "real \<Rightarrow> real" where
  "normalize_diff angle_diff =
     (if angle_diff > 180 then angle_diff - 360
      else if angle_diff < - 180 then angle_diff + 360
      else angle_diff)"

definition visible_phase :: "Entity \<Rightarrow> grid \<Rightarrow> rng \<Rightarrow> nat \<Rightarrow> py_error + (Entity \<times> nat)" where
  "visible_phase e level_map rng pos =
     (if visible e then
        (let e1 = e\<lparr>visibility_timer := visibility_timer e - 1, move_timer := move_timer e + 1\<rparr>;
             e2 = (if move_timer e1 mod 60 = 0
                   then e1\<lparr>target_angle := uniform 0 360 (rng pos)\<rparr> else e1);
             pos2 = (if move_timer e1 mod 60 = 0 then pos + 1 else pos);
             e3 = e2\<lparr>e_angle := e_angle e2 +
                         normalize_diff (target_angle e2 - e_angle e2) * (1 / 10)\<rparr>;
             new_x = e_x e3 + cos (radians (e_angle e3)) * 1;
             new_y = e_y e3 + sin (radians (e_angle e3)) * 1
         in case can_move_to new_x new_y level_map of
              Inl err \<Rightarrow> Inl err
            | Inr ok \<Rightarrow>
                (let e4 = (if ok then e3\<lparr>e_x := new_x, e_y := new_y\<rparr>
                           else e3\<lparr>target_angle := uniform 0 360 (rng pos2)\<rparr>);
                     pos4 = (if ok then pos2 else pos2 + 1)
                 in Inr (if visibility_timer e4 \<le> 0 then e4\<lparr>visible := False\<rparr> else e4, pos4)))
      else Inr (e, pos))"

text \<open>\<open>Entity.update\<close>.\<close>

definition Entity_update ::
  "Entity \<Rightarrow> real \<Rightarrow> real \<Rightarrow> LevelType \<Rightarrow> (int \<times> int) set \<Rightarrow> grid \<Rightarrow> rng \<Rightarrow> nat
     \<Rightarrow> py_error + (Entity \<times> nat)" where
  "Entity_update e player_x player_y level_type visible_tiles level_map rng pos =
     (if level_type \<noteq> LEVEL_0 then Inr (e\<lparr>visible := False\<rparr>, pos)
      else (case spawn_phase (e\<lparr>spawn_timer := spawn_timer e - 1\<rparr>)
                   player_x player_y visible_tiles level_map rng pos of
              Inl err \<Rightarrow> Inl err
            | Inr (e2, pos2) \<Rightarrow> visible_phase e2 level_map rng pos2))"

text \<open>Inputs for the examples: a corridor of fifteen floor tiles, the player in a lit room
  that covers the tiles 7 to 14, and the draws 11, 1/2, 0, 0, ...\<close>

definition corridor15 :: grid where
  "corridor15 =
     [[FLOOR, FLOOR, FLOOR, FLOOR, FLOOR, FLOOR, FLOOR, FLOOR, FLOOR, FLOOR, FLOOR, FLOOR,
       FLOOR, FLOOR, FLOOR]]"

definition lit_7_14 :: "(int \<times> int) set" where
  "lit_7_14 = {c. 7 \<le> fst c \<and> fst c \<le> 14 \<and> snd c = 0}"

definition draws_11_half :: rng where
  "draws_11_half i = (if i = 0 then 11 else if i = 1 then 1 / 2 else 0)"

definition hidden_entity :: "int \<Rightarrow> Entity" where
  "hidden_entity t =
     \<lparr>e_x = 0, e_y = 0, visible = False, visibility_timer = 0, spawn_timer = t,
      e_angle = 0, last_player_x = 0, last_player_y = 0, move_timer = 0, target_angle = 0\<rparr>"

section \<open>BackroomsGenerator\<close>

text \<open>\<open>Room.center\<close> and \<open>Room.overlaps\<close>.\<close>

definition center :: "Room \<Rightarrow> int \<times> int" where
  "center room = (room_x room + room_width room div 2, room_y room + room_height room div 2)"

definition overlaps :: "Room \<Rightarrow> Room \<Rightarrow> bool" where
  "overlaps self other =
     (\<not> (room_x self + room_width self \<le> room_x other \<or>
         room_x other + room_width other \<le> room_x self \<or>
         room_y self + room_height self \<le> room_y other \<or>
         room_y other + room_height other \<le> room_y self))"

text \<open>The generator object: its dimensions, the grid and the room list.\<close>

record Generator =
  gen_width :: int
  gen_height :: int
  gen_grid :: grid
  gen_rooms :: "Room list"

definition Generator_init :: "int \<Rightarrow> int \<Rightarrow> Generator" where
  "Generator_init width height =
     \<lparr>gen_width = width, gen_height = height,
      gen_grid = replicate (nat height) (replicate (nat width) WALL),
      gen_rooms = []\<rparr>"

text \<open>\<open>xs[i] = v\<close> and \<open>self.grid[y][x] = tile\<close>.\<close>

definition py_set :: "'a list \<Rightarrow> int \<Rightarrow> 'a \<Rightarrow> py_error + 'a list" where
  "py_set xs i v =
     (if 0 \<le> i then (if i < int (length xs) then Inr (xs[nat i := v]) else Inl IndexError)
      else (if - int (length xs) \<le> i then Inr (xs[nat (int (length xs) + i) := v])
            else Inl IndexError))"

definition set_tile :: "grid \<Rightarrow> int \<Rightarrow> int \<Rightarrow> TileType \<Rightarrow> py_error + grid" where
  "set_tile g x y tile =
     (case py_index g y of
        Inl e \<Rightarrow> Inl e
      | Inr row \<Rightarrow>
          (case py_set row x tile of
             Inl e \<Rightarrow> Inl e
           | Inr row' \<Rightarrow> py_set g y row'))"

text \<open>A loop that assigns one tile to a sequence of cells, in order.\<close>

fun paint :: "grid \<Rightarrow> (int \<times> int) list \<Rightarrow> TileType \<Rightarrow> py_error + grid" where
  "paint g [] tile = Inr g"
| "paint g ((x, y) # cells) tile =
     (case set_tile g x y tile of
        Inl e \<Rightarrow> Inl e
      | Inr g' \<Rightarrow> paint g' cells tile)"

definition paint_grid ::
  "Generator \<Rightarrow> (int \<times> int) list \<Rightarrow> TileType \<Rightarrow> py_error + Generator" where
  "paint_grid s cells tile =
     (case paint (gen_grid s) cells tile of
        Inl e \<Rightarrow> Inl e
      | Inr g' \<Rightarrow> Inr (s\<lparr>gen_grid := g'\<rparr>))"

text \<open>\<open>_get_room_size\<close>.\<close>

fun size_ranges :: "RoomType \<Rightarrow> int \<times> int \<times> int \<times> int" where
  "size_ranges OFFICE_SPACE = (8, 16, 6, 12)"
| "size_ranges LONG_HALLWAY = (20, 40, 3, 6)"
| "size_ranges CONFERENCE_ROOM = (10, 16, 8, 14)"
| "size_ranges STORAGE_ROOM = (4, 8, 4, 8)"
| "size_ranges ELECTRICAL_ROOM = (5, 8, 5, 8)"
| "size_ranges FLOODED_AREA = (8, 14, 8, 14)"
| "size_ranges MAINTENANCE = (6, 10, 4, 8)"
| "size_ranges LOBBY = (12, 20, 10, 16)"
| "size_ranges CAFETERIA = (12, 18, 8, 14)"
| "size_ranges BATHROOM = (4, 8, 6, 10)"
| "size_ranges SERVER_ROOM = (6, 10, 6, 10)"
| "size_ranges ABANDONED_OFFICE = (6, 12, 6, 12)"
| "size_ranges POOL_AREA = (15, 25, 10, 20)"
| "size_ranges POOL_CORRIDOR = (25, 45, 4, 8)"
| "size_ranges POOL_CHANGING = (8, 12, 6, 10)"

definition get_room_size :: "RoomType \<Rightarrow> rng \<Rightarrow> nat \<Rightarrow> py_error + ((int \<times> int) \<times> nat)" where
  "get_room_size rt rng pos =
     (case size_ranges rt of
        (min_w, max_w, min_h, max_h) \<Rightarrow>
          (case randint min_w max_w (rng pos) of
             Inl e \<Rightarrow> Inl e
           | Inr w \<Rightarrow>
               (case randint min_h max_h (rng (pos + 1)) of
                  Inl e \<Rightarrow> Inl e
                | Inr h \<Rightarrow> Inr ((w, h), pos + 2))))"

text \<open>\<open>_carve_room\<close>.\<close>

definition carve_room :: "Generator \<Rightarrow> Room \<Rightarrow> py_error + Generator" where
  "carve_room s room =
     paint_grid s
       [(x, y). y \<leftarrow> py_range (room_y room) (room_y room + room_height room),
                x \<leftarrow> py_range (room_x room) (room_x room + room_width room),
                0 \<le> x \<and> x < gen_width s \<and> 0 \<le> y \<and> y < gen_height s]
       FLOOR"

text \<open>One placement attempt, the part that \<open>_generate_rooms\<close> and \<open>_generate_pool_rooms\<close>
  share: size, position, lighting, and the room is kept and carved when it overlaps no
  room placed before.\<close>

definition try_place ::
  "Generator \<Rightarrow> RoomType \<Rightarrow> real \<Rightarrow> rng \<Rightarrow> nat \<Rightarrow> py_error + (Generator \<times> nat)" where
  "try_place s rt lit_probability rng pos =
     (case get_room_size rt rng pos of
        Inl e \<Rightarrow> Inl e
      | Inr ((width, height), pos1) \<Rightarrow>
          (case randint 1 (gen_width s - width - 1) (rng pos1) of
             Inl e \<Rightarrow> Inl e
           | Inr x \<Rightarrow>
               (case randint 1 (gen_height s - height - 1) (rng (pos1 + 1)) of
                  Inl e \<Rightarrow> Inl e
                | Inr y \<Rightarrow>
                    (let new_room =
                           \<lparr>room_x = x, room_y = y, room_width = width, room_height = height,
                            room_type = rt,
                            is_lit = (random_unit (rng (pos1 + 2)) < lit_probability),
                            connections = []\<rparr>
                     in if \<not> list_ex (overlaps new_room) (gen_rooms s)
                        then (case carve_room (s\<lparr>gen_rooms := gen_rooms s @ [new_room]\<rparr>)
                                     new_room of
                                Inl e \<Rightarrow> Inl e
                              | Inr s' \<Rightarrow> Inr (s', pos1 + 3))
                        else Inr (s, pos1 + 3)))))"

definition all_room_types :: "RoomType list" where
  "all_room_types =
     [OFFICE_SPACE, LONG_HALLWAY, CONFERENCE_ROOM, STORAGE_ROOM, ELECTRICAL_ROOM,
      FLOODED_AREA, MAINTENANCE, LOBBY, CAFETERIA, BATHROOM, SERVER_ROOM, ABANDONED_OFFICE,
      POOL_AREA, POOL_CORRIDOR, POOL_CHANGING]"

definition pool_room_types :: "RoomType list" where
  "pool_room_types = [POOL_AREA, POOL_CORRIDOR, POOL_CHANGING]"

text \<open>The loop of \<open>_generate_rooms\<close>. A draw of a pool type goes round the loop again
  without counting an attempt, so the loop need not end: the result is \<open>None\<close> when it
  does not. It returns the generator, the attempts made and the position in the random
  source.\<close>

partial_function (option) generate_rooms ::
  "Generator \<Rightarrow> int \<Rightarrow> rng \<Rightarrow> nat \<Rightarrow> (py_error + (Generator \<times> int \<times> nat)) option" where
  "generate_rooms s attempts rng pos =
     (if int (length (gen_rooms s)) < 20 \<and> attempts < 150 then
        (case choice all_room_types (rng pos) of
           Inl e \<Rightarrow> Some (Inl e)
         | Inr rt \<Rightarrow>
             if rt \<in> set pool_room_types
             then generate_rooms s attempts rng (pos + 1)
             else (case try_place s rt (3 / 10) rng (pos + 1) of
                     Inl e \<Rightarrow> Some (Inl e)
                   | Inr (s', pos') \<Rightarrow> generate_rooms s' (attempts + 1) rng pos'))
      else Some (Inr (s, attempts, pos)))"

text \<open>The loop of \<open>_generate_pool_rooms\<close>: every round counts an attempt.\<close>

function generate_pool_rooms ::
  "Generator \<Rightarrow> int \<Rightarrow> rng \<Rightarrow> nat \<Rightarrow> py_error + (Generator \<times> int \<times> nat)" where
  "generate_pool_rooms s attempts rng pos =
     (if int (length (gen_rooms s)) < 15 \<and> attempts < 150 then
        (case choice pool_room_types (rng pos) of
           Inl e \<Rightarrow> Inl e
         | Inr rt \<Rightarrow>
             (case try_place s rt (7 / 10) rng (pos + 1) of
                Inl e \<Rightarrow> Inl e
              | Inr (s', pos') \<Rightarrow> generate_pool_rooms s' (attempts + 1) rng pos'))
      else Inr (s, attempts, pos))"
  by pat_completeness auto
termination
  by (relation "measure (\<lambda>(s, attempts, rng, pos). nat (150 - attempts))") auto

declare generate_pool_rooms.simps [simp del]

text \<open>\<open>_create_corridor\<close>.\<close>

definition create_corridor ::
  "Generator \<Rightarrow> int \<times> int \<Rightarrow> int \<times> int \<Rightarrow> rng \<Rightarrow> nat \<Rightarrow> py_error + (Generator \<times> nat)" where
  "create_corridor s start_pt end_pt rng pos =
     (case (start_pt, end_pt) of
        ((x1, y1), (x2, y2)) \<Rightarrow>
          (case choice [True, False] (rng pos) of
             Inl e \<Rightarrow> Inl e
           | Inr horizontal_first \<Rightarrow>
               if horizontal_first then
                 (case paint_grid s
                         [(x, y1). x \<leftarrow> py_range (min x1 x2) (max x1 x2 + 1),
                                   0 \<le> x \<and> x < gen_width s \<and> 0 \<le> y1 \<and> y1 < gen_height s]
                         FLOOR of
                    Inl e \<Rightarrow> Inl e
                  | Inr s1 \<Rightarrow>
                      (case paint_grid s1
                              [(x2, y). y \<leftarrow> py_range (min y1 y2) (max y1 y2 + 1),
                                        0 \<le> x2 \<and> x2 < gen_width s \<and> 0 \<le> y \<and> y < gen_height s]
                              FLOOR of
                         Inl e \<Rightarrow> Inl e
                       | Inr s2 \<Rightarrow> Inr (s2, pos + 1)))
               else
                 (case paint_grid s
                         [(x1, y). y \<leftarrow> py_range (min y1 y2) (max y1 y2 + 1),
                                   0 \<le> x1 \<and> x1 < gen_width s \<and> 0 \<le> y \<and> y < gen_height s]
                         FLOOR of
                    Inl e \<Rightarrow> Inl e
                  | Inr s1 \<Rightarrow>
                      (case paint_grid s1
                              [(x, y2). x \<leftarrow> py_range (min x1 x2) (max x1 x2 + 1),
                                        0 \<le> x \<and> x < gen_width s \<and> 0 \<le> y2 \<and> y2 < gen_height s]
                              FLOOR of
                         Inl e \<Rightarrow> Inl e
                       | Inr s2 \<Rightarrow> Inr (s2, pos + 1)))))"

text \<open>\<open>_connect_rooms\<close>. The sets \<open>connected\<close> and \<open>unconnected\<close> are lists of room
  indices, \<open>connected_idx\<close> and \<open>unconnected_idx\<close> (the order in which \<open>list(...)\<close> enumerates a set only matters through the random
  choice made from it).\<close>

lemma choice_in_set: "choice xs raw = Inr x \<Longrightarrow> x \<in> set xs"
proof -
  assume c: "choice xs raw = Inr x"
  then have ne: "xs \<noteq> []" and x: "x = xs ! nat (\<lfloor>raw\<rfloor> mod int (length xs))"
    by (auto simp: choice_def split: if_splits)
  from ne have "0 < int (length xs)" by simp
  then have "0 \<le> \<lfloor>raw\<rfloor> mod int (length xs)" and "\<lfloor>raw\<rfloor> mod int (length xs) < int (length xs)"
    using pos_mod_sign pos_mod_bound by blast+
  then have "nat (\<lfloor>raw\<rfloor> mod int (length xs)) < length xs"
    by linarith
  with x show ?thesis by simp
qed

function connect_loop ::
  "Generator \<Rightarrow> int list \<Rightarrow> int list \<Rightarrow> rng \<Rightarrow> nat \<Rightarrow> py_error + (Generator \<times> nat)" where
  "connect_loop s connected_idx unconnected_idx rng pos =
     (if unconnected_idx = [] then Inr (s, pos)
      else
        (case choice connected_idx (rng pos) of
           Inl e \<Rightarrow> Inl e
         | Inr room_a_idx \<Rightarrow>
             (case choice unconnected_idx (rng (pos + 1)) of
                Inl e \<Rightarrow> Inl e
              | Inr room_b_idx \<Rightarrow>
                  (case py_index (gen_rooms s) room_a_idx of
                     Inl e \<Rightarrow> Inl e
                   | Inr room_a \<Rightarrow>
                       (case py_index (gen_rooms s) room_b_idx of
                          Inl e \<Rightarrow> Inl e
                        | Inr room_b \<Rightarrow>
                            (case create_corridor s (center room_a) (center room_b) rng (pos + 2) of
                               Inl e \<Rightarrow> Inl e
                             | Inr (s', pos') \<Rightarrow>
                                 connect_loop s' (connected_idx @ [room_b_idx])
                                   (remove1 room_b_idx unconnected_idx) rng pos'))))))"
  by pat_completeness auto
termination
proof (relation "measure (\<lambda>(s, connected_idx, unconnected_idx, rng, pos). length unconnected_idx)",
    goal_cases)
  case 1
  show ?case by simp
next
  case (2 s connected_idx unconnected_idx rng pos room_a_idx room_b_idx room_a room_b x s' pos')
  from 2(3) have "room_b_idx \<in> set unconnected_idx"
    by (rule choice_in_set)
  then show ?case
    by (simp add: length_remove1) (cases unconnected_idx; simp)
qed

declare connect_loop.simps [simp del]

fun extra_corridors :: "nat \<Rightarrow> Generator \<Rightarrow> rng \<Rightarrow> nat \<Rightarrow> py_error + (Generator \<times> nat)" where
  "extra_corridors 0 s rng pos = Inr (s, pos)"
| "extra_corridors (Suc n) s rng pos =
     (case choice (gen_rooms s) (rng pos) of
        Inl e \<Rightarrow> Inl e
      | Inr room_a \<Rightarrow>
          (case choice (gen_rooms s) (rng (pos + 1)) of
             Inl e \<Rightarrow> Inl e
           | Inr room_b \<Rightarrow>
               if room_a \<noteq> room_b
               then (case create_corridor s (center room_a) (center room_b) rng (pos + 2) of
                       Inl e \<Rightarrow> Inl e
                     | Inr (s', pos') \<Rightarrow> extra_corridors n s' rng pos')
               else extra_corridors n s rng (pos + 2)))"

definition connect_rooms :: "Generator \<Rightarrow> rng \<Rightarrow> nat \<Rightarrow> py_error + (Generator \<times> nat)" where
  "connect_rooms s rng pos =
     (if length (gen_rooms s) < 2 then Inr (s, pos)
      else
        (case connect_loop s [0] (py_range 1 (int (length (gen_rooms s)))) rng pos of
           Inl e \<Rightarrow> Inl e
         | Inr (s', pos') \<Rightarrow> extra_corridors (length (gen_rooms s') div 3) s' rng pos'))"

text \<open>The loops \<open>for _ in range(random.randint(lo, hi))\<close> of the feature passes: a random
  interior cell of the room is overwritten when it is still a floor tile.\<close>

fun scatter ::
  "nat \<Rightarrow> Generator \<Rightarrow> Room \<Rightarrow> TileType \<Rightarrow> rng \<Rightarrow> nat \<Rightarrow> py_error + (Generator \<times> nat)" where
  "scatter 0 s room tile rng pos = Inr (s, pos)"
| "scatter (Suc n) s room tile rng pos =
     (case randint (room_x room + 1) (room_x room + room_width room - 2) (rng pos) of
        Inl e \<Rightarrow> Inl e
      | Inr x \<Rightarrow>
          (case randint (room_y room + 1) (room_y room + room_height room - 2) (rng (pos + 1)) of
             Inl e \<Rightarrow> Inl e
           | Inr y \<Rightarrow>
               (case tile_at (gen_grid s) x y of
                  Inl e \<Rightarrow> Inl e
                | Inr current \<Rightarrow>
                    if current = FLOOR
                    then (case paint_grid s [(x, y)] tile of
                            Inl e \<Rightarrow> Inl e
                          | Inr s' \<Rightarrow> scatter n s' room tile rng (pos + 2))
                    else scatter n s room tile rng (pos + 2))))"

definition scatter_features ::
  "Generator \<Rightarrow> Room \<Rightarrow> int \<Rightarrow> int \<Rightarrow> TileType \<Rightarrow> rng \<Rightarrow> nat \<Rightarrow> py_error + (Generator \<times> nat)" where
  "scatter_features s room lo hi tile rng pos =
     (case randint lo hi (rng pos) of
        Inl e \<Rightarrow> Inl e
      | Inr n \<Rightarrow> scatter (nat n) s room tile rng (pos + 1))"

text \<open>\<open>_add_features_by_type\<close>.\<close>

definition water_cells :: "Room \<Rightarrow> (int \<times> int) list" where
  "water_cells room =
     (let water_width = max 2 (room_width room div 2);
          water_height = max 2 (room_height room div 2);
          start_x = fst (center room) - water_width div 2;
          start_y = snd (center room) - water_height div 2
      in [(x, y). y \<leftarrow> py_range start_y (start_y + water_height),
                  x \<leftarrow> py_range start_x (start_x + water_width),
                  room_x room < x \<and> x < room_x room + room_width room - 1 \<and>
                  room_y room < y \<and> y < room_y room + room_height room - 1])"

definition add_features_by_type ::
  "Generator \<Rightarrow> Room \<Rightarrow> rng \<Rightarrow> nat \<Rightarrow> py_error + (Generator \<times> nat)" where
  "add_features_by_type s room rng pos =
     (if room_type room = STORAGE_ROOM then scatter_features s room 1 3 EXIT rng pos
      else if room_type room = ELECTRICAL_ROOM then scatter_features s room 2 4 ELECTRICAL rng pos
      else if room_type room = FLOODED_AREA then
        (case paint_grid s (water_cells room) WATER_DAMAGE of
           Inl e \<Rightarrow> Inl e
         | Inr s' \<Rightarrow> Inr (s', pos))
      else if room_type room = MAINTENANCE then scatter_features s room 1 3 VENT rng pos
      else Inr (s, pos))"

text \<open>\<open>_add_room_features\<close>: the loop over \<open>self.rooms\<close>.\<close>

fun add_room_features ::
  "Room list \<Rightarrow> Generator \<Rightarrow> rng \<Rightarrow> nat \<Rightarrow> py_error + (Generator \<times> nat)" where
  "add_room_features [] s rng pos = Inr (s, pos)"
| "add_room_features (room # rest) s rng pos =
     (case add_features_by_type s room rng pos of
        Inl e \<Rightarrow> Inl e
      | Inr (s', pos') \<Rightarrow> add_room_features rest s' rng pos')"

text \<open>\<open>_add_pools\<close>: the edge ring, then the water, of one pool-area room.\<close>

definition pool_edge_cells :: "Room \<Rightarrow> (int \<times> int) list" where
  "pool_edge_cells room =
     (let pool_width = max 3 (min (room_width room - 6) (room_width room div 2));
          pool_height = max 3 (min (room_height room - 6) (room_height room div 2));
          start_x = room_x room + (room_width room - pool_width) div 2;
          start_y = room_y room + (room_height room - pool_height) div 2
      in [(x, y). y \<leftarrow> py_range (start_y - 1) (start_y + pool_height + 1),
                  x \<leftarrow> py_range (start_x - 1) (start_x + pool_width + 1),
                  (room_x room + 2 \<le> x \<and> x \<le> room_x room + room_width room - 3 \<and>
                   room_y room + 2 \<le> y \<and> y \<le> room_y room + room_height room - 3) \<and>
                  (x = start_x - 1 \<or> x = start_x + pool_width \<or>
                   y = start_y - 1 \<or> y = start_y + pool_height) \<and>
                  \<not> ((x \<le> room_x room + 2 \<or> x \<ge> room_x room + room_width room - 3) \<or>
                     (y \<le> room_y room + 2 \<or> y \<ge> room_y room + room_height room - 3))])"

definition pool_cells :: "Room \<Rightarrow> (int \<times> int) list" where
  "pool_cells room =
     (let pool_width = max 3 (min (room_width room - 6) (room_width room div 2));
          pool_height = max 3 (min (room_height room - 6) (room_height room div 2));
          start_x = room_x room + (room_width room - pool_width) div 2;
          start_y = room_y room + (room_height room - pool_height) div 2
      in [(x, y). y \<leftarrow> py_range start_y (start_y + pool_height),
                  x \<leftarrow> py_range start_x (start_x + pool_width),
                  room_x room + 2 < x \<and> x < room_x room + room_width room - 3 \<and>
                  room_y room + 2 < y \<and> y < room_y room + room_height room - 3])"

fun add_pools :: "Room list \<Rightarrow> Generator \<Rightarrow> py_error + Generator" where
  "add_pools [] s = Inr s"
| "add_pools (room # rest) s =
     (if room_type room = POOL_AREA then
        (case paint_grid s (pool_edge_cells room) POOL_EDGE of
           Inl e \<Rightarrow> Inl e
         | Inr s1 \<Rightarrow>
             (case paint_grid s1 (pool_cells room) POOL of
                Inl e \<Rightarrow> Inl e
              | Inr s2 \<Rightarrow> add_pools rest s2))
      else add_pools rest s)"

text \<open>\<open>_add_poolrooms_features\<close>.\<close>

fun add_poolrooms_features ::
  "Room list \<Rightarrow> Generator \<Rightarrow> rng \<Rightarrow> nat \<Rightarrow> py_error + (Generator \<times> nat)" where
  "add_poolrooms_features [] s rng pos = Inr (s, pos)"
| "add_poolrooms_features (room # rest) s rng pos =
     (if room_type room = POOL_CHANGING then
        (case scatter_features s room 1 2 EXIT rng pos of
           Inl e \<Rightarrow> Inl e
         | Inr (s', pos') \<Rightarrow> add_poolrooms_features rest s' rng pos')
      else add_poolrooms_features rest s rng pos)"

text \<open>\<open>_add_level_exit\<close>: the loop over the four corners stops at the first one that is
  still a floor tile.\<close>

fun place_exit :: "Generator \<Rightarrow> (int \<times> int) list \<Rightarrow> py_error + Generator" where
  "place_exit s [] = Inr s"
| "place_exit s ((x, y) # corners) =
     (if 0 \<le> x \<and> x < gen_width s \<and> 0 \<le> y \<and> y < gen_height s then
        (case tile_at (gen_grid s) x y of
           Inl e \<Rightarrow> Inl e
         | Inr current \<Rightarrow>
             if current = FLOOR then paint_grid s [(x, y)] LEVEL_EXIT
             else place_exit s corners)
      else place_exit s corners)"

definition corner_positions :: "Room \<Rightarrow> (int \<times> int) list" where
  "corner_positions exit_room =
     [(room_x exit_room + 1, room_y exit_room + 1),
      (room_x exit_room + room_width exit_room - 2, room_y exit_room + 1),
      (room_x exit_room + 1, room_y exit_room + room_height exit_room - 2),
      (room_x exit_room + room_width exit_room - 2, room_y exit_room + room_height exit_room - 2)]"

definition add_level_exit :: "Generator \<Rightarrow> rng \<Rightarrow> nat \<Rightarrow> py_error + (Generator \<times> nat)" where
  "add_level_exit s rng pos =
     (if gen_rooms s = [] then Inr (s, pos)
      else
        (let suitable_rooms =
               filter (\<lambda>room. room_width room * room_height room \<ge> 64) (gen_rooms s)
         in case choice (if suitable_rooms = [] then gen_rooms s else suitable_rooms) (rng pos) of
              Inl e \<Rightarrow> Inl e
            | Inr exit_room \<Rightarrow>
                (case place_exit s (corner_positions exit_room) of
                   Inl e \<Rightarrow> Inl e
                 | Inr s' \<Rightarrow> Inr (s', pos + 1))))"

text \<open>\<open>_generate_level_0\<close> and \<open>_generate_poolrooms\<close> after the rooms are placed, and
  \<open>generate\<close>. The result of \<open>generate\<close> is \<open>None\<close> when the placement loop of the standard
  biome does not end.\<close>

definition finish_level_0 :: "Generator \<Rightarrow> rng \<Rightarrow> nat \<Rightarrow> py_error + (Generator \<times> nat)" where
  "finish_level_0 s rng pos =
     (case connect_rooms s rng pos of
        Inl e \<Rightarrow> Inl e
      | Inr (s1, pos1) \<Rightarrow>
          (case add_room_features (gen_rooms s1) s1 rng pos1 of
             Inl e \<Rightarrow> Inl e
           | Inr (s2, pos2) \<Rightarrow> add_level_exit s2 rng pos2))"

definition finish_poolrooms :: "Generator \<Rightarrow> rng \<Rightarrow> nat \<Rightarrow> py_error + (Generator \<times> nat)" where
  "finish_poolrooms s rng pos =
     (case connect_rooms s rng pos of
        Inl e \<Rightarrow> Inl e
      | Inr (s1, pos1) \<Rightarrow>
          (case add_pools (gen_rooms s1) s1 of
             Inl e \<Rightarrow> Inl e
           | Inr s2 \<Rightarrow>
               (case add_poolrooms_features (gen_rooms s2) s2 rng pos1 of
                  Inl e \<Rightarrow> Inl e
                | Inr (s3, pos3) \<Rightarrow> add_level_exit s3 rng pos3)))"

text \<open>The placement phase of either biome, with the number of attempts it made.\<close>

definition place_rooms ::
  "int \<Rightarrow> int \<Rightarrow> LevelType \<Rightarrow> rng \<Rightarrow> nat \<Rightarrow> (py_error + (Generator \<times> int \<times> nat)) option" where
  "place_rooms width height level_type rng pos =
     (if level_type = POOLROOMS
      then Some (generate_pool_rooms (Generator_init width height) 0 rng pos)
      else generate_rooms (Generator_init width height) 0 rng pos)"

definition generate ::
  "int \<Rightarrow> int \<Rightarrow> LevelType \<Rightarrow> rng \<Rightarrow> nat \<Rightarrow> (py_error + (Generator \<times> nat)) option" where
  "generate width height level_type rng pos =
     (case place_rooms width height level_type rng pos of
        None \<Rightarrow> None
      | Some (Inl e) \<Rightarrow> Some (Inl e)
      | Some (Inr (s, attempts, pos1)) \<Rightarrow>
          Some (if level_type = POOLROOMS then finish_poolrooms s rng pos1
                else finish_level_0 s rng pos1))"

section \<open>Notions used to state the properties of a generated level\<close>

text \<open>A cell inside a \<open>width\<close> by \<open>height\<close> grid; a grid of those dimensions; the tile of a
  cell.\<close>

definition inb :: "int \<Rightarrow> int \<Rightarrow> int \<times> int \<Rightarrow> bool" where
  "inb width height c = (0 \<le> fst c \<and> fst c < width \<and> 0 \<le> snd c \<and> snd c < height)"

definition dims :: "grid \<Rightarrow> int \<Rightarrow> int \<Rightarrow> bool" where
  "dims g width height =
     (int (length g) = height \<and> list_all (\<lambda>row. int (length row) = width) g)"

definition tile_of :: "grid \<Rightarrow> int \<times> int \<Rightarrow> TileType" where
  "tile_of g c = g ! nat (snd c) ! nat (fst c)"

text \<open>The rectangle of a room, its interior (the cells not on its border) and its
  perimeter (the cells on its border).\<close>

definition room_rect :: "Room \<Rightarrow> (int \<times> int) set" where
  "room_rect room = {c. room_contains room c}"

definition room_interior :: "Room \<Rightarrow> (int \<times> int) set" where
  "room_interior room =
     {c. room_x room < fst c \<and> fst c < room_x room + room_width room - 1 \<and>
         room_y room < snd c \<and> snd c < room_y room + room_height room - 1}"

definition room_perimeter :: "Room \<Rightarrow> (int \<times> int) set" where
  "room_perimeter room = room_rect room - room_interior room"

text \<open>No two rooms at different places of the list overlap.\<close>

definition no_overlap :: "Room list \<Rightarrow> bool" where
  "no_overlap rs =
     (\<forall>i<length rs. \<forall>j<length rs. i \<noteq> j \<longrightarrow> \<not> overlaps (rs ! i) (rs ! j))"

text \<open>One step between two floor tiles that share a side, and the cells that can be
  reached from a cell by such steps (the flood fill over floor tiles).\<close>

definition adjacent :: "int \<times> int \<Rightarrow> int \<times> int \<Rightarrow> bool" where
  "adjacent c d =
     ((fst c = fst d \<and> (snd c = snd d + 1 \<or> snd d = snd c + 1)) \<or>
      (snd c = snd d \<and> (fst c = fst d + 1 \<or> fst d = fst c + 1)))"

definition floor_step :: "Generator \<Rightarrow> ((int \<times> int) \<times> (int \<times> int)) set" where
  "floor_step s =
     {(c, d). inb (gen_width s) (gen_height s) c \<and> inb (gen_width s) (gen_height s) d \<and>
              tile_of (gen_grid s) c = FLOOR \<and> tile_of (gen_grid s) d = FLOOR \<and> adjacent c d}"

definition floor_connected :: "Generator \<Rightarrow> int \<times> int \<Rightarrow> int \<times> int \<Rightarrow> bool" where
  "floor_connected s c d =
     (inb (gen_width s) (gen_height s) c \<and> tile_of (gen_grid s) c = FLOOR \<and>
      inb (gen_width s) (gen_height s) d \<and> tile_of (gen_grid s) d = FLOOR \<and>
      (c, d) \<in> (floor_step s)\<^sup>*)"




text \<open>What the placement phase establishes: a room lies at least one tile away from the
  border of the grid and is at least 3 by 3; the grid has the generator's dimensions, the
  rooms are pairwise apart, and every cell of every room is a floor tile.\<close>

definition room_ok :: "int \<Rightarrow> int \<Rightarrow> Room \<Rightarrow> bool" where
  "room_ok width height room =
     (1 \<le> room_x room \<and> room_x room + room_width room \<le> width - 1 \<and>
      1 \<le> room_y room \<and> room_y room + room_height room \<le> height - 1 \<and>
      3 \<le> room_width room \<and> 3 \<le> room_height room)"

definition placed :: "Generator \<Rightarrow> bool" where
  "placed s =
     (dims (gen_grid s) (gen_width s) (gen_height s) \<and>
      (\<forall>room\<in>set (gen_rooms s). room_ok (gen_width s) (gen_height s) room) \<and>
      no_overlap (gen_rooms s) \<and>
      (\<forall>room\<in>set (gen_rooms s). \<forall>c\<in>room_rect room. tile_of (gen_grid s) c = FLOOR))"

text \<open>What every later pass keeps: the dimensions, and a floor tile stays a floor tile
  unless it lies in the interior of one of the rooms \<open>rs\<close>.\<close>

definition keeps_floor :: "Room list \<Rightarrow> int \<Rightarrow> int \<Rightarrow> grid \<Rightarrow> grid \<Rightarrow> bool" where
  "keeps_floor rs width height g g' =
     (dims g' width height \<and>
      (\<forall>c. inb width height c \<and> tile_of g c = FLOOR \<longrightarrow>
           tile_of g' c = FLOOR \<or> (\<exists>room\<in>set rs. c \<in> room_interior room)))"

text \<open>What a run of the placement loop of the standard biome establishes, when it
  returns without an error.\<close>

definition rooms_post :: "Generator \<Rightarrow> int \<Rightarrow> py_error + (Generator \<times> int \<times> nat) \<Rightarrow> bool" where
  "rooms_post s attempts y =
     (\<forall>s' attempts' pos'. y = Inr (s', attempts', pos') \<longrightarrow>
           (0 \<le> gen_width s \<and> 0 \<le> gen_height s \<longrightarrow> placed s) \<longrightarrow>
           (\<not> (int (length (gen_rooms s)) < 20 \<and> attempts < 150) \<longrightarrow> placed s) \<longrightarrow>
           attempts \<le> 150 \<longrightarrow> int (length (gen_rooms s)) \<le> 20 \<longrightarrow>
           placed s' \<and> gen_width s' = gen_width s \<and> gen_height s' = gen_height s \<and>
           attempts \<le> attempts' \<and> attempts' \<le> 150 \<and> int (length (gen_rooms s')) \<le> 20 \<and>
           (attempts' = 150 \<or> int (length (gen_rooms s')) = 20))"

text \<open>A later state of the same level: same dimensions, same room list, and the grid
  keeps its floor outside the interiors of the rooms \<open>rs\<close>.\<close>

definition same_level :: "Room list \<Rightarrow> Generator \<Rightarrow> Generator \<Rightarrow> bool" where
  "same_level rs s s' =
     (gen_width s' = gen_width s \<and> gen_height s' = gen_height s \<and>
      gen_rooms s' = gen_rooms s \<and>
      keeps_floor rs (gen_width s) (gen_height s) (gen_grid s) (gen_grid s'))"

definition level_ok :: "Generator \<Rightarrow> bool" where
  "level_ok s =
     (dims (gen_grid s) (gen_width s) (gen_height s) \<and>
      (\<forall>room\<in>set (gen_rooms s). room_ok (gen_width s) (gen_height s) room))"

text \<open>Notions for the proof of connectivity. A cell is passable for the argument when it
  is a floor tile or lies in the interior of a room; it is anchored at itself, or, when it
  lies in the interior of a room, at the perimeter cells of that room; two cells are linked
  when all their anchors are connected by floor tiles. The final level: the rooms are
  apart and every perimeter cell of every room is a floor tile.\<close>

definition ok_cell :: "Generator \<Rightarrow> int \<times> int \<Rightarrow> bool" where
  "ok_cell s c =
     (inb (gen_width s) (gen_height s) c \<and>
      (tile_of (gen_grid s) c = FLOOR \<or> (\<exists>room\<in>set (gen_rooms s). c \<in> room_interior room)))"

definition anchors :: "Room list \<Rightarrow> int \<times> int \<Rightarrow> (int \<times> int) set" where
  "anchors rs c =
     {p. ((\<forall>room\<in>set rs. c \<notin> room_interior room) \<and> p = c) \<or>
         (\<exists>room\<in>set rs. c \<in> room_interior room \<and> p \<in> room_perimeter room)}"

definition linked :: "Generator \<Rightarrow> int \<times> int \<Rightarrow> int \<times> int \<Rightarrow> bool" where
  "linked s c d =
     (\<forall>p\<in>anchors (gen_rooms s) c. \<forall>q\<in>anchors (gen_rooms s) d. floor_connected s p q)"

definition final_ok :: "Generator \<Rightarrow> bool" where
  "final_ok s =
     (level_ok s \<and> no_overlap (gen_rooms s) \<and>
      (\<forall>room\<in>set (gen_rooms s). \<forall>c\<in>room_perimeter room. tile_of (gen_grid s) c = FLOOR))"

text \<open>The cells of the straight line between two cells of one row or of one column.\<close>

definition line_cells :: "int \<times> int \<Rightarrow> int \<times> int \<Rightarrow> (int \<times> int) set" where
  "line_cells c d =
     {e. (fst c = fst d \<and> fst e = fst c \<and>
          min (snd c) (snd d) \<le> snd e \<and> snd e \<le> max (snd c) (snd d)) \<or>
         (snd c = snd d \<and> snd e = snd c \<and>
          min (fst c) (fst d) \<le> fst e \<and> fst e \<le> max (fst c) (fst d))}"

text \<open>The rooms with the indices \<open>idx\<close> are linked to room 0, centre to centre.\<close>

definition reaches_first :: "Generator \<Rightarrow> int list \<Rightarrow> bool" where
  "reaches_first G idx =
     (\<forall>i\<in>set idx. linked G (center (gen_rooms G ! nat i)) (center (gen_rooms G ! 0)))"

text \<open>Examples: the office of 8 by 6 tiles whose corner is at \<open>(x, 1)\<close>, and the random
  source whose every draw is 0 except the tenth, which is 10. With it the first attempt
  places an office at \<open>(1, 1)\<close>, the second one an office at \<open>(11, 1)\<close>, and every later
  attempt falls on the first office.\<close>

definition office_at :: "int \<Rightarrow> Room" where
  "office_at x =
     \<lparr>room_x = x, room_y = 1, room_width = 8, room_height = 6, room_type = OFFICE_SPACE,
      is_lit = True, connections = []\<rparr>"

definition second_at_11 :: rng where
  "second_at_11 i = (if i = 9 then 10 else 0)"

section \<open>Player: collision and stamina\<close>

subsection \<open>Collision\<close>

lemma rect_grid_row: "rect_grid g \<Longrightarrow> 0 \<le> j \<Longrightarrow> j < int (length g) \<Longrightarrow>
    length (g ! nat j) = length (hd g)"
  by (simp add: rect_grid_def list_all_length)

lemma in_bounds_rect:
  "rect_grid g \<Longrightarrow>
     in_bounds g i j = Inr (0 \<le> i \<and> i < int (length (hd g)) \<and> 0 \<le> j \<and> j < int (length g))"
  by (cases g) (auto simp: in_bounds_def rect_grid_def)

lemma tile_at_rect:
  "rect_grid g \<Longrightarrow> 0 \<le> i \<Longrightarrow> i < int (length (hd g)) \<Longrightarrow> 0 \<le> j \<Longrightarrow> j < int (length g) \<Longrightarrow>
     tile_at g i j = Inr (g ! nat j ! nat i)"
  by (simp add: tile_at_def py_index_def rect_grid_row)

lemma check_positions_rect:
  "rect_grid g \<Longrightarrow>
     check_positions g ps =
       Inr (list_all (\<lambda>(cx, cy). cell_clear g (grid_coord cx, grid_coord cy)) ps)"
proof (induction ps)
  case Nil
  then show ?case by simp
next
  case (Cons q ps)
  obtain cx cy where q: "q = (cx, cy)" by (cases q)
  show ?case
  proof (cases "0 \<le> grid_coord cx \<and> grid_coord cx < int (length (hd g)) \<and>
                0 \<le> grid_coord cy \<and> grid_coord cy < int (length g)")
    case True
    then show ?thesis
      using Cons by (simp add: q in_bounds_rect tile_at_rect cell_clear_def)
  next
    case False
    then show ?thesis
      using Cons.prems by (auto simp: q in_bounds_rect cell_clear_def)
  qed
qed

lemma can_move_to_rect:
  "rect_grid g \<Longrightarrow> can_move_to x y g = Inr (probes_clear g x y)"
  unfolding can_move_to_def positions_to_check_def
  by (simp only: check_positions_rect) (simp add: probes_clear_def)



lemma move_phases:
  "move p dx dy g pressed =
     (case can_move_to (p_x p + dx * speed_of (sprint_phase p dx dy pressed)) (p_y p) g of
        Inl e \<Rightarrow> Inl e
      | Inr okx \<Rightarrow>
         (case can_move_to
                 (if okx then p_x p + dx * speed_of (sprint_phase p dx dy pressed) else p_x p)
                 (p_y p + dy * speed_of (sprint_phase p dx dy pressed)) g of
            Inl e \<Rightarrow> Inl e
          | Inr oky \<Rightarrow>
              Inr ((sprint_phase p dx dy pressed)
                \<lparr>p_x := (if okx then p_x p + dx * speed_of (sprint_phase p dx dy pressed)
                          else p_x p),
                 p_y := (if oky then p_y p + dy * speed_of (sprint_phase p dx dy pressed)
                          else p_y p)\<rparr>)))"
  unfolding move_def sprint_phase_def speed_of_def Let_def
  by (cases "stamina p \<le> 0"; cases "stamina p \<ge> MAX_STAMINA"; cases "can_sprint p";
      cases pressed; cases "dx \<noteq> 0 \<or> dy \<noteq> 0")
     (simp_all split: sum.splits)

lemma sprint_phase_fields:
  "is_sprinting (sprint_phase p dx dy pressed) =
     (0 < stamina p \<and> (can_sprint p \<or> MAX_STAMINA \<le> stamina p) \<and> pressed \<and>
      (dx \<noteq> 0 \<or> dy \<noteq> 0))"
  "can_sprint (sprint_phase p dx dy pressed) =
     (0 < stamina p \<and> (can_sprint p \<or> MAX_STAMINA \<le> stamina p))"
  "stamina (sprint_phase p dx dy pressed) =
     (if is_sprinting (sprint_phase p dx dy pressed)
      then max 0 (stamina p - STAMINA_DRAIN_RATE)
      else if stamina p < MAX_STAMINA then min MAX_STAMINA (stamina p + STAMINA_REGEN_RATE)
      else stamina p)"
  unfolding sprint_phase_def Let_def
  by (cases "stamina p \<le> 0"; cases "stamina p \<ge> MAX_STAMINA"; cases "can_sprint p";
      cases pressed; cases "dx \<noteq> 0 \<or> dy \<noteq> 0"; simp)+

lemma move_sprint_fields:
  assumes "move p dx dy g pressed = Inr p'"
  shows "is_sprinting p' = is_sprinting (sprint_phase p dx dy pressed)"
    and "can_sprint p' = can_sprint (sprint_phase p dx dy pressed)"
    and "stamina p' = stamina (sprint_phase p dx dy pressed)"
  using assms unfolding move_phases
  by (auto split: sum.splits)

lemma move_result:
  assumes "rect_grid g"
  shows "\<exists>p'. move p dx dy g pressed = Inr p' \<and>
     p_x p' = (if probes_clear g (p_x p + dx * speed_of p') (p_y p)
               then p_x p + dx * speed_of p' else p_x p) \<and>
     p_y p' = (if probes_clear g (p_x p') (p_y p + dy * speed_of p')
               then p_y p + dy * speed_of p' else p_y p)"
  unfolding move_phases
  by (simp add: can_move_to_rect [OF assms] speed_of_def)

text \<open>
  C3 (as amended). On a rectangular, non-empty map a move never raises. Its X step is
  tested at the old Y and applied on its own, its Y step is tested at the X just obtained:
  each coordinate takes the candidate value exactly when the five probes of the candidate
  position (the corners of the footprint of half-extent 8, and the centre) are all in cells
  inside the map that are neither \<open>WALL\<close> nor \<open>POOL_EDGE\<close>, and keeps its old value otherwise.
  Hence the position after the move passes the five-probe test whenever the position
  before the move passed it or the move changed the position.
\<close>

theorem move_axis_separated_sound:
  assumes "rect_grid g"
  shows "\<exists>p'. move p dx dy g pressed = Inr p' \<and>
     p_x p' = (if probes_clear g (p_x p + dx * speed_of p') (p_y p)
               then p_x p + dx * speed_of p' else p_x p) \<and>
     p_y p' = (if probes_clear g (p_x p') (p_y p + dy * speed_of p')
               then p_y p + dy * speed_of p' else p_y p) \<and>
     (probes_clear g (p_x p) (p_y p) \<or> p_x p' \<noteq> p_x p \<or> p_y p' \<noteq> p_y p
        \<longrightarrow> probes_clear g (p_x p') (p_y p'))"
proof -
  obtain p' where m: "move p dx dy g pressed = Inr p'"
    and px: "p_x p' = (if probes_clear g (p_x p + dx * speed_of p') (p_y p)
               then p_x p + dx * speed_of p' else p_x p)"
    and py: "p_y p' = (if probes_clear g (p_x p') (p_y p + dy * speed_of p')
               then p_y p + dy * speed_of p' else p_y p)"
    using move_result [OF assms] by blast
  have "probes_clear g (p_x p') (p_y p')"
    if h: "probes_clear g (p_x p) (p_y p) \<or> p_x p' \<noteq> p_x p \<or> p_y p' \<noteq> p_y p"
  proof (cases "probes_clear g (p_x p') (p_y p + dy * speed_of p')")
    case True
    with py show ?thesis by simp
  next
    case False
    with py have y: "p_y p' = p_y p" by simp
    show ?thesis
    proof (cases "probes_clear g (p_x p + dx * speed_of p') (p_y p)")
      case True
      with px y show ?thesis by simp
    next
      case False
      with px have "p_x p' = p_x p" by simp
      with y h show ?thesis by simp
    qed
  qed
  with m px py show ?thesis by blast
qed

lemma probes_clear_two_floor_10: "probes_clear [[FLOOR, FLOOR]] 10 10"
  by (simp add: probes_clear_def cell_clear_def grid_coord_def)

lemma probes_clear_two_floor_12: "probes_clear [[FLOOR, FLOOR]] 12 10"
  by (simp add: probes_clear_def cell_clear_def grid_coord_def)

lemma rect_grid_two_floor: "rect_grid [[FLOOR, FLOOR]]"
  by (simp add: rect_grid_def)

theorem move_axis_separated_sound_witness:
  "rect_grid [[FLOOR, FLOOR]] \<and>
   move (Player_init 10 10) 2 0 [[FLOOR, FLOOR]] False = Inr (Player_init 12 10) \<and>
   probes_clear [[FLOOR, FLOOR]] 10 10 \<and>
   probes_clear [[FLOOR, FLOOR]] 12 10"
proof -
  have s: "sprint_phase (Player_init 10 10) 2 0 False = Player_init 10 10"
    by (simp add: sprint_phase_def Player_init_def)
  have m: "move (Player_init 10 10) 2 0 [[FLOOR, FLOOR]] False = Inr (Player_init 12 10)"
    unfolding move_phases s
    by (simp add: can_move_to_rect [OF rect_grid_two_floor] speed_of_def Player_init_def
        probes_clear_two_floor_10 probes_clear_two_floor_12)
  from move_axis_separated_sound [OF rect_grid_two_floor, of "Player_init 10 10" 2 0 False] m
  have "probes_clear [[FLOOR, FLOOR]] (p_x (Player_init 12 10)) (p_y (Player_init 12 10))"
    using probes_clear_two_floor_10 by (auto simp: Player_init_def)
  then have "probes_clear [[FLOOR, FLOOR]] 12 10"
    by (simp add: Player_init_def)
  with rect_grid_two_floor m probes_clear_two_floor_10 show ?thesis by simp
qed

text \<open>
  The claim as first stated (every position occupied after a move passes the five probes)
  fails for a player who stands in a wall: both steps are refused and the player stays
  where it was.
\<close>

theorem move_keeps_blocked_position:
  "move (Player_init 10 10) 2 0 [[WALL]] False = Inr (Player_init 10 10) \<and>
   \<not> probes_clear [[WALL]] 10 10"
proof -
  have r: "rect_grid [[WALL]]"
    by (simp add: rect_grid_def)
  have s: "sprint_phase (Player_init 10 10) 2 0 False = Player_init 10 10"
    by (simp add: sprint_phase_def Player_init_def)
  have n10: "\<not> probes_clear [[WALL]] 10 10"
    by (simp add: probes_clear_def cell_clear_def grid_coord_def)
  have n12: "\<not> probes_clear [[WALL]] 12 10"
    by (simp add: probes_clear_def cell_clear_def grid_coord_def)
  have "move (Player_init 10 10) 2 0 [[WALL]] False = Inr (Player_init 10 10)"
    unfolding move_phases s
    by (simp add: can_move_to_rect [OF r] speed_of_def Player_init_def n10 n12)
  with n10 show ?thesis by simp
qed

subsection \<open>Stamina and sprint\<close>

lemma move_stamina_bounds:
  assumes "move p dx dy g pressed = Inr p'"
    and "0 \<le> stamina p" and "stamina p \<le> MAX_STAMINA"
  shows "0 \<le> stamina p' \<and> stamina p' \<le> MAX_STAMINA"
  using assms(2,3)
  unfolding move_sprint_fields(3) [OF assms(1)] sprint_phase_fields(3)
  by (simp add: max_def min_def)

lemma moves_stamina_bounds:
  "moves p0 g ins = Inr p \<Longrightarrow> 0 \<le> stamina p0 \<Longrightarrow> stamina p0 \<le> MAX_STAMINA \<Longrightarrow>
     0 \<le> stamina p \<and> stamina p \<le> MAX_STAMINA"
proof (induction ins arbitrary: p0)
  case Nil
  then show ?case by simp
next
  case (Cons i ins)
  obtain dx dy pressed where i: "i = (dx, dy, pressed)"
    by (cases i)
  from Cons.prems(1) obtain p1 where
    p1: "move p0 dx dy g pressed = Inr p1" and rest: "moves p1 g ins = Inr p"
    by (auto simp: i split: sum.splits)
  from move_stamina_bounds [OF p1 Cons.prems(2,3)] Cons.IH [OF rest]
  show ?case by simp
qed

text \<open>
  C4. Start from any player whose stamina lies in \<open>[0, MAX_STAMINA]\<close> (as the one
  \<open>Player.__init__\<close> builds does) and run any number of ticks, then one more. The stamina
  is in \<open>[0, MAX_STAMINA]\<close> before and after that tick. A tick that starts with stamina 0
  clears the sprint allowance and does not sprint, whatever the keys and whatever the
  sprint state before; the allowance is cleared on no other tick; and an allowance that
  was cleared is set again only on a tick that starts with stamina \<open>MAX_STAMINA\<close>.
\<close>

theorem stamina_bounds_and_sprint_hysteresis:
  assumes "moves p0 g ins = Inr p"
    and "0 \<le> stamina p0" and "stamina p0 \<le> MAX_STAMINA"
    and "move p dx dy g pressed = Inr p'"
  shows "0 \<le> stamina p \<and> stamina p \<le> MAX_STAMINA \<and>
         0 \<le> stamina p' \<and> stamina p' \<le> MAX_STAMINA \<and>
         (stamina p = 0 \<longrightarrow> \<not> can_sprint p' \<and> \<not> is_sprinting p') \<and>
         (can_sprint p \<and> \<not> can_sprint p' \<longrightarrow> stamina p = 0) \<and>
         (\<not> can_sprint p \<and> can_sprint p' \<longrightarrow> stamina p = MAX_STAMINA)"
proof -
  have b: "0 \<le> stamina p \<and> stamina p \<le> MAX_STAMINA"
    using moves_stamina_bounds [OF assms(1-3)] .
  then have b': "0 \<le> stamina p' \<and> stamina p' \<le> MAX_STAMINA"
    using move_stamina_bounds [OF assms(4)] by simp
  have s: "is_sprinting p' =
           (0 < stamina p \<and> (can_sprint p \<or> MAX_STAMINA \<le> stamina p) \<and> pressed \<and>
            (dx \<noteq> 0 \<or> dy \<noteq> 0))"
    and c: "can_sprint p' = (0 < stamina p \<and> (can_sprint p \<or> MAX_STAMINA \<le> stamina p))"
    unfolding move_sprint_fields(1,2) [OF assms(4)] sprint_phase_fields(1,2) by simp_all
  from b b' show ?thesis
    unfolding s c by auto
qed

theorem stamina_bounds_and_sprint_hysteresis_witness:
  "moves ((Player_init 10 10)\<lparr>stamina := 0\<rparr>) [[FLOOR, FLOOR]] [] =
     Inr ((Player_init 10 10)\<lparr>stamina := 0\<rparr>) \<and>
   move ((Player_init 10 10)\<lparr>stamina := 0\<rparr>) 2 0 [[FLOOR, FLOOR]] True =
     Inr ((Player_init 12 10)\<lparr>stamina := 4 / 5, can_sprint := False\<rparr>) \<and>
   stamina ((Player_init 10 10)\<lparr>stamina := 0\<rparr>) = 0 \<and>
   \<not> can_sprint ((Player_init 12 10)\<lparr>stamina := 4 / 5, can_sprint := False\<rparr>) \<and>
   \<not> is_sprinting ((Player_init 12 10)\<lparr>stamina := 4 / 5, can_sprint := False\<rparr>) \<and>
   0 \<le> stamina ((Player_init 12 10)\<lparr>stamina := 4 / 5, can_sprint := False\<rparr>) \<and>
   stamina ((Player_init 12 10)\<lparr>stamina := 4 / 5, can_sprint := False\<rparr>) \<le> MAX_STAMINA"
proof -
  have h1: "moves ((Player_init 10 10)\<lparr>stamina := 0\<rparr>) [[FLOOR, FLOOR]] [] =
     Inr ((Player_init 10 10)\<lparr>stamina := 0\<rparr>)"
    by simp
  have h2: "0 \<le> stamina ((Player_init 10 10)\<lparr>stamina := 0\<rparr>)"
    and h3: "stamina ((Player_init 10 10)\<lparr>stamina := 0\<rparr>) \<le> MAX_STAMINA"
    by simp_all
  have s: "sprint_phase ((Player_init 10 10)\<lparr>stamina := 0\<rparr>) 2 0 True =
             (Player_init 10 10)\<lparr>stamina := 4 / 5, can_sprint := False\<rparr>"
    by (simp add: sprint_phase_def Player_init_def)
  have h4: "move ((Player_init 10 10)\<lparr>stamina := 0\<rparr>) 2 0 [[FLOOR, FLOOR]] True =
     Inr ((Player_init 12 10)\<lparr>stamina := 4 / 5, can_sprint := False\<rparr>)"
    unfolding move_phases s
    by (simp add: can_move_to_rect [OF rect_grid_two_floor] speed_of_def Player_init_def
        probes_clear_two_floor_10 probes_clear_two_floor_12)
  from stamina_bounds_and_sprint_hysteresis [OF h1 h2 h3 h4] h1 h4
  show ?thesis by simp
qed


section \<open>Visibility: lit room and flashlight\<close>

lemma get_current_room_find:
  "get_current_room rooms gx gy = find (\<lambda>room. room_contains room (gx, gy)) rooms"
  by (induction rooms) (simp_all add: room_contains_def)

lemma in_bounds_grid_cells:
  "rect_grid g \<Longrightarrow> in_bounds g i j = Inr ((i, j) \<in> grid_cells g)"
  by (simp add: in_bounds_rect grid_cells_def)

lemma light_row_rect:
  "rect_grid g \<Longrightarrow>
     light_row g y xs vis = Inr (vis \<union> {c. fst c \<in> set xs \<and> snd c = y \<and> c \<in> grid_cells g})"
proof (induction xs arbitrary: vis)
  case Nil
  then show ?case by simp
next
  case (Cons x xs)
  show ?case
    by (simp add: in_bounds_grid_cells [OF Cons.prems] Cons.IH [OF Cons.prems]) auto
qed

lemma light_rows_rect:
  "rect_grid g \<Longrightarrow>
     light_rows g ys xs vis =
       Inr (vis \<union> {c. fst c \<in> set xs \<and> snd c \<in> set ys \<and> c \<in> grid_cells g})"
proof (induction ys arbitrary: vis)
  case Nil
  then show ?case by simp
next
  case (Cons y ys)
  show ?case
    by (simp add: light_row_rect [OF Cons.prems] Cons.IH [OF Cons.prems]) auto
qed

lemma set_py_range: "set (py_range a b) = {i. a \<le> i \<and> i < b}"
  by (auto simp: py_range_def)

lemma set_py_range_step2:
  "set (py_range_step a (b + 1) 2) = {i. \<exists>k\<ge>0. i = a + 2 * k \<and> i \<le> b}"
proof -
  have "(0 \<le> k \<and> k \<le> (b + 1 - a + 2 - 1) div 2 - 1) = (0 \<le> k \<and> a + 2 * k \<le> b)" for k :: int
    by presburger
  then show ?thesis
    by (auto simp: py_range_step_def image_iff)
qed

subsection \<open>One ray\<close>

lemma march_cell_Suc:
  "march_cell (dadd x (dmul dx tenth)) (dadd y (dmul dy tenth)) dx dy k =
     march_cell x y dx dy (Suc k)"
  by (simp add: march_cell_def)

lemma march_cell_0: "march_cell x y dx dy 0 = (dtrunc x, dtrunc y)"
  by (simp add: march_cell_def)

lemma march_cells_done: "\<not> dless d M \<Longrightarrow> march_cells g dx dy M x y d = {}"
proof -
  assume a: "\<not> dless d M"
  have "\<not> (\<forall>j\<le>k. dless (travelled d j) M)" for k
    using a by (auto intro: exI [of _ 0])
  then show ?thesis by (simp add: march_cells_def)
qed

lemma march_cells_out:
  "march_cell x y dx dy 0 \<notin> grid_cells g \<Longrightarrow> march_cells g dx dy M x y d = {}"
  by (auto simp: march_cells_def)

lemma march_cells_wall:
  assumes "dless d M" and "march_cell x y dx dy 0 \<in> grid_cells g"
    and "g ! nat (snd (march_cell x y dx dy 0)) ! nat (fst (march_cell x y dx dy 0)) = WALL"
  shows "march_cells g dx dy M x y d = {march_cell x y dx dy 0}"
proof
  show "march_cells g dx dy M x y d \<subseteq> {march_cell x y dx dy 0}"
  proof
    fix c assume "c \<in> march_cells g dx dy M x y d"
    then obtain k where c: "c = march_cell x y dx dy k"
      and w: "\<forall>j<k. g ! nat (snd (march_cell x y dx dy j)) ! nat (fst (march_cell x y dx dy j)) \<noteq> WALL"
      by (auto simp: march_cells_def)
    have "k = 0"
    proof (rule ccontr)
      assume "k \<noteq> 0"
      then have "0 < k" by simp
      with w assms(3) show False by blast
    qed
    with c show "c \<in> {march_cell x y dx dy 0}" by simp
  qed
next
  have "march_cell x y dx dy 0 \<in> march_cells g dx dy M x y d"
    unfolding march_cells_def using assms(1,2) by (intro CollectI exI [of _ 0]) simp
  then show "{march_cell x y dx dy 0} \<subseteq> march_cells g dx dy M x y d" by simp
qed

lemma all_le_Suc_shift: "(\<forall>j\<le>Suc k. P j) = (P 0 \<and> (\<forall>j\<le>k. P (Suc j)))"
  by (metis Suc_le_mono le0 not0_implies_Suc)

lemma march_cells_step:
  assumes "dless d M" and "march_cell x y dx dy 0 \<in> grid_cells g"
    and "g ! nat (snd (march_cell x y dx dy 0)) ! nat (fst (march_cell x y dx dy 0)) \<noteq> WALL"
  shows "march_cells g dx dy M x y d =
           insert (march_cell x y dx dy 0)
             (march_cells g dx dy M (dadd x (dmul dx tenth)) (dadd y (dmul dy tenth))
                (dadd d tenth))"
    (is "?L = insert ?c0 ?R")
proof (intro set_eqI iffI)
  fix c assume "c \<in> ?L"
  then obtain k where c: "c = march_cell x y dx dy k"
    and lt: "\<forall>j\<le>k. dless (travelled d j) M"
    and inb: "\<forall>j\<le>k. march_cell x y dx dy j \<in> grid_cells g"
    and nw: "\<forall>j<k. g ! nat (snd (march_cell x y dx dy j)) ! nat (fst (march_cell x y dx dy j)) \<noteq> WALL"
    by (auto simp: march_cells_def)
  show "c \<in> insert ?c0 ?R"
  proof (cases k)
    case 0
    with c show ?thesis by simp
  next
    case (Suc k')
    have 1: "\<forall>j\<le>k'. dless (travelled (dadd d tenth) j) M"
    proof (intro allI impI)
      fix j assume "j \<le> k'"
      then have "Suc j \<le> k" using Suc by simp
      with lt have "dless (travelled d (Suc j)) M" by blast
      then show "dless (travelled (dadd d tenth) j) M" by simp
    qed
    have 2: "\<forall>j\<le>k'. march_cell x y dx dy (Suc j) \<in> grid_cells g"
      using inb Suc by simp
    have 3: "\<forall>j<k'. g ! nat (snd (march_cell x y dx dy (Suc j)))
                       ! nat (fst (march_cell x y dx dy (Suc j))) \<noteq> WALL"
      using nw Suc by simp
    have "c \<in> ?R"
      unfolding march_cells_def march_cell_Suc
      using c Suc 1 2 3 by (intro CollectI exI [of _ k']) simp
    then show ?thesis by simp
  qed
next
  fix c assume "c \<in> insert ?c0 ?R"
  then consider "c = ?c0" | "c \<in> ?R" by blast
  then show "c \<in> ?L"
  proof cases
    case 1
    show ?thesis
      unfolding march_cells_def using 1 assms(1,2) by (intro CollectI exI [of _ 0]) simp
  next
    case 2
    then obtain k where c: "c = march_cell x y dx dy (Suc k)"
      and lt: "\<forall>j\<le>k. dless (travelled (dadd d tenth) j) M"
      and inb: "\<forall>j\<le>k. march_cell x y dx dy (Suc j) \<in> grid_cells g"
      and nw: "\<forall>j<k. g ! nat (snd (march_cell x y dx dy (Suc j)))
                        ! nat (fst (march_cell x y dx dy (Suc j))) \<noteq> WALL"
      unfolding march_cells_def march_cell_Suc by auto
    have 1: "\<forall>j\<le>Suc k. dless (travelled d j) M"
      unfolding all_le_Suc_shift using lt assms(1) by simp
    have 2: "\<forall>j\<le>Suc k. march_cell x y dx dy j \<in> grid_cells g"
      unfolding all_le_Suc_shift using inb assms(2) by simp
    have 3: "\<forall>j<Suc k. g ! nat (snd (march_cell x y dx dy j))
                          ! nat (fst (march_cell x y dx dy j)) \<noteq> WALL"
      unfolding All_less_Suc2 using nw assms(3) by simp
    show ?thesis
      unfolding march_cells_def using c 1 2 3 by (intro CollectI exI [of _ "Suc k"]) simp
  qed
qed

lemma tile_at_grid_cells:
  "rect_grid g \<Longrightarrow> (i, j) \<in> grid_cells g \<Longrightarrow> tile_at g i j = Inr (g ! nat j ! nat i)"
  by (simp add: tile_at_rect grid_cells_def)

text \<open>The loop returns as soon as the additions of 0.1 have taken the distance to the
  range, and what it has marked then is the set above.\<close>

lemma cast_ray_loop_cells:
  assumes r: "rect_grid g"
  shows "\<not> dless (travelled d n) M \<Longrightarrow>
     cast_ray_loop g dx dy M x y d vis = Some (Inr (vis \<union> march_cells g dx dy M x y d))"
proof (induction n arbitrary: x y d vis)
  case 0
  then have "\<not> dless d M" by simp
  then show ?case
    by (subst cast_ray_loop.simps) (simp add: march_cells_done)
next
  case (Suc n)
  show ?case
  proof (cases "dless d M")
    case False
    then show ?thesis
      by (subst cast_ray_loop.simps) (simp add: march_cells_done)
  next
    case lt: True
    show ?thesis
    proof (cases "(dtrunc x, dtrunc y) \<in> grid_cells g")
      case False
      then show ?thesis
        using lt
        by (subst cast_ray_loop.simps)
           (simp add: in_bounds_grid_cells [OF r] march_cells_out march_cell_0)
    next
      case inb: True
      show ?thesis
      proof (cases "g ! nat (dtrunc y) ! nat (dtrunc x) = WALL")
        case True
        then show ?thesis
          using lt inb
          by (subst cast_ray_loop.simps)
             (simp add: in_bounds_grid_cells [OF r] tile_at_grid_cells [OF r]
                march_cells_wall march_cell_0)
      next
        case False
        from Suc.prems have "\<not> dless (travelled (dadd d tenth) n) M" by simp
        from Suc.IH [OF this]
        have ih: "cast_ray_loop g dx dy M (dadd x (dmul dx tenth)) (dadd y (dmul dy tenth))
                    (dadd d tenth) (insert (dtrunc x, dtrunc y) vis) =
                  Some (Inr (insert (dtrunc x, dtrunc y) vis \<union>
                       march_cells g dx dy M (dadd x (dmul dx tenth)) (dadd y (dmul dy tenth))
                         (dadd d tenth)))" .
        have st: "march_cells g dx dy M x y d =
           insert (dtrunc x, dtrunc y)
             (march_cells g dx dy M (dadd x (dmul dx tenth)) (dadd y (dmul dy tenth))
                (dadd d tenth))"
          using march_cells_step [of d M x y dx dy g] lt inb False
          by (simp add: march_cell_0)
        show ?thesis
          apply (subst cast_ray_loop.simps)
          using lt inb False
          apply (simp add: in_bounds_grid_cells [OF r] tile_at_grid_cells [OF r] ih st)
          done
      qed
    qed
  qed
qed

lemma range_reached: "\<not> dless (travelled (dbl_of_int 0) 40) (dbl_of_int 4)"
  by code_simp

lemma cast_ray_cells:
  "rect_grid g \<Longrightarrow>
     cast_ray g libm sx sy angle (dbl_of_int 4) vis =
       Some (Inr (vis \<union> ray_cells g libm sx sy angle (dbl_of_int 4)))"
  unfolding cast_ray_def ray_cells_def
  by (rule cast_ray_loop_cells [OF _ range_reached])

lemma cast_rays_cells:
  "rect_grid g \<Longrightarrow>
     cast_rays g libm sx sy angles vis =
       Some (Inr (vis \<union> (\<Union>a\<in>set angles. ray_cells g libm sx sy (radians_d a) (dbl_of_int 4))))"
proof (induction angles arbitrary: vis)
  case Nil
  then show ?case by simp
next
  case (Cons a angles)
  show ?case
    by (simp add: cast_ray_cells [OF Cons.prems] Cons.IH [OF Cons.prems] Un_assoc)
qed

lemma calculate_flashlight_visibility_cells:
  "rect_grid g \<Longrightarrow>
     calculate_flashlight_visibility g libm p vis =
       Some (Inr (vis \<union> (if has_flashlight p then flashlight_cells g libm p else {})))"
  by (simp add: calculate_flashlight_visibility_def Let_def cast_rays_cells
      flashlight_cells_def ray_angles_def)

lemma lit_tiles_cells:
  assumes "rect_grid g"
  shows "(case get_current_room rooms gx gy of
              None \<Rightarrow> Inr {}
            | Some current_room \<Rightarrow>
                if is_lit current_room
                then light_rows g
                       (py_range (room_y current_room) (room_y current_room + room_height current_room))
                       (py_range (room_x current_room) (room_x current_room + room_width current_room))
                       {}
                else Inr {}) = Inr (lit_room_cells g rooms (gx, gy))"
proof -
  have "{c. fst c \<in> set (py_range (room_x r) (room_x r + room_width r)) \<and>
            snd c \<in> set (py_range (room_y r) (room_y r + room_height r)) \<and> c \<in> grid_cells g} =
        {d. room_contains r d} \<inter> grid_cells g" for r
    by (auto simp: set_py_range room_contains_def)
  then show ?thesis
    by (simp add: get_current_room_find lit_room_cells_def light_rows_rect [OF assms]
        split: option.splits)
qed

lemma update_visibility_result:
  assumes "rect_grid g"
  shows "update_visibility g libm rooms p explored =
           Some (Inr (visible_now g libm rooms p,
                (\<lambda>tile. if tile \<in> visible_now g libm rooms p then Some dbl_one
                         else update_fade_timers (visible_now g libm rooms p) explored tile)))"
  unfolding update_visibility_def lit_tiles_cells [OF assms] visible_now_def
  by (simp add: calculate_flashlight_visibility_cells [OF assms])

lemma march_cells_subset: "march_cells g dx dy M x y d \<subseteq> grid_cells g"
  by (auto simp: march_cells_def)

lemma visible_now_subset: "visible_now g libm rooms p \<subseteq> grid_cells g"
  by (auto simp: visible_now_def lit_room_cells_def flashlight_cells_def ray_cells_def
      dest: subsetD [OF march_cells_subset] split: option.splits if_splits)

text \<open>The cells of a ray as a list.\<close>

lemma march_list_cells:
  "\<not> dless (travelled d n) M \<Longrightarrow>
     march_cells g dx dy M x y d = set (march_list g dx dy M x y d n)"
proof (induction n arbitrary: x y d)
  case 0
  then show ?case by (simp add: march_cells_done)
next
  case (Suc n)
  from Suc.prems have n: "\<not> dless (travelled (dadd d tenth) n) M" by simp
  show ?case
  proof (cases "dless d M")
    case False
    then show ?thesis by (simp add: march_cells_done)
  next
    case lt: True
    show ?thesis
    proof (cases "(dtrunc x, dtrunc y) \<in> grid_cells g")
      case False
      then have "march_cells g dx dy M x y d = {}"
        by (simp add: march_cells_out march_cell_0)
      with False show ?thesis by (auto simp: grid_cells_def)
    next
      case inb: True
      then have b: "0 \<le> dtrunc x \<and> dtrunc x < int (length (hd g)) \<and>
         0 \<le> dtrunc y \<and> dtrunc y < int (length g)"
        by (simp add: grid_cells_def)
      show ?thesis
      proof (cases "g ! nat (dtrunc y) ! nat (dtrunc x) = WALL")
        case True
        with lt inb have "march_cells g dx dy M x y d = {(dtrunc x, dtrunc y)}"
          using march_cells_wall [of d M x y dx dy g] by (simp add: march_cell_0)
        with True lt b show ?thesis by simp
      next
        case False
        with lt inb have "march_cells g dx dy M x y d =
           insert (dtrunc x, dtrunc y)
             (march_cells g dx dy M (dadd x (dmul dx tenth)) (dadd y (dmul dy tenth))
                (dadd d tenth))"
          using march_cells_step [of d M x y dx dy g] by (simp add: march_cell_0)
        with False lt b Suc.IH [OF n] show ?thesis by simp
      qed
    qed
  qed
qed

subsection \<open>Rounding\<close>

lemma powr_int_nonneg: "0 \<le> e \<Longrightarrow> 2 powr real_of_int e = 2 ^ nat e"
  by (metis of_nat_nat powr_realpow zero_less_numeral of_int_of_nat_eq)

lemma powr_int_neg: "e \<le> 0 \<Longrightarrow> 2 powr real_of_int e = 1 / 2 ^ nat (- e)"
proof -
  assume "e \<le> 0"
  then have "2 powr real_of_int (- e) = 2 ^ nat (- e)"
    by (intro powr_int_nonneg) simp
  moreover have "2 powr real_of_int e * 2 powr real_of_int (- e) = 1"
    by (simp flip: powr_add)
  ultimately have "2 powr real_of_int e * 2 ^ nat (- e) = 1" by simp
  then show ?thesis
    by (simp add: field_simps)
qed

lemma powr_int_add: "2 powr real_of_int (a + b) = 2 powr real_of_int a * 2 powr real_of_int b"
  by (simp add: powr_add)

lemma powr_int_mono: "a \<le> b \<Longrightarrow> 2 powr real_of_int a \<le> (2::real) powr real_of_int b"
  by simp

lemma powr_int_less_cancel: "2 powr real_of_int a < (2::real) powr real_of_int b \<Longrightarrow> a < b"
  by simp

lemma powr_int_split:
  assumes "a \<le> b"
  shows "2 powr real_of_int b = 2 ^ nat (b - a) * 2 powr real_of_int a"
proof -
  have "2 powr real_of_int b = 2 powr real_of_int (b - a) * 2 powr real_of_int a"
    by (simp flip: powr_add)
  moreover have "2 powr real_of_int (b - a) = 2 ^ nat (b - a)"
    using assms by (intro powr_int_nonneg) simp
  ultimately show ?thesis by (simp only:)
qed

lemma dval_align:
  "e \<le> snd a \<Longrightarrow> dval (fst a * 2 ^ nat (snd a - e), e) = dval a"
proof -
  assume "e \<le> snd a"
  then have "2 powr real_of_int (snd a) = 2 powr real_of_int (snd a - e) * 2 powr real_of_int e"
    by (simp flip: powr_add)
  moreover have "2 powr real_of_int (snd a - e) = 2 ^ nat (snd a - e)"
    using \<open>e \<le> snd a\<close> by (intro powr_int_nonneg) simp
  ultimately show ?thesis
    by (simp add: dval_def)
qed

lemma dval_sum:
  "dval (fst a * 2 ^ nat (snd a - min (snd a) (snd b)) +
         fst b * 2 ^ nat (snd b - min (snd a) (snd b)), min (snd a) (snd b)) = dval a + dval b"
proof -
  let ?e = "min (snd a) (snd b)"
  have "dval (fst a * 2 ^ nat (snd a - ?e) + fst b * 2 ^ nat (snd b - ?e), ?e) =
        dval (fst a * 2 ^ nat (snd a - ?e), ?e) + dval (fst b * 2 ^ nat (snd b - ?e), ?e)"
    by (simp add: dval_def algebra_simps)
  also have "\<dots> = dval a + dval b"
    by (simp only: dval_align [of ?e a] dval_align [of ?e b] min.cobounded1 min.cobounded2)
  finally show ?thesis .
qed

lemma dval_product: "dval (fst a * fst b, snd a + snd b) = dval a * dval b"
  by (simp add: dval_def powr_add)

lemma round_shift_le:
  assumes "0 < t" and "m \<le> I * 2 ^ t"
  shows "round_shift m t \<le> I"
proof -
  have p: "(0::int) < 2 ^ t" by simp
  have q: "m div 2 ^ t \<le> I"
    using zdiv_mono1 [OF assms(2) p] by simp
  have h: "(0::int) < 2 ^ (t - 1)" by simp
  show ?thesis
  proof (cases "m div 2 ^ t = I")
    case True
    have "m = 2 ^ t * (m div 2 ^ t) + m mod 2 ^ t" by simp
    with True assms(2) have "m mod 2 ^ t \<le> 0"
      by (smt (verit) mult.commute)
    moreover have "0 \<le> m mod 2 ^ t" by simp
    ultimately have "m mod 2 ^ t = 0" by simp
    with True h assms(1) show ?thesis
      by (simp add: round_shift_def Let_def)
  next
    case False
    with q have "m div 2 ^ t + 1 \<le> I" by simp
    then show ?thesis
      using assms(1) by (simp add: round_shift_def Let_def)
  qed
qed

lemma abs_bound_real:
  assumes "\<bar>K\<bar> \<le> (2::int) ^ 53"
  shows "real_of_int K \<le> 2 ^ 53" and "- (2 ^ 53) \<le> real_of_int K"
proof -
  from assms have "K \<le> 2 ^ 53" "- (2 ^ 53) \<le> K" by (simp_all add: abs_le_iff)
  then have "real_of_int K \<le> real_of_int (2 ^ 53)" "real_of_int (- (2 ^ 53)) \<le> real_of_int K"
    by (simp_all only: of_int_le_iff)
  then show "real_of_int K \<le> 2 ^ 53" and "- (2 ^ 53) \<le> real_of_int K" by simp_all
qed

lemma round_up_case1:
  fixes pe pj :: real
  assumes t: "0 < t" and le: "real_of_int m * pe \<le> real_of_int K * pj"
    and pj: "pj = 2 ^ n * (2 ^ t * pe)" and pe: "0 < pe"
  shows "real_of_int (round_shift m t) * (2 ^ t * pe) \<le> real_of_int K * pj"
proof -
  define I where "I = K * 2 ^ n"
  have U: "real_of_int K * pj = real_of_int (I * 2 ^ t) * pe"
    by (simp add: I_def pj)
  from le have "real_of_int m * pe \<le> real_of_int (I * 2 ^ t) * pe"
    by (simp only: U)
  with pe have "real_of_int m \<le> real_of_int (I * 2 ^ t)"
    by (simp only: mult_le_cancel_right_pos)
  then have "m \<le> I * 2 ^ t" by (simp only: of_int_le_iff)
  from round_shift_le [OF t this] have "round_shift m t \<le> I" .
  then have "real_of_int (round_shift m t) \<le> real_of_int I" by (simp only: of_int_le_iff)
  then have "real_of_int (round_shift m t) * (2 ^ t * pe) \<le> real_of_int I * (2 ^ t * pe)"
    using pe by (intro mult_right_mono) simp_all
  also have "\<dots> = real_of_int K * pj"
    by (simp add: I_def pj)
  finally show ?thesis .
qed

lemma round_up_case2_pos:
  fixes pe pj :: real
  assumes t: "0 < t" and dl: "0 < dl" and big: "2 ^ (52 + t) \<le> m"
    and le: "real_of_int m * pe \<le> real_of_int K * pj"
    and pes: "2 ^ t * pe = 2 ^ dl * pj" and pe: "0 < pe" and pj: "0 < pj"
    and K: "\<bar>K\<bar> \<le> 2 ^ 53"
  shows "real_of_int (round_shift m t) * (2 ^ t * pe) \<le> real_of_int K * pj"
proof -
  have two: "(2::real) \<le> 2 ^ dl"
    using dl by (metis One_nat_def Suc_leI one_le_numeral power_increasing power_one_right)
  from big have "real_of_int (2 ^ (52 + t)) \<le> real_of_int m" by (simp only: of_int_le_iff)
  then have "real_of_int (2 ^ (52 + t)) * pe \<le> real_of_int m * pe"
    using pe by (simp only: mult_le_cancel_right_pos)
  also note le
  finally have "real_of_int (2 ^ (52 + t)) * pe \<le> real_of_int K * pj" .
  moreover have "real_of_int (2 ^ (52 + t)) * pe = 2 ^ 52 * (2 ^ t * pe)"
    by (simp add: power_add)
  ultimately have "2 ^ 52 * (2 ^ dl * pj) \<le> real_of_int K * pj"
    by (simp only: pes)
  then have "(2 ^ 52 * 2 ^ dl) * pj \<le> real_of_int K * pj"
    by (simp only: mult.assoc)
  with pj have kk: "2 ^ 52 * 2 ^ dl \<le> real_of_int K"
    by (simp only: mult_le_cancel_right_pos)
  have K53: "real_of_int K \<le> 2 ^ 53" using abs_bound_real(1) [OF K] .
  from kk K53 have "(2::real) ^ 52 * 2 ^ dl \<le> 2 ^ 52 * 2" by simp
  then have "(2::real) ^ dl \<le> 2" by simp
  with two have d2: "(2::real) ^ dl = 2" by simp
  from kk K53 have Keq: "real_of_int K = 2 ^ 53" by (simp add: d2)
  have "real_of_int m * pe \<le> 2 ^ 53 * pj"
    using le by (simp only: Keq)
  also have "\<dots> = 2 ^ 52 * (2 ^ dl * pj)"
    by (simp add: d2)
  also have "\<dots> = real_of_int (2 ^ 52 * 2 ^ t) * pe"
    by (simp only: pes [symmetric]) simp
  finally have "real_of_int m \<le> real_of_int (2 ^ 52 * 2 ^ t)"
    using pe by (simp only: mult_le_cancel_right_pos)
  then have "m \<le> 2 ^ 52 * 2 ^ t" by (simp only: of_int_le_iff)
  from round_shift_le [OF t this] have "round_shift m t \<le> 2 ^ 52" .
  then have "real_of_int (round_shift m t) \<le> real_of_int (2 ^ 52)" by (simp only: of_int_le_iff)
  then have "real_of_int (round_shift m t) \<le> 2 ^ 52" by simp
  then have "real_of_int (round_shift m t) * (2 ^ t * pe) \<le> 2 ^ 52 * (2 ^ t * pe)"
    using pe by (intro mult_right_mono) simp_all
  also have "\<dots> = 2 ^ 52 * (2 ^ dl * pj)"
    by (simp only: pes)
  also have "\<dots> = real_of_int K * pj"
    by (simp add: d2 Keq)
  finally show ?thesis .
qed

lemma round_up_case2_neg:
  fixes pe pj :: real
  assumes t: "0 < t" and dl: "0 < dl" and big: "m \<le> - (2 ^ 52) * 2 ^ t"
    and pes: "2 ^ t * pe = 2 ^ dl * pj" and pe: "0 < pe" and pj: "0 < pj"
    and K: "\<bar>K\<bar> \<le> 2 ^ 53"
  shows "real_of_int (round_shift m t) * (2 ^ t * pe) \<le> real_of_int K * pj"
proof -
  have two: "(2::real) \<le> 2 ^ dl"
    using dl by (metis One_nat_def Suc_leI one_le_numeral power_increasing power_one_right)
  from round_shift_le [OF t big] have "round_shift m t \<le> - (2 ^ 52)" .
  then have "real_of_int (round_shift m t) \<le> real_of_int (- (2 ^ 52))" by (simp only: of_int_le_iff)
  then have "real_of_int (round_shift m t) \<le> - (2 ^ 52)" by simp
  then have "real_of_int (round_shift m t) * (2 ^ t * pe) \<le> - (2 ^ 52) * (2 ^ t * pe)"
    using pe by (intro mult_right_mono) simp_all
  also have "\<dots> = - (2 ^ 52 * 2 ^ dl) * pj"
    by (simp only: pes) simp
  also have "\<dots> \<le> - (2 ^ 53) * pj"
  proof -
    have "(2::real) ^ 52 * 2 \<le> 2 ^ 52 * 2 ^ dl"
      using two by simp
    then have "- (2 ^ 52 * 2 ^ dl) \<le> - ((2::real) ^ 53)" by simp
    then show ?thesis using pj by (simp only: mult_le_cancel_right_pos)
  qed
  also have "\<dots> \<le> real_of_int K * pj"
    using abs_bound_real(2) [OF K] pj by (simp only: mult_le_cancel_right_pos)
  finally show ?thesis .
qed

lemma dround_upper:
  assumes le: "dval d \<le> real_of_int K * 2 powr real_of_int j" and K: "\<bar>K\<bar> \<le> 2 ^ 53"
  shows "dval (dround d) \<le> real_of_int K * 2 powr real_of_int j"
proof -
  obtain m e where d: "d = (m, e)" by (cases d)
  define s where "s = bitlen \<bar>m\<bar> - 53"
  show ?thesis
  proof (cases "s \<le> 0")
    case True
    then show ?thesis using le by (simp add: dround_def d s_def Let_def)
  next
    case False
    then have s: "0 < s" by simp
    define t where "t = nat s"
    have t: "0 < t" using s by (simp add: t_def)
    have res: "dround d = (round_shift m t, e + s)"
      using False by (simp add: dround_def d s_def [symmetric] Let_def t_def)
    have m0: "0 < \<bar>m\<bar>"
      using s by (cases "m = 0") (simp_all add: s_def)
    from bitlen_bounds [OF m0] have "2 ^ nat (bitlen \<bar>m\<bar> - 1) \<le> \<bar>m\<bar>" by simp
    moreover have "nat (bitlen \<bar>m\<bar> - 1) = 52 + t"
      using s by (simp add: s_def t_def nat_add_distrib)
    ultimately have big: "2 ^ (52 + t) \<le> \<bar>m\<bar>" by simp
    define pe :: real where "pe = 2 powr real_of_int e"
    define pj :: real where "pj = 2 powr real_of_int j"
    have pos: "0 < pe" "0 < pj" by (simp_all add: pe_def pj_def)
    have pes: "2 powr real_of_int (e + s) = 2 ^ t * pe"
      unfolding pe_def using powr_int_split [of e "e + s"] s by (simp add: t_def)
    have val: "dval (dround d) = real_of_int (round_shift m t) * (2 ^ t * pe)"
      by (simp only: res dval_def fst_conv snd_conv pes)
    have le': "real_of_int m * pe \<le> real_of_int K * pj"
      using le by (simp only: d dval_def fst_conv snd_conv pe_def pj_def)
    have "real_of_int (round_shift m t) * (2 ^ t * pe) \<le> real_of_int K * pj"
    proof (cases "e + s \<le> j")
      case True
      have "pj = 2 ^ nat (j - (e + s)) * (2 ^ t * pe)"
        unfolding pj_def using powr_int_split [OF True] by (simp only: pes)
      from round_up_case1 [OF t le' this pos(1)] show ?thesis .
    next
      case False
      define dl where "dl = nat (e + s - j)"
      have dl: "0 < dl" using False by (simp add: dl_def)
      have "2 powr real_of_int (e + s) = 2 ^ dl * pj"
        unfolding dl_def pj_def using False by (intro powr_int_split) simp
      then have eq: "2 ^ t * pe = 2 ^ dl * pj" by (simp only: pes)
      show ?thesis
      proof (cases "0 < m")
        case True
        with big have "2 ^ (52 + t) \<le> m" by simp
        from round_up_case2_pos [OF t dl this le' eq pos K] show ?thesis .
      next
        case False
        with m0 have "m < 0" by simp
        with big have "m \<le> - (2 ^ 52) * 2 ^ t" by (simp add: power_add)
        from round_up_case2_neg [OF t dl this eq pos K] show ?thesis .
      qed
    qed
    then show ?thesis by (simp only: val pj_def)
  qed
qed

lemma dadd_upper:
  assumes "dval a + dval b \<le> real_of_int K * 2 powr real_of_int j" and "\<bar>K\<bar> \<le> 2 ^ 53"
  shows "dval (dadd a b) \<le> real_of_int K * 2 powr real_of_int j"
  unfolding dadd_def Let_def
  by (rule dround_upper [OF _ assms(2)]) (simp only: dval_sum assms(1))

lemma dmul_upper:
  assumes "dval a * dval b \<le> real_of_int K * 2 powr real_of_int j" and "\<bar>K\<bar> \<le> 2 ^ 53"
  shows "dval (dmul a b) \<le> real_of_int K * 2 powr real_of_int j"
  unfolding dmul_def
  by (rule dround_upper [OF _ assms(2)]) (simp only: dval_product assms(1))

lemma dtrunc_less:
  assumes "dval d < real_of_int N" and "0 < N"
  shows "dtrunc d < N"
proof -
  obtain m e where d: "d = (m, e)" by (cases d)
  show ?thesis
  proof (cases "0 \<le> e")
    case True
    then have "dval d = real_of_int (m * 2 ^ nat e)"
      by (simp add: dval_def d powr_int_nonneg)
    with assms(1) have "m * 2 ^ nat e < N" by (simp only: of_int_less_iff)
    with True show ?thesis by (simp add: dtrunc_def d)
  next
    case False
    then have e: "e \<le> 0" "e < 0" by simp_all
    show ?thesis
    proof (cases "0 \<le> m")
      case True
      have "real_of_int (m div 2 ^ nat (- e)) \<le> real_of_int m / 2 ^ nat (- e)"
        by (metis floor_divide_of_int_eq of_int_floor_le of_int_numeral of_int_power)
      also have "\<dots> = dval d"
        by (simp add: dval_def d powr_int_neg [OF e(1)])
      finally have "real_of_int (m div 2 ^ nat (- e)) < real_of_int N"
        using assms(1) by simp
      then have "m div 2 ^ nat (- e) < N" by (simp only: of_int_less_iff)
      with True e show ?thesis by (simp add: dtrunc_def d)
    next
      case False
      then have "0 \<le> (- m) div 2 ^ nat (- e)"
        by (simp add: pos_imp_zdiv_nonneg_iff)
      with False e assms(2) show ?thesis by (simp add: dtrunc_def d)
    qed
  qed
qed

subsection \<open>The float nearest to an exact value\<close>

lemma round_half_even_cases:
  "round_half_even v = \<lfloor>v\<rfloor> \<or> (round_half_even v = \<lfloor>v\<rfloor> + 1 \<and> 1 / 2 \<le> v - real_of_int \<lfloor>v\<rfloor>)"
  by (simp add: round_half_even_def Let_def)

lemma round_half_even_ge: "real_of_int K \<le> v \<Longrightarrow> K \<le> round_half_even v"
proof -
  assume "real_of_int K \<le> v"
  then have "K \<le> \<lfloor>v\<rfloor>" by (simp add: le_floor_iff)
  with round_half_even_cases [of v] show ?thesis by auto
qed

lemma round_half_even_le: "v \<le> real_of_int K \<Longrightarrow> round_half_even v \<le> K"
proof -
  assume a: "v \<le> real_of_int K"
  from floor_mono [OF a] have f: "\<lfloor>v\<rfloor> \<le> K" by simp
  show ?thesis
  proof (cases "\<lfloor>v\<rfloor> = K")
    case True
    with a have "v - real_of_int \<lfloor>v\<rfloor> \<le> 0" by simp
    with round_half_even_cases [of v] True show ?thesis by auto
  next
    case False
    with f have "\<lfloor>v\<rfloor> + 1 \<le> K" by simp
    with round_half_even_cases [of v] f show ?thesis by auto
  qed
qed

lemma round_half_even_less: "v < real_of_int K - 1 / 2 \<Longrightarrow> round_half_even v < K"
proof -
  assume a: "v < real_of_int K - 1 / 2"
  then have "v < real_of_int K" by simp
  then have f: "\<lfloor>v\<rfloor> < K" by (simp add: floor_less_iff)
  show ?thesis
  proof (cases "\<lfloor>v\<rfloor> = K - 1")
    case True
    with a have "v - real_of_int \<lfloor>v\<rfloor> < 1 / 2" by simp
    with round_half_even_cases [of v] f show ?thesis by auto
  next
    case False
    with f have "\<lfloor>v\<rfloor> + 1 < K" by simp
    with round_half_even_cases [of v] f show ?thesis by auto
  qed
qed

lemma expo_lower:
  assumes "v \<noteq> 0"
  shows "2 powr real_of_int (expo v - 1) \<le> \<bar>v\<bar>"
proof (cases "1 \<le> \<bar>v\<bar>")
  case True
  define n where "n = \<lfloor>\<bar>v\<bar>\<rfloor>"
  have n: "0 < n" using True by (simp add: n_def)
  from bitlen_bounds [OF n] have b: "2 ^ nat (bitlen n - 1) \<le> n" by simp
  have "1 \<le> bitlen n" using n by (simp add: bitlen_alt_def)
  then have "2 powr real_of_int (bitlen n - 1) = 2 ^ nat (bitlen n - 1)"
    by (intro powr_int_nonneg) simp
  also have "\<dots> = real_of_int (2 ^ nat (bitlen n - 1))" by simp
  also have "\<dots> \<le> real_of_int n" using b by (simp only: of_int_le_iff)
  also have "\<dots> \<le> \<bar>v\<bar>" by (simp add: n_def)
  finally show ?thesis using True by (simp add: expo_def n_def)
next
  case False
  then have v1: "\<bar>v\<bar> < 1" by simp
  have v0: "0 < \<bar>v\<bar>" using assms by simp
  define u where "u = 1 / \<bar>v\<bar>"
  have u1: "1 < u" using v0 v1 by (simp add: u_def)
  define c where "c = \<lceil>u\<rceil> - 1"
  have c: "0 < c" using u1 by (simp add: c_def less_ceiling_iff)
  define jj where "jj = bitlen c"
  from bitlen_bounds [OF c] have "c < 2 ^ nat jj" by (simp add: jj_def)
  then have "\<lceil>u\<rceil> \<le> 2 ^ nat jj" by (simp add: c_def)
  then have "real_of_int \<lceil>u\<rceil> \<le> real_of_int (2 ^ nat jj)" by (simp only: of_int_le_iff)
  with le_of_int_ceiling [of u] have "u \<le> real_of_int (2 ^ nat jj)" by (rule order_trans)
  then have "u \<le> 2 ^ nat jj" by simp
  then have "1 / 2 ^ nat jj \<le> 1 / u"
    using u1 by (intro divide_left_mono) simp_all
  moreover have "1 / u = \<bar>v\<bar>" by (simp add: u_def)
  moreover have "0 \<le> jj" by (simp add: jj_def bitlen_nonneg)
  then have "2 powr real_of_int (- jj) = 1 / 2 ^ nat (- (- jj))"
    by (intro powr_int_neg) simp
  ultimately have "2 powr real_of_int (- jj) \<le> \<bar>v\<bar>" by simp
  moreover have "expo v - 1 = - jj"
    using False by (simp add: expo_def jj_def c_def u_def)
  ultimately show ?thesis by simp
qed

lemma expo_small:
  assumes "v \<noteq> 0" and "\<bar>v\<bar> < 2 powr real_of_int b"
  shows "expo v \<le> b"
proof -
  from expo_lower [OF assms(1)] assms(2)
  have "2 powr real_of_int (expo v - 1) < 2 powr real_of_int b" by (rule le_less_trans)
  then have "expo v - 1 < b" by (rule powr_int_less_cancel)
  then show ?thesis by simp
qed

text \<open>When the exponent is not positive the float is \<open>m / 2 ^ t\<close>, and truncating it is
  integer division.\<close>

lemma dbl_of_real_scaled:
  assumes "v \<noteq> 0" and "expo v \<le> 53"
  shows "dbl_of_real v = (round_half_even (v * 2 ^ nat (53 - expo v)), expo v - 53)"
proof -
  have "2 powr real_of_int (expo v - 53) = 1 / 2 ^ nat (- (expo v - 53))"
    using assms(2) by (intro powr_int_neg) simp
  then have "v / 2 powr real_of_int (expo v - 53) = v * 2 ^ nat (53 - expo v)"
    by simp
  then show ?thesis
    using assms(1) by (simp only: dbl_of_real_def Let_def if_False)
qed

lemma dtrunc_scaled_le:
  assumes "M \<le> K * 2 ^ t"
  shows "dtrunc (M, - int t) \<le> K"
proof (cases "t = 0")
  case True
  with assms show ?thesis by (simp add: dtrunc_def)
next
  case False
  have p: "(0::int) < 2 ^ t" by simp
  show ?thesis
  proof (cases "0 \<le> M")
    case True
    from zdiv_mono1 [OF assms p] have "M div 2 ^ t \<le> K" by simp
    with True False show ?thesis by (simp add: dtrunc_def)
  next
    case neg: False
    have c: "((- K) * 2 ^ t) div 2 ^ t = - K" by (rule nonzero_mult_div_cancel_right) simp
    from assms have "(- K) * 2 ^ t \<le> - M" by simp
    from zdiv_mono1 [OF this p] have "- K \<le> (- M) div 2 ^ t" by (simp only: c)
    with neg False show ?thesis by (simp add: dtrunc_def)
  qed
qed

lemma dtrunc_scaled_ge:
  assumes "K * 2 ^ t \<le> M"
  shows "K \<le> dtrunc (M, - int t)"
proof (cases "t = 0")
  case True
  with assms show ?thesis by (simp add: dtrunc_def)
next
  case False
  have p: "(0::int) < 2 ^ t" by simp
  show ?thesis
  proof (cases "0 \<le> M")
    case True
    from zdiv_mono1 [OF assms p] have "K \<le> M div 2 ^ t" by simp
    with True False show ?thesis by (simp add: dtrunc_def)
  next
    case neg: False
    have c: "((- K) * 2 ^ t) div 2 ^ t = - K" by (rule nonzero_mult_div_cancel_right) simp
    from assms have "- M \<le> (- K) * 2 ^ t" by simp
    from zdiv_mono1 [OF this p] have "(- M) div 2 ^ t \<le> - K" by (simp only: c)
    with neg False show ?thesis by (simp add: dtrunc_def)
  qed
qed

lemma dtrunc_dbl_of_real_le:
  assumes b: "\<bar>v\<bar> < 2 ^ 53" and le: "v \<le> real_of_int K"
  shows "dtrunc (dbl_of_real v) \<le> K"
proof (cases "v = 0")
  case True
  with le show ?thesis by (simp add: dbl_of_real_def dtrunc_def)
next
  case False
  have "\<bar>v\<bar> < 2 powr real_of_int 53"
    using b by (simp add: powr_int_nonneg)
  from expo_small [OF False this] have e: "expo v \<le> 53" .
  define t where "t = nat (53 - expo v)"
  have t: "expo v - 53 = - int t" using e by (simp add: t_def)
  have "v * 2 ^ t \<le> real_of_int (K * 2 ^ t)"
    using le by simp
  from round_half_even_le [OF this] have "round_half_even (v * 2 ^ t) \<le> K * 2 ^ t" .
  from dtrunc_scaled_le [OF this] show ?thesis
    by (simp only: dbl_of_real_scaled [OF False e] t t_def [symmetric])
qed

lemma dtrunc_dbl_of_real_ge:
  assumes b: "\<bar>v\<bar> < 2 ^ 53" and le: "real_of_int K \<le> v"
  shows "K \<le> dtrunc (dbl_of_real v)"
proof (cases "v = 0")
  case True
  with le show ?thesis by (simp add: dbl_of_real_def dtrunc_def)
next
  case False
  have "\<bar>v\<bar> < 2 powr real_of_int 53"
    using b by (simp add: powr_int_nonneg)
  from expo_small [OF False this] have e: "expo v \<le> 53" .
  define t where "t = nat (53 - expo v)"
  have t: "expo v - 53 = - int t" using e by (simp add: t_def)
  have "real_of_int (K * 2 ^ t) \<le> v * 2 ^ t"
    using le by simp
  from round_half_even_ge [OF this] have "K * 2 ^ t \<le> round_half_even (v * 2 ^ t)" .
  from dtrunc_scaled_ge [OF this] show ?thesis
    by (simp only: dbl_of_real_scaled [OF False e] t t_def [symmetric])
qed

text \<open>\<open>int(x / 20)\<close> and \<open>int(x // 20)\<close> agree on the floats \<open>x \<ge> 0\<close>: the rounded quotient
  does not reach the next integer.\<close>

lemma cell_of_quotient:
  assumes x: "x = real_of_int m / 2 ^ k" and m: "\<bar>m\<bar> < 2 ^ 53" and nn: "0 \<le> x"
  shows "dtrunc (dbl_of_real (x / 20)) = \<lfloor>x / 20\<rfloor>"
proof (cases "x = 0")
  case True
  then show ?thesis by (simp add: dbl_of_real_def dtrunc_def)
next
  case False
  define r where "r = x / 20"
  define n where "n = \<lfloor>r\<rfloor>"
  have xpos: "0 < x" using False nn by simp
  have rpos: "0 < r" "r \<noteq> 0" using xpos by (simp_all add: r_def)
  have n0: "0 \<le> n" using rpos by (simp add: n_def)
  have mr: "real_of_int m = r * (20 * 2 ^ k)"
    by (simp add: r_def x)
  have mlt: "real_of_int m < 2 ^ 53"
  proof -
    from m have "m < 2 ^ 53" by simp
    then have "real_of_int m < real_of_int (2 ^ 53)" by (simp only: of_int_less_iff)
    then show ?thesis by simp
  qed
  have pk: "2 powr real_of_int (49 - int k) * 2 ^ k = 2 ^ 49"
  proof -
    have "2 powr real_of_int (49 - int k) * 2 powr real_of_int (int k) = 2 powr real_of_int 49"
      by (simp flip: powr_add)
    then show ?thesis by (simp add: powr_realpow)
  qed
  have "r * (20 * 2 ^ k) < 2 ^ 53" using mlt by (simp only: mr)
  moreover have "r * (16 * 2 ^ k) \<le> r * (20 * 2 ^ k)"
    using rpos(1) by (intro mult_left_mono) simp_all
  ultimately have "r * (16 * 2 ^ k) < 16 * 2 ^ 49" by simp
  then have "r * 2 ^ k < 2 ^ 49" by simp
  then have "r * 2 ^ k < 2 powr real_of_int (49 - int k) * 2 ^ k"
    by (simp only: pk)
  then have "r < 2 powr real_of_int (49 - int k)"
    by (simp only: mult_less_cancel_right_pos zero_less_power zero_less_numeral)
  with rpos(1) have "\<bar>r\<bar> < 2 powr real_of_int (49 - int k)" by simp
  from expo_small [OF rpos(2) this] have e: "expo r \<le> 49 - int k" .
  then have e53: "expo r \<le> 53" by simp
  define t where "t = nat (53 - expo r)"
  have t: "expo r - 53 = - int t" using e53 by (simp add: t_def)
  have tk: "k + 4 \<le> t" using e by (simp add: t_def)
  define M where "M = round_half_even (r * 2 ^ t)"
  have val: "dbl_of_real r = (M, - int t)"
    by (simp only: dbl_of_real_scaled [OF rpos(2) e53] t t_def [symmetric] M_def)
  have "real_of_int n \<le> r" by (simp add: n_def)
  then have "real_of_int (n * 2 ^ t) \<le> r * 2 ^ t" by simp
  from round_half_even_ge [OF this] have lo: "n * 2 ^ t \<le> M" by (simp add: M_def)
  define D where "D = 20 * (n + 1) * 2 ^ k - m"
  have rn: "r < real_of_int (n + 1)" by (simp add: n_def)
  then have "r * (20 * 2 ^ k) < real_of_int (n + 1) * (20 * 2 ^ k)"
    by (intro mult_strict_right_mono) simp_all
  then have "real_of_int m < real_of_int (20 * (n + 1) * 2 ^ k)"
    by (simp add: mr)
  then have "m < 20 * (n + 1) * 2 ^ k" by (simp only: of_int_less_iff)
  then have D1: "1 \<le> D" by (simp add: D_def)
  obtain i where i: "t = k + 4 + i" using tk by (metis le_Suc_ex)
  have gap: "(real_of_int (n + 1) - r) * (20 * 2 ^ k) = real_of_int D"
    by (simp add: D_def mr algebra_simps)
  have "(real_of_int (n + 1) - r) * 2 ^ t = (real_of_int (n + 1) - r) * (20 * 2 ^ k) * (16 * 2 ^ i / 20)"
    by (simp add: i power_add)
  also have "\<dots> = real_of_int D * (16 * 2 ^ i / 20)"
    by (simp only: gap)
  also have "\<dots> \<ge> 1 * (16 * 1 / 20)"
  proof (intro mult_mono)
    show "1 \<le> real_of_int D" using D1 by simp
    show "16 * 1 / 20 \<le> 16 * (2::real) ^ i / 20" by simp
    show "0 \<le> real_of_int D" using D1 by simp
  qed simp_all
  finally have "1 / 2 < (real_of_int (n + 1) - r) * 2 ^ t" by simp
  then have "r * 2 ^ t < real_of_int ((n + 1) * 2 ^ t) - 1 / 2"
    by (simp add: algebra_simps)
  from round_half_even_less [OF this] have hi: "M < (n + 1) * 2 ^ t" by (simp add: M_def)
  have M0: "0 \<le> M" using lo n0 by (smt (verit) mult_nonneg_nonneg zero_le_numeral zero_le_power)
  have t0: "0 < t" using tk by simp
  have "M div 2 ^ t = n"
  proof (rule int_div_pos_eq)
    show "M = 2 ^ t * n + (M - n * 2 ^ t)" by simp
    show "0 \<le> M - n * 2 ^ t" using lo by simp
    show "M - n * 2 ^ t < 2 ^ t" using hi by (simp add: algebra_simps)
  qed
  with M0 t0 have "dtrunc (M, - int t) = n" by (simp add: dtrunc_def)
  then show ?thesis by (simp only: val [unfolded r_def] n_def r_def)
qed

subsection \<open>How far a ray gets\<close>

lemma dval_scaled:
  "e \<le> snd a \<Longrightarrow> dval a = real_of_int (fst a * 2 ^ nat (snd a - e)) * 2 powr real_of_int e"
proof -
  assume "e \<le> snd a"
  from powr_int_split [OF this] show ?thesis by (simp add: dval_def)
qed

lemma dless_dval: "dless a b \<longleftrightarrow> dval a < dval b"
proof -
  let ?e = "min (snd a) (snd b)"
  have a: "dval a = real_of_int (fst a * 2 ^ nat (snd a - ?e)) * 2 powr real_of_int ?e"
    by (rule dval_scaled) simp
  have b: "dval b = real_of_int (fst b * 2 ^ nat (snd b - ?e)) * 2 powr real_of_int ?e"
    by (rule dval_scaled) simp
  have p: "0 < (2::real) powr real_of_int ?e" by simp
  have "dval a < dval b \<longleftrightarrow>
        real_of_int (fst a * 2 ^ nat (snd a - ?e)) < real_of_int (fst b * 2 ^ nat (snd b - ?e))"
    using p by (simp only: a b mult_less_cancel_right_pos)
  also have "\<dots> \<longleftrightarrow> fst a * 2 ^ nat (snd a - ?e) < fst b * 2 ^ nat (snd b - ?e)"
    by (simp only: of_int_less_iff)
  finally show ?thesis by (simp add: dless_def Let_def)
qed

lemma deq_dval: "deq a b \<longleftrightarrow> dval a = dval b"
proof -
  let ?e = "min (snd a) (snd b)"
  have a: "dval a = real_of_int (fst a * 2 ^ nat (snd a - ?e)) * 2 powr real_of_int ?e"
    by (rule dval_scaled) simp
  have b: "dval b = real_of_int (fst b * 2 ^ nat (snd b - ?e)) * 2 powr real_of_int ?e"
    by (rule dval_scaled) simp
  have p: "(2::real) powr real_of_int ?e \<noteq> 0" by simp
  have "dval a = dval b \<longleftrightarrow>
        real_of_int (fst a * 2 ^ nat (snd a - ?e)) = real_of_int (fst b * 2 ^ nat (snd b - ?e))"
    using p by (simp only: a b mult_cancel_right) simp
  also have "\<dots> \<longleftrightarrow> fst a * 2 ^ nat (snd a - ?e) = fst b * 2 ^ nat (snd b - ?e)"
    by (simp only: of_int_eq_iff)
  finally show ?thesis by (simp add: deq_def Let_def)
qed

text \<open>A coordinate that starts below \<open>A * 2 ^ j\<close> and grows by steps below \<open>B * 2 ^ j\<close> is
  below \<open>(A + k * B) * 2 ^ j\<close> at its \<open>k\<close>-th sample: rounding an exact sum does not take it
  past a float above it.\<close>

lemma sample_upper:
  assumes step: "dval (dmul dv tenth) \<le> real_of_int B * 2 powr real_of_int j"
  shows "dval v \<le> real_of_int A * 2 powr real_of_int j \<Longrightarrow> \<bar>A\<bar> + int k * \<bar>B\<bar> \<le> 2 ^ 53 \<Longrightarrow>
         dval (sample v dv k) \<le> real_of_int (A + int k * B) * 2 powr real_of_int j"
proof (induction k arbitrary: v A)
  case 0
  then show ?case by simp
next
  case (Suc k)
  have "dval v + dval (dmul dv tenth) \<le>
          real_of_int A * 2 powr real_of_int j + real_of_int B * 2 powr real_of_int j"
    using Suc.prems(1) step by (rule add_mono)
  then have s: "dval v + dval (dmul dv tenth) \<le> real_of_int (A + B) * 2 powr real_of_int j"
    by (simp add: algebra_simps)
  have "\<bar>A + B\<bar> \<le> \<bar>A\<bar> + \<bar>B\<bar>" by simp
  also have "\<dots> \<le> \<bar>A\<bar> + int (Suc k) * \<bar>B\<bar>"
    by (simp add: algebra_simps)
  finally have b1: "\<bar>A + B\<bar> \<le> 2 ^ 53" using Suc.prems(2) by simp
  from dadd_upper [OF s b1]
  have 1: "dval (dadd v (dmul dv tenth)) \<le> real_of_int (A + B) * 2 powr real_of_int j" .
  have "\<bar>A + B\<bar> + int k * \<bar>B\<bar> \<le> \<bar>A\<bar> + int (Suc k) * \<bar>B\<bar>"
    by (simp add: algebra_simps)
  with Suc.prems(2) have 2: "\<bar>A + B\<bar> + int k * \<bar>B\<bar> \<le> 2 ^ 53" by simp
  from Suc.IH [OF 1 2] show ?case
    by (simp add: algebra_simps)
qed

lemma in_range_40:
  assumes "\<forall>j\<le>k. dless (travelled (dbl_of_int 0) j) (dbl_of_int 4)"
  shows "k < 40"
proof (rule ccontr)
  assume "\<not> k < 40"
  then have "40 \<le> k" by simp
  with assms have "dless (travelled (dbl_of_int 0) 40) (dbl_of_int 4)" by blast
  with range_reached show False by simp
qed

text \<open>The library of the examples.\<close>

lemma find_in_set: "find P xs = Some x \<Longrightarrow> x \<in> set xs \<and> P x"
  by (induction xs) (auto split: if_splits)

lemma table_cos_cases:
  "m_cos table_libm angle = (0, 0) \<or>
   (\<exists>row\<in>set trig_table. deq (fst row) angle \<and> m_cos table_libm angle = fst (snd row))"
proof (cases "find (\<lambda>row. deq (fst row) angle) trig_table")
  case None
  then show ?thesis by (simp add: table_libm_def)
next
  case (Some row)
  from find_in_set [OF this] Some show ?thesis
    by (auto simp: table_libm_def)
qed

lemma table_steps: "list_all (\<lambda>row. \<not> dless (6554, - 16) (dmul (fst (snd row)) tenth)) trig_table"
  by code_simp

lemma dval_zero: "dval (0, e) = 0"
  by (simp add: dval_def)

lemma dmul_zero_upper:
  assumes "0 \<le> B"
  shows "dval (dmul (0, 0) tenth) \<le> real_of_int B * 2 powr real_of_int j"
proof -
  have "\<bar>0::int\<bar> \<le> 2 ^ 53" by simp
  moreover have "dval (0, 0) * dval tenth \<le> real_of_int 0 * 2 powr real_of_int j"
    by (simp add: dval_zero)
  ultimately have "dval (dmul (0, 0) tenth) \<le> real_of_int 0 * 2 powr real_of_int j"
    by (rule dmul_upper [rotated])
  also have "\<dots> \<le> real_of_int B * 2 powr real_of_int j"
    using assms by simp
  finally show ?thesis .
qed

lemma table_step_upper:
  "dval (dmul (m_cos table_libm angle) tenth) \<le> real_of_int 6554 * 2 powr real_of_int (- 16)"
proof -
  from table_cos_cases [of angle] show ?thesis
  proof
    assume "m_cos table_libm angle = (0, 0)"
    then show ?thesis using dmul_zero_upper [of 6554 "- 16"] by simp
  next
    assume "\<exists>row\<in>set trig_table. deq (fst row) angle \<and> m_cos table_libm angle = fst (snd row)"
    then obtain row where row: "row \<in> set trig_table"
      and c: "m_cos table_libm angle = fst (snd row)" by blast
    from table_steps row have "\<not> dless (6554, - 16) (dmul (fst (snd row)) tenth)"
      by (simp add: list_all_iff)
    then have "dval (dmul (fst (snd row)) tenth) \<le> dval (6554, - 16)"
      by (simp add: dless_dval)
    then show ?thesis by (simp add: c dval_def)
  qed
qed

subsection \<open>Exploration memory\<close>

lemma FADE_RATE_nearest:
  "2 ^ 52 \<le> fst FADE_RATE \<and> fst FADE_RATE < 2 ^ 53 \<and> snd FADE_RATE = - 61 \<and>
   \<bar>300 * fst FADE_RATE - 2 ^ 61\<bar> < 150"
  by (simp add: FADE_RATE_def)

lemma fade_ticks_None: "fade_ticks k None = None"
  by (cases k) simp_all

lemma update_fade_timers_hidden:
  "tile \<notin> V \<Longrightarrow>
     update_fade_timers V explored tile =
       (case explored tile of None \<Rightarrow> None | Some v \<Rightarrow> fade_tile v)"
  by (simp add: update_fade_timers_def split: option.splits)

lemma visibility_ticks_fade:
  assumes "rect_grid g" and "tile \<notin> visible_now g libm rooms p"
  shows "\<exists>E. visibility_ticks k g libm rooms p explored = Some (Inr E) \<and>
              E tile = fade_ticks k (explored tile)"
proof (induction k arbitrary: explored)
  case 0
  show ?case by simp
next
  case (Suc k)
  let ?E1 = "\<lambda>t. if t \<in> visible_now g libm rooms p then Some dbl_one
                  else update_fade_timers (visible_now g libm rooms p) explored t"
  from Suc [of ?E1] obtain E where
    E: "visibility_ticks k g libm rooms p ?E1 = Some (Inr E)"
    and Et: "E tile = fade_ticks k (?E1 tile)"
    by blast
  have "?E1 tile = (case explored tile of None \<Rightarrow> None | Some v \<Rightarrow> fade_tile v)"
    using assms(2) by (simp add: update_fade_timers_hidden)
  with Et have "E tile = fade_ticks (Suc k) (explored tile)"
    by (simp add: fade_ticks_None split: option.splits)
  with E show ?case
    by (simp add: update_visibility_result [OF assms(1)])
qed

lemma rect_grid_corridor12: "rect_grid corridor12"
  by (simp add: rect_grid_def corridor12_def)

lemma dbl_of_real_half: "dbl_of_real (1 / 2) = (4503599627370496, - 53)"
  using dbl_of_real_scaled [of "1 / 2"]
  by (simp add: expo_def compute_bitlen round_half_even_def Let_def)

lemma far_tile_hidden: "(10, 0) \<notin> visible_now corridor12 table_libm [] (Player_init 10 10)"
proof
  assume "(10, 0) \<in> visible_now corridor12 table_libm [] (Player_init 10 10)"
  then obtain a where
    "(10, 0) \<in> ray_cells corridor12 table_libm (4503599627370496, - 53) (4503599627370496, - 53)
                 (radians_d a) (dbl_of_int 4)"
    by (auto simp: visible_now_def lit_room_cells_def flashlight_cells_def Player_init_def
        dbl_of_real_half)
  then obtain k where k: "\<forall>j\<le>k. dless (travelled (dbl_of_int 0) j) (dbl_of_int 4)"
    and c: "(10, 0) = march_cell (4503599627370496, - 53) (4503599627370496, - 53)
                        (m_cos table_libm (radians_d a)) (m_sin table_libm (radians_d a)) k"
    by (auto simp: ray_cells_def march_cells_def)
  from in_range_40 [OF k] have k40: "k < 40" .
  have start: "dval (4503599627370496, - 53) \<le> real_of_int 32768 * 2 powr real_of_int (- 16)"
    by (simp add: dval_def powr_minus_divide)
  have room: "\<bar>32768\<bar> + int k * \<bar>6554\<bar> \<le> (2::int) ^ 53"
    using k40 by simp
  from sample_upper [OF table_step_upper start room]
  have "dval (sample (4503599627370496, - 53) (m_cos table_libm (radians_d a)) k) \<le>
          real_of_int (32768 + int k * 6554) * 2 powr real_of_int (- 16)" .
  also have "\<dots> < real_of_int 10"
    using k40 by (simp add: powr_minus_divide)
  finally have "dtrunc (sample (4503599627370496, - 53) (m_cos table_libm (radians_d a)) k) < 10"
    by (rule dtrunc_less) simp
  with c show False by (simp add: march_cell_def)
qed

lemma fade_ticks_300: "fade_ticks 300 (Some dbl_one) = Some (8850, - 61)"
  by code_simp

lemma fade_ticks_301: "fade_ticks 301 (Some dbl_one) = None"
  by code_simp

text \<open>
  C6, evaluated where the code departs from it. The player stands still at the left end
  of a corridor of twelve floor tiles; the tile \<open>(10, 0)\<close>, out of reach of the flashlight,
  is stored with strength 1.0. After 300 ticks of the visibility update the tile is still
  in the exploration memory, with the positive strength \<open>8850 * 2 ^ -61\<close> (about
  \<open>3.84e-15\<close>): the 300 rounded subtractions of the double nearest to \<open>1 / 300\<close> do not
  add up to 1. The entry is deleted by the tick after, the 301st.
\<close>

theorem tile_still_remembered_after_300_ticks:
  "map_option (map_sum id (\<lambda>explored. explored (10, 0)))
     (visibility_ticks 300 corridor12 table_libm [] (Player_init 10 10) [(10, 0) \<mapsto> dbl_one]) =
     Some (Inr (Some (8850, - 61))) \<and>
   0 < dval (8850, - 61) \<and>
   map_option (map_sum id (\<lambda>explored. explored (10, 0)))
     (visibility_ticks 301 corridor12 table_libm [] (Player_init 10 10) [(10, 0) \<mapsto> dbl_one]) =
     Some (Inr None)"
proof -
  from visibility_ticks_fade [OF rect_grid_corridor12 far_tile_hidden,
      of 300 "[(10, 0) \<mapsto> dbl_one]"]
  have 1: "map_option (map_sum id (\<lambda>explored. explored (10, 0)))
     (visibility_ticks 300 corridor12 table_libm [] (Player_init 10 10) [(10, 0) \<mapsto> dbl_one]) =
     Some (Inr (Some (8850, - 61)))"
    by (auto simp: fade_ticks_300)
  from visibility_ticks_fade [OF rect_grid_corridor12 far_tile_hidden,
      of 301 "[(10, 0) \<mapsto> dbl_one]"]
  have 2: "map_option (map_sum id (\<lambda>explored. explored (10, 0)))
     (visibility_ticks 301 corridor12 table_libm [] (Player_init 10 10) [(10, 0) \<mapsto> dbl_one]) =
     Some (Inr None)"
    by (auto simp: fade_ticks_301)
  have 3: "0 < dval (8850, - 61)"
    by (simp add: dval_def)
  from 1 2 3 show ?thesis by simp
qed

subsection \<open>The visible set\<close>

lemma calculate_flashlight_visibility_angles:
  "has_flashlight p \<Longrightarrow>
     calculate_flashlight_visibility g libm p vis =
       cast_rays g libm (dbl_of_real (p_x p / 20)) (dbl_of_real (p_y p / 20))
         (ray_angles (p_angle p)) vis"
  by (simp add: calculate_flashlight_visibility_def Let_def ray_angles_def)

text \<open>
  C5 (as amended). On a rectangular, non-empty map the visibility update returns without an
  error, and the visible set it leaves is exactly the union of (a) the cells inside the
  map of the rectangle of the first room, in list order, that holds the player's cell,
  when that room is lit, and (b) when the player holds the flashlight, the cells sampled
  by the rays. There is one ray for every second whole number of degrees from
  \<open>int(angle - 30)\<close> up to \<open>int(angle + 30)\<close>, \<open>int\<close> truncating toward zero: the cone is
  60 degrees wide and centred on the heading only when the heading is a whole number. A
  ray is sampled at the player's position and then after each floating-point addition of
  \<open>0.1 * cos\<close> and \<open>0.1 * sin\<close>, as long as the floating-point sum of the steps of 0.1 is
  below 4 (40 samples at most); a sample's cell is marked when that sample and all
  samples before it are inside the map and no sample before it is in a wall cell, so a
  ray ends after marking its first wall cell and every other tile type is transparent. Cells
  that a ray crosses between two samples are not marked. Neither part depends on the
  other, nor on the visible set of the tick before.
\<close>

theorem visible_set_is_union:
  assumes "rect_grid g"
  shows "\<exists>visible_tiles explored'.
           update_visibility g libm rooms p explored = Some (Inr (visible_tiles, explored')) \<and>
           visible_tiles =
             lit_room_cells g rooms (grid_coord (p_x p), grid_coord (p_y p)) \<union>
             (if has_flashlight p then flashlight_cells g libm p else {})"
  by (simp add: update_visibility_result [OF assms] visible_now_def)

text \<open>
  The claim as first stated fails: the cone of rays is neither of fixed width nor centred
  on the heading. For the heading 0.5 the rays run from \<open>-29\<close> to \<open>29\<close> degrees: 58 degrees
  wide and centred on 0; for the heading 0 they run from \<open>-30\<close> to \<open>30\<close>.
\<close>

lemma trunc_examples:
  "dtrunc (dbl_of_real (- 30)) = - 30" "dtrunc (dbl_of_real 30) = 30"
  "dtrunc (dbl_of_real (- (59 / 2))) = - 29" "dtrunc (dbl_of_real (61 / 2)) = 30"
  using dbl_of_real_scaled [of "- 30"] dbl_of_real_scaled [of "30"]
    dbl_of_real_scaled [of "- (59 / 2)"] dbl_of_real_scaled [of "61 / 2"]
  by (simp_all add: expo_def compute_bitlen round_half_even_def Let_def dtrunc_def)

lemma ray_angles_0:
  "ray_angles 0 = [- 30, - 28, - 26, - 24, - 22, - 20, - 18, - 16, - 14, - 12, - 10, - 8, - 6,
     - 4, - 2, 0, 2, 4, 6, 8, 10, 12, 14, 16, 18, 20, 22, 24, 26, 28, 30]"
  by (simp add: ray_angles_def trunc_examples py_range_step_def upto_rec1)

theorem ray_cone_not_centred_on_heading:
  "ray_angles (1 / 2) =
     [- 29, - 27, - 25, - 23, - 21, - 19, - 17, - 15, - 13, - 11, - 9, - 7, - 5, - 3, - 1,
      1, 3, 5, 7, 9, 11, 13, 15, 17, 19, 21, 23, 25, 27, 29] \<and>
   ray_angles 0 =
     [- 30, - 28, - 26, - 24, - 22, - 20, - 18, - 16, - 14, - 12, - 10, - 8, - 6, - 4, - 2, 0,
      2, 4, 6, 8, 10, 12, 14, 16, 18, 20, 22, 24, 26, 28, 30]"
  by (simp add: ray_angles_def trunc_examples py_range_step_def upto_rec1)

text \<open>An example: the player at the pixel \<open>(22, 10)\<close> of the corridor, heading 0, in the lit
  room over its first three tiles. The ray of angle 0 marks the tiles 1 to 4: its 40th
  sample is at \<open>4.999999999999999\<close>. The other rays advance by less at each step.\<close>

lemma dbl_of_real_examples:
  "dbl_of_real (11 / 10) = (4953959590107546, - 52)"
  "dbl_of_real (1 / 2) = (4503599627370496, - 53)"
  using dbl_of_real_scaled [of "11 / 10"] dbl_of_real_scaled [of "1 / 2"]
  by (simp_all add: expo_def compute_bitlen round_half_even_def Let_def)

lemma table_libm_0:
  "m_cos table_libm (radians_d 0) = (1, 0) \<and> m_sin table_libm (radians_d 0) = (0, 0)"
  by code_simp

lemma march_list_ahead:
  "set (march_list corridor12 (1, 0) (0, 0) (dbl_of_int 4) (4953959590107546, - 52)
     (4503599627370496, - 53) (dbl_of_int 0) 40) = {(1, 0), (2, 0), (3, 0), (4, 0)}"
  by code_simp

lemma ray_ahead:
  "ray_cells corridor12 table_libm (4953959590107546, - 52) (4503599627370496, - 53)
     (radians_d 0) (dbl_of_int 4) = {(1, 0), (2, 0), (3, 0), (4, 0)}"
  unfolding ray_cells_def
  by (simp only: table_libm_0 march_list_cells [OF range_reached] march_list_ahead)

lemma table_side_steps:
  "list_all (\<lambda>row. deq (0, 0) (fst row) \<or> \<not> dless (6550, - 16) (dmul (fst (snd row)) tenth))
     trig_table"
  by code_simp

lemma side_angles_nonzero:
  "list_all (\<lambda>a. a = 0 \<or> \<not> deq (0, 0) (radians_d a))
     [- 30, - 28, - 26, - 24, - 22, - 20, - 18, - 16, - 14, - 12, - 10, - 8, - 6,
      - 4, - 2, 0, 2, 4, 6, 8, 10, 12, 14, 16, 18, 20, 22, 24, 26, 28, 30]"
  by code_simp

lemma side_step_upper:
  assumes a: "a \<in> set (ray_angles 0)" and n: "a \<noteq> 0"
  shows "dval (dmul (m_cos table_libm (radians_d a)) tenth) \<le>
           real_of_int 6550 * 2 powr real_of_int (- 16)"
proof -
  from side_angles_nonzero a n have nz: "\<not> deq (0, 0) (radians_d a)"
    unfolding ray_angles_0 [symmetric] list_all_iff by blast
  from table_cos_cases [of "radians_d a"] show ?thesis
  proof
    assume "m_cos table_libm (radians_d a) = (0, 0)"
    then show ?thesis using dmul_zero_upper [of 6550 "- 16"] by simp
  next
    assume "\<exists>row\<in>set trig_table. deq (fst row) (radians_d a) \<and>
              m_cos table_libm (radians_d a) = fst (snd row)"
    then obtain row where row: "row \<in> set trig_table" and k: "deq (fst row) (radians_d a)"
      and c: "m_cos table_libm (radians_d a) = fst (snd row)" by blast
    from nz k have "\<not> deq (0, 0) (fst row)" by (simp add: deq_dval)
    with table_side_steps row have "\<not> dless (6550, - 16) (dmul (fst (snd row)) tenth)"
      by (auto simp: list_all_iff)
    then have "dval (dmul (fst (snd row)) tenth) \<le> dval (6550, - 16)"
      by (simp add: dless_dval)
    then show ?thesis by (simp add: c dval_def)
  qed
qed

lemma ray_side:
  assumes a: "a \<in> set (ray_angles 0)" and n: "a \<noteq> 0"
    and c: "c \<in> ray_cells corridor12 table_libm (4953959590107546, - 52)
                   (4503599627370496, - 53) (radians_d a) (dbl_of_int 4)"
  shows "fst c < 5"
proof -
  from c obtain k where k: "\<forall>j\<le>k. dless (travelled (dbl_of_int 0) j) (dbl_of_int 4)"
    and ck: "c = march_cell (4953959590107546, - 52) (4503599627370496, - 53)
                        (m_cos table_libm (radians_d a)) (m_sin table_libm (radians_d a)) k"
    by (auto simp: ray_cells_def march_cells_def)
  from in_range_40 [OF k] have k40: "k < 40" .
  have start: "dval (4953959590107546, - 52) \<le> real_of_int 72090 * 2 powr real_of_int (- 16)"
    by (simp add: dval_def powr_minus_divide)
  have room: "\<bar>72090\<bar> + int k * \<bar>6550\<bar> \<le> (2::int) ^ 53"
    using k40 by simp
  from sample_upper [OF side_step_upper [OF a n] start room]
  have "dval (sample (4953959590107546, - 52) (m_cos table_libm (radians_d a)) k) \<le>
          real_of_int (72090 + int k * 6550) * 2 powr real_of_int (- 16)" .
  also have "\<dots> < real_of_int 5"
    using k40 by (simp add: powr_minus_divide)
  finally have "dtrunc (sample (4953959590107546, - 52) (m_cos table_libm (radians_d a)) k) < 5"
    by (rule dtrunc_less) simp
  then show ?thesis by (simp add: ck march_cell_def)
qed

lemma flashlight_cells_example:
  "{(3, 0), (4, 0)} \<subseteq> flashlight_cells corridor12 table_libm (Player_init 22 10) \<and>
   (\<forall>c\<in>flashlight_cells corridor12 table_libm (Player_init 22 10). fst c < 5)"
proof
  have "0 \<in> set (ray_angles 0)" by (simp add: ray_angles_0)
  then have "ray_cells corridor12 table_libm (4953959590107546, - 52) (4503599627370496, - 53)
     (radians_d 0) (dbl_of_int 4) \<subseteq> flashlight_cells corridor12 table_libm (Player_init 22 10)"
    unfolding flashlight_cells_def by (auto simp: Player_init_def dbl_of_real_examples)
  then show "{(3, 0), (4, 0)} \<subseteq> flashlight_cells corridor12 table_libm (Player_init 22 10)"
    by (simp add: ray_ahead)
  show "\<forall>c\<in>flashlight_cells corridor12 table_libm (Player_init 22 10). fst c < 5"
  proof
    fix c assume "c \<in> flashlight_cells corridor12 table_libm (Player_init 22 10)"
    then obtain a where a: "a \<in> set (ray_angles 0)"
      and c: "c \<in> ray_cells corridor12 table_libm (4953959590107546, - 52)
                   (4503599627370496, - 53) (radians_d a) (dbl_of_int 4)"
      unfolding flashlight_cells_def by (auto simp: Player_init_def dbl_of_real_examples)
    show "fst c < 5"
    proof (cases "a = 0")
      case True
      with c show ?thesis by (auto simp: ray_ahead)
    next
      case False
      from ray_side [OF a False c] show ?thesis .
    qed
  qed
qed

lemma lit_cells_example:
  "lit_room_cells corridor12 [lit_hall] (1, 0) = {(0, 0), (1, 0), (2, 0)}"
proof -
  have "{d. room_contains lit_hall d} \<inter> grid_cells corridor12 = {(0, 0), (1, 0), (2, 0)}"
  proof (intro set_eqI iffI)
    fix c :: "int \<times> int"
    obtain x y where c: "c = (x, y)" by (cases c)
    assume "c \<in> {d. room_contains lit_hall d} \<inter> grid_cells corridor12"
    then have "0 \<le> x" "x < 3" "y = 0"
      by (simp_all add: c room_contains_def lit_hall_def)
    then have "x = 0 \<or> x = 1 \<or> x = 2" by presburger
    with \<open>y = 0\<close> show "c \<in> {(0, 0), (1, 0), (2, 0)}" by (auto simp: c)
  next
    fix c :: "int \<times> int"
    assume "c \<in> {(0, 0), (1, 0), (2, 0)}"
    then show "c \<in> {d. room_contains lit_hall d} \<inter> grid_cells corridor12"
      by (auto simp: room_contains_def lit_hall_def grid_cells_def corridor12_def)
  qed
  moreover have "room_contains lit_hall (1, 0)" "is_lit lit_hall"
    by (simp_all add: room_contains_def lit_hall_def)
  ultimately show ?thesis by (simp add: lit_room_cells_def)
qed

lemma grid_coord_examples: "grid_coord 22 = 1" "grid_coord 10 = 0"
  by (simp_all add: grid_coord_def)

lemma visible_now_example:
  "visible_now corridor12 table_libm [lit_hall] (Player_init 22 10) =
     {(0, 0), (1, 0), (2, 0), (3, 0), (4, 0)}"
proof -
  let ?F = "flashlight_cells corridor12 table_libm (Player_init 22 10)"
  have V: "visible_now corridor12 table_libm [lit_hall] (Player_init 22 10) =
             {(0, 0), (1, 0), (2, 0)} \<union> ?F"
    by (simp add: visible_now_def Player_init_def grid_coord_examples lit_cells_example)
  show ?thesis
  proof (intro set_eqI iffI)
    fix c :: "int \<times> int"
    obtain x y where c: "c = (x, y)" by (cases c)
    assume v: "c \<in> visible_now corridor12 table_libm [lit_hall] (Player_init 22 10)"
    with visible_now_subset have "c \<in> grid_cells corridor12" by blast
    then have "0 \<le> x" "y = 0" by (simp_all add: c grid_cells_def corridor12_def)
    moreover from v flashlight_cells_example have "x < 5"
      unfolding V by (auto simp: c)
    ultimately have "x = 0 \<or> x = 1 \<or> x = 2 \<or> x = 3 \<or> x = 4" "y = 0" by presburger+
    then show "c \<in> {(0, 0), (1, 0), (2, 0), (3, 0), (4, 0)}" by (auto simp: c)
  next
    fix c :: "int \<times> int"
    assume "c \<in> {(0, 0), (1, 0), (2, 0), (3, 0), (4, 0)}"
    with flashlight_cells_example
    show "c \<in> visible_now corridor12 table_libm [lit_hall] (Player_init 22 10)"
      unfolding V by auto
  qed
qed

theorem visible_set_is_union_witness:
  "rect_grid corridor12 \<and>
   map_option (map_sum id fst)
     (update_visibility corridor12 table_libm [lit_hall] (Player_init 22 10) Map.empty) =
     Some (Inr {(0, 0), (1, 0), (2, 0), (3, 0), (4, 0)}) \<and>
   lit_room_cells corridor12 [lit_hall] (grid_coord 22, grid_coord 10) = {(0, 0), (1, 0), (2, 0)} \<and>
   lit_room_cells corridor12 [lit_hall] (grid_coord 22, grid_coord 10) \<union>
     flashlight_cells corridor12 table_libm (Player_init 22 10) =
     {(0, 0), (1, 0), (2, 0), (3, 0), (4, 0)}"
proof -
  from visible_set_is_union [OF rect_grid_corridor12, of table_libm "[lit_hall]"
      "Player_init 22 10" Map.empty]
  obtain V E where
    u: "update_visibility corridor12 table_libm [lit_hall] (Player_init 22 10) Map.empty =
          Some (Inr (V, E))"
    and e: "V = lit_room_cells corridor12 [lit_hall]
                  (grid_coord (p_x (Player_init 22 10)), grid_coord (p_y (Player_init 22 10))) \<union>
                (if has_flashlight (Player_init 22 10)
                 then flashlight_cells corridor12 table_libm (Player_init 22 10) else {})"
    by blast
  from e have "V = visible_now corridor12 table_libm [lit_hall] (Player_init 22 10)"
    by (simp add: visible_now_def)
  then have V: "V = {(0, 0), (1, 0), (2, 0), (3, 0), (4, 0)}"
    by (simp only: visible_now_example)
  from e V have "lit_room_cells corridor12 [lit_hall] (grid_coord 22, grid_coord 10) \<union>
     flashlight_cells corridor12 table_libm (Player_init 22 10) =
     {(0, 0), (1, 0), (2, 0), (3, 0), (4, 0)}"
    by (simp add: Player_init_def)
  with rect_grid_corridor12 u V show ?thesis
    by (simp add: grid_coord_examples lit_cells_example)
qed

subsection \<open>The tile under the player\<close>

lemma first_sample_in_range: "dless (dbl_of_int 0) (dbl_of_int 4)"
  by code_simp

lemma start_cell_in_march:
  assumes "(dtrunc x, dtrunc y) \<in> grid_cells g"
  shows "(dtrunc x, dtrunc y) \<in> march_cells g dx dy (dbl_of_int 4) x y (dbl_of_int 0)"
  unfolding march_cells_def
  using assms first_sample_in_range by (intro CollectI exI [of _ 0]) (simp add: march_cell_def)

lemma ray_angles_nonempty:
  assumes "\<bar>angle\<bar> < 2 ^ 53 - 30"
  shows "dtrunc (dbl_of_real (angle - 30)) \<in> set (ray_angles angle)"
proof -
  define K where "K = \<lceil>angle - 30\<rceil>"
  have b: "\<bar>angle - 30\<bar> < 2 ^ 53" "\<bar>angle + 30\<bar> < 2 ^ 53"
    using assms by linarith+
  have "angle - 30 \<le> real_of_int K" by (simp add: K_def)
  from dtrunc_dbl_of_real_le [OF b(1) this] have 1: "dtrunc (dbl_of_real (angle - 30)) \<le> K" .
  have "real_of_int K < angle - 30 + 1" unfolding K_def by linarith
  then have "real_of_int K \<le> angle + 30" by simp
  from dtrunc_dbl_of_real_ge [OF b(2) this] have 2: "K \<le> dtrunc (dbl_of_real (angle + 30))" .
  from 1 2 have "dtrunc (dbl_of_real (angle - 30)) \<le> dtrunc (dbl_of_real (angle + 30))" by simp
  then show ?thesis
    unfolding ray_angles_def set_py_range_step2
    by (intro CollectI exI [of _ 0]) simp
qed

lemma player_cell_is_start:
  assumes "v = real_of_int m / 2 ^ k" and "\<bar>m\<bar> < 2 ^ 53" and "0 \<le> grid_coord v"
  shows "dtrunc (dbl_of_real (v / 20)) = grid_coord v"
proof -
  from assms(3) have "0 \<le> v / 20" by (simp add: grid_coord_def)
  then have "0 \<le> v" by simp
  from cell_of_quotient [OF assms(1,2) this] show ?thesis
    by (simp add: grid_coord_def)
qed

lemma player_cell_in_flashlight:
  assumes c: "(grid_coord (p_x p), grid_coord (p_y p)) \<in> grid_cells g"
    and x: "p_x p = real_of_int mx / 2 ^ kx" "\<bar>mx\<bar> < 2 ^ 53"
    and y: "p_y p = real_of_int my / 2 ^ ky" "\<bar>my\<bar> < 2 ^ 53"
    and a: "\<bar>p_angle p\<bar> < 2 ^ 53 - 30"
  shows "(grid_coord (p_x p), grid_coord (p_y p)) \<in> flashlight_cells g libm p"
proof -
  have nn: "0 \<le> grid_coord (p_x p)" "0 \<le> grid_coord (p_y p)"
    using c by (simp_all add: grid_cells_def)
  have sx: "dtrunc (dbl_of_real (p_x p / 20)) = grid_coord (p_x p)"
    using player_cell_is_start [OF x nn(1)] .
  have sy: "dtrunc (dbl_of_real (p_y p / 20)) = grid_coord (p_y p)"
    using player_cell_is_start [OF y nn(2)] .
  have "(grid_coord (p_x p), grid_coord (p_y p)) \<in>
          ray_cells g libm (dbl_of_real (p_x p / 20)) (dbl_of_real (p_y p / 20))
            (radians_d (dtrunc (dbl_of_real (p_angle p - 30)))) (dbl_of_int 4)"
    unfolding ray_cells_def
    using start_cell_in_march [of "dbl_of_real (p_x p / 20)" "dbl_of_real (p_y p / 20)" g] c
    by (simp add: sx sy)
  with ray_angles_nonempty [OF a] show ?thesis
    unfolding flashlight_cells_def by blast
qed

text \<open>
  C10. When the player holds the flashlight and the player's cell is inside the map, the
  visibility update leaves that cell in the visible set and stores the strength 1.0 for
  it; and every ray cast from the player's position, whatever its angle, marks that cell
  (it marks its first sample before it tests for a wall). The player's coordinates are
  floats (\<open>m / 2 ^ k\<close> with \<open>\<bar>m\<bar> < 2 ^ 53\<close>), for which the cell of the first sample,
  \<open>int(x / 20)\<close>, is the player's cell, \<open>int(x // 20)\<close>; and the heading is below \<open>2 ^ 53 - 30\<close> in
  absolute value (\<open>update_angle\<close> keeps it within 180 degrees), so that the two ends of
  the cone are truncated in order and at least one ray is cast.
\<close>

theorem player_tile_visible_and_remembered:
  assumes "rect_grid g" and "has_flashlight p"
    and "(grid_coord (p_x p), grid_coord (p_y p)) \<in> grid_cells g"
    and "p_x p = real_of_int mx / 2 ^ kx" and "\<bar>mx\<bar> < 2 ^ 53"
    and "p_y p = real_of_int my / 2 ^ ky" and "\<bar>my\<bar> < 2 ^ 53"
    and "\<bar>p_angle p\<bar> < 2 ^ 53 - 30"
  shows "(\<exists>visible_tiles explored'.
            update_visibility g libm rooms p explored = Some (Inr (visible_tiles, explored')) \<and>
            (grid_coord (p_x p), grid_coord (p_y p)) \<in> visible_tiles \<and>
            explored' (grid_coord (p_x p), grid_coord (p_y p)) = Some dbl_one) \<and>
         dval dbl_one = 1 \<and>
         (\<forall>angle vis. \<exists>vis'.
            cast_ray g libm (dbl_of_real (p_x p / real_of_int TILE_SIZE))
              (dbl_of_real (p_y p / real_of_int TILE_SIZE)) angle
              (dbl_of_int (FLASHLIGHT_RANGE div TILE_SIZE)) vis = Some (Inr vis') \<and>
            (grid_coord (p_x p), grid_coord (p_y p)) \<in> vis')"
proof -
  have "(grid_coord (p_x p), grid_coord (p_y p)) \<in> visible_now g libm rooms p"
    using player_cell_in_flashlight [OF assms(3-8)] assms(2) by (simp add: visible_now_def)
  then have 1: "\<exists>visible_tiles explored'.
            update_visibility g libm rooms p explored = Some (Inr (visible_tiles, explored')) \<and>
            (grid_coord (p_x p), grid_coord (p_y p)) \<in> visible_tiles \<and>
            explored' (grid_coord (p_x p), grid_coord (p_y p)) = Some dbl_one"
    by (simp add: update_visibility_result [OF assms(1)])
  have 2: "dval dbl_one = 1"
    by (simp add: dval_def dbl_one_def)
  have nn: "0 \<le> grid_coord (p_x p)" "0 \<le> grid_coord (p_y p)"
    using assms(3) by (simp_all add: grid_cells_def)
  have sx: "dtrunc (dbl_of_real (p_x p / 20)) = grid_coord (p_x p)"
    using player_cell_is_start [OF assms(4,5) nn(1)] .
  have sy: "dtrunc (dbl_of_real (p_y p / 20)) = grid_coord (p_y p)"
    using player_cell_is_start [OF assms(6,7) nn(2)] .
  have 3: "\<exists>vis'.
            cast_ray g libm (dbl_of_real (p_x p / real_of_int TILE_SIZE))
              (dbl_of_real (p_y p / real_of_int TILE_SIZE)) angle
              (dbl_of_int (FLASHLIGHT_RANGE div TILE_SIZE)) vis = Some (Inr vis') \<and>
            (grid_coord (p_x p), grid_coord (p_y p)) \<in> vis'" for angle vis
    using start_cell_in_march [of "dbl_of_real (p_x p / 20)" "dbl_of_real (p_y p / 20)" g
        "m_cos libm angle" "m_sin libm angle"] assms(3)
    by (simp add: cast_ray_cells [OF assms(1)] ray_cells_def sx sy)
  from 1 2 3 show ?thesis by blast
qed

theorem player_tile_visible_and_remembered_witness:
  "rect_grid corridor12 \<and> has_flashlight (Player_init 22 10) \<and>
   (grid_coord 22, grid_coord 10) \<in> grid_cells corridor12 \<and>
   (22 :: real) = real_of_int 22 / 2 ^ 0 \<and> (10 :: real) = real_of_int 10 / 2 ^ 0 \<and>
   \<bar>p_angle (Player_init 22 10)\<bar> < 2 ^ 53 - 30 \<and>
   map_option (map_sum id (\<lambda>r. (1, 0) \<in> fst r \<and> snd r (1, 0) = Some dbl_one))
     (update_visibility corridor12 table_libm [lit_hall] (Player_init 22 10) Map.empty) =
     Some (Inr True)"
proof -
  have h2: "has_flashlight (Player_init 22 10)"
    by (simp add: Player_init_def)
  have h3: "(grid_coord (p_x (Player_init 22 10)), grid_coord (p_y (Player_init 22 10)))
              \<in> grid_cells corridor12"
    by (simp add: Player_init_def grid_coord_examples grid_cells_def corridor12_def)
  have h4: "p_x (Player_init 22 10) = real_of_int 22 / 2 ^ 0" "\<bar>22 :: int\<bar> < 2 ^ 53"
    and h6: "p_y (Player_init 22 10) = real_of_int 10 / 2 ^ 0" "\<bar>10 :: int\<bar> < 2 ^ 53"
    and h8: "\<bar>p_angle (Player_init 22 10)\<bar> < 2 ^ 53 - 30"
    by (simp_all add: Player_init_def)
  from player_tile_visible_and_remembered [OF rect_grid_corridor12 h2 h3 h4 h6 h8,
      of table_libm "[lit_hall]" Map.empty]
  have "map_option (map_sum id (\<lambda>r. (1, 0) \<in> fst r \<and> snd r (1, 0) = Some dbl_one))
     (update_visibility corridor12 table_libm [lit_hall] (Player_init 22 10) Map.empty) =
     Some (Inr True)"
    by (auto simp: Player_init_def grid_coord_examples)
  with rect_grid_corridor12 h2 h3 h8 show ?thesis
    by (simp add: Player_init_def grid_coord_examples)
qed

section \<open>Entity: spawning and timers\<close>

lemma in_bounds_True: "in_bounds g i j = Inr True \<Longrightarrow> (i, j) \<in> grid_cells g"
  by (cases g) (auto simp: in_bounds_def grid_cells_def split: if_splits)

lemma tile_at_nonneg:
  "tile_at g i j = Inr t \<Longrightarrow> 0 \<le> i \<Longrightarrow> 0 \<le> j \<Longrightarrow> t = g ! nat j ! nat i"
  by (auto simp: tile_at_def py_index_def split: sum.splits if_splits)

lemma randint_range: "randint a b raw = Inr n \<Longrightarrow> a \<le> n \<and> n \<le> b"
proof -
  assume r: "randint a b raw = Inr n"
  then have ab: "a \<le> b" and n: "n = a + \<lfloor>raw\<rfloor> mod (b - a + 1)"
    by (auto simp: randint_def split: if_splits)
  from ab have "0 \<le> \<lfloor>raw\<rfloor> mod (b - a + 1)" and "\<lfloor>raw\<rfloor> mod (b - a + 1) < b - a + 1"
    using pos_mod_sign [of "b - a + 1" "\<lfloor>raw\<rfloor>"] pos_mod_bound [of "b - a + 1" "\<lfloor>raw\<rfloor>"]
    by linarith+
  with n show ?thesis by simp
qed

lemma spawn_loop_step:
  assumes "spawn_loop rng pos px py V g attempts = Inr (Some (sx, sy), pos')"
  shows "attempts < 20 \<and>
     (\<exists>distance. randint 120 180 (rng pos) = Inr distance \<and>
        ((in_bounds g
            (grid_coord (px + cos (uniform 0 (2 * pi) (rng (pos + 1))) * real_of_int distance))
            (grid_coord (py + sin (uniform 0 (2 * pi) (rng (pos + 1))) * real_of_int distance))
            = Inr True \<and>
          tile_at g
            (grid_coord (px + cos (uniform 0 (2 * pi) (rng (pos + 1))) * real_of_int distance))
            (grid_coord (py + sin (uniform 0 (2 * pi) (rng (pos + 1))) * real_of_int distance))
            = Inr FLOOR \<and>
          (grid_coord (px + cos (uniform 0 (2 * pi) (rng (pos + 1))) * real_of_int distance),
           grid_coord (py + sin (uniform 0 (2 * pi) (rng (pos + 1))) * real_of_int distance))
            \<notin> V \<and>
          sx = px + cos (uniform 0 (2 * pi) (rng (pos + 1))) * real_of_int distance \<and>
          sy = py + sin (uniform 0 (2 * pi) (rng (pos + 1))) * real_of_int distance) \<or>
         spawn_loop rng (pos + 2) px py V g (attempts + 1) = Inr (Some (sx, sy), pos')))"
  using assms
  by (subst (asm) spawn_loop.simps) (auto simp: Let_def split: if_splits sum.splits)

lemma spawn_loop_accept:
  "spawn_loop rng pos px py V g attempts = Inr (Some (sx, sy), pos') \<Longrightarrow>
     (grid_coord sx, grid_coord sy) \<in> grid_cells g \<and>
     g ! nat (grid_coord sy) ! nat (grid_coord sx) = FLOOR \<and>
     (grid_coord sx, grid_coord sy) \<notin> V \<and>
     (\<exists>distance angle. 120 \<le> distance \<and> distance \<le> 180 \<and>
        sx = px + cos angle * real_of_int distance \<and>
        sy = py + sin angle * real_of_int distance)"
proof (induction "nat (20 - attempts)" arbitrary: pos attempts)
  case 0
  from spawn_loop_step [OF "0.prems"] "0.hyps" show ?case by simp
next
  case (Suc n)
  from spawn_loop_step [OF Suc.prems] obtain distance where
    d: "randint 120 180 (rng pos) = Inr distance"
    and alt:
      "(in_bounds g
            (grid_coord (px + cos (uniform 0 (2 * pi) (rng (pos + 1))) * real_of_int distance))
            (grid_coord (py + sin (uniform 0 (2 * pi) (rng (pos + 1))) * real_of_int distance))
            = Inr True \<and>
          tile_at g
            (grid_coord (px + cos (uniform 0 (2 * pi) (rng (pos + 1))) * real_of_int distance))
            (grid_coord (py + sin (uniform 0 (2 * pi) (rng (pos + 1))) * real_of_int distance))
            = Inr FLOOR \<and>
          (grid_coord (px + cos (uniform 0 (2 * pi) (rng (pos + 1))) * real_of_int distance),
           grid_coord (py + sin (uniform 0 (2 * pi) (rng (pos + 1))) * real_of_int distance))
            \<notin> V \<and>
          sx = px + cos (uniform 0 (2 * pi) (rng (pos + 1))) * real_of_int distance \<and>
          sy = py + sin (uniform 0 (2 * pi) (rng (pos + 1))) * real_of_int distance) \<or>
         spawn_loop rng (pos + 2) px py V g (attempts + 1) = Inr (Some (sx, sy), pos')"
    by blast
  from alt show ?case
  proof
    assume a: "in_bounds g
            (grid_coord (px + cos (uniform 0 (2 * pi) (rng (pos + 1))) * real_of_int distance))
            (grid_coord (py + sin (uniform 0 (2 * pi) (rng (pos + 1))) * real_of_int distance))
            = Inr True \<and>
          tile_at g
            (grid_coord (px + cos (uniform 0 (2 * pi) (rng (pos + 1))) * real_of_int distance))
            (grid_coord (py + sin (uniform 0 (2 * pi) (rng (pos + 1))) * real_of_int distance))
            = Inr FLOOR \<and>
          (grid_coord (px + cos (uniform 0 (2 * pi) (rng (pos + 1))) * real_of_int distance),
           grid_coord (py + sin (uniform 0 (2 * pi) (rng (pos + 1))) * real_of_int distance))
            \<notin> V \<and>
          sx = px + cos (uniform 0 (2 * pi) (rng (pos + 1))) * real_of_int distance \<and>
          sy = py + sin (uniform 0 (2 * pi) (rng (pos + 1))) * real_of_int distance"
    then have ib: "in_bounds g (grid_coord sx) (grid_coord sy) = Inr True"
      and t: "tile_at g (grid_coord sx) (grid_coord sy) = Inr FLOOR"
      and nv: "(grid_coord sx, grid_coord sy) \<notin> V"
      and s: "sx = px + cos (uniform 0 (2 * pi) (rng (pos + 1))) * real_of_int distance"
             "sy = py + sin (uniform 0 (2 * pi) (rng (pos + 1))) * real_of_int distance"
      by simp_all
    have inb: "(grid_coord sx, grid_coord sy) \<in> grid_cells g"
      using in_bounds_True [OF ib] .
    then have "0 \<le> grid_coord sx" "0 \<le> grid_coord sy"
      by (simp_all add: grid_cells_def)
    with tile_at_nonneg [OF t] have fl: "g ! nat (grid_coord sy) ! nat (grid_coord sx) = FLOOR"
      by simp
    from randint_range [OF d] have "120 \<le> distance \<and> distance \<le> 180" .
    with inb fl nv s show ?thesis by blast
  next
    assume r: "spawn_loop rng (pos + 2) px py V g (attempts + 1) = Inr (Some (sx, sy), pos')"
    have "n = nat (20 - (attempts + 1))"
      using Suc.hyps(2) by simp
    from Suc.hyps(1) [OF this r] show ?thesis .
  qed
qed

lemma visible_phase_position:
  assumes "visible_phase e g rng pos = Inr (e', pos')" and "visible e"
  shows "(e_x e' = e_x e \<and> e_y e' = e_y e) \<or>
         (e_x e' = e_x e + cos (radians (e_angle e')) \<and>
          e_y e' = e_y e + sin (radians (e_angle e')) \<and>
          can_move_to (e_x e') (e_y e') g = Inr True)"
  using assms
  by (auto simp: visible_phase_def Let_def split: sum.splits if_splits)

lemma visible_phase_hidden:
  "\<not> visible e \<Longrightarrow> visible_phase e g rng pos = Inr (e, pos)"
  by (simp add: visible_phase_def)

lemma visible_phase_timers:
  assumes "visible_phase e g rng pos = Inr (e', pos')" and "visible e"
  shows "spawn_timer e' = spawn_timer e \<and> visibility_timer e' = visibility_timer e - 1 \<and>
         visible e' = (0 < visibility_timer e - 1)"
  using assms
  by (auto simp: visible_phase_def Let_def split: sum.splits if_splits)


lemma spawn_phase_spawned:
  assumes "spawn_phase e px py V g rng pos = Inr (e2, pos2)" and "\<not> visible e" and "visible e2"
  shows "(\<exists>pos1. spawn_loop rng pos px py V g 0 = Inr (Some (e_x e2, e_y e2), pos1)) \<and>
         1200 \<le> spawn_timer e2 \<and> spawn_timer e2 \<le> 2400 \<and>
         120 \<le> visibility_timer e2 \<and> visibility_timer e2 \<le> 300"
  using assms
  by (auto simp: spawn_phase_def split: if_splits sum.splits option.splits prod.splits
      dest: randint_range)

lemma spawn_phase_failed:
  assumes "spawn_phase e px py V g rng pos = Inr (e2, pos2)" and "\<not> visible e"
    and "spawn_timer e \<le> 0" and "\<not> visible e2"
  shows "spawn_timer e2 = 60"
  using assms
  by (auto simp: spawn_phase_def split: if_splits sum.splits option.splits prod.splits)

lemma spawn_phase_idle:
  "visible e \<or> 0 < spawn_timer e \<Longrightarrow> spawn_phase e px py V g rng pos = Inr (e, pos)"
  by (auto simp: spawn_phase_def)

lemma Entity_update_phases:
  assumes "Entity_update e px py level_type V g rng pos = Inr (e', pos')"
    and "level_type = LEVEL_0"
  shows "\<exists>e2 pos2.
           spawn_phase (e\<lparr>spawn_timer := spawn_timer e - 1\<rparr>) px py V g rng pos = Inr (e2, pos2) \<and>
           visible_phase e2 g rng pos2 = Inr (e', pos')"
  using assms by (auto simp: Entity_update_def split: sum.splits)

text \<open>
  C7 (as amended). On the tick on which the entity goes from hidden to visible, the
  position sampled for the spawn (the player's position plus a distance between 120 and
  180 along a random direction) lies in a cell inside the map that is a \<open>FLOOR\<close> tile and
  is not in the visible set handed to that update. The position the entity holds when the
  update returns is that spawn position, or that position advanced by one step of length 1
  along the entity's heading, a step that was tested for collision only.
\<close>

theorem spawn_position_hidden_floor:
  assumes "Entity_update e px py level_type V g rng pos = Inr (e', pos')"
    and "\<not> visible e" and "visible e'"
  shows "\<exists>sx sy.
           (grid_coord sx, grid_coord sy) \<in> grid_cells g \<and>
           g ! nat (grid_coord sy) ! nat (grid_coord sx) = FLOOR \<and>
           (grid_coord sx, grid_coord sy) \<notin> V \<and>
           (\<exists>distance angle. 120 \<le> distance \<and> distance \<le> 180 \<and>
              sx = px + cos angle * real_of_int distance \<and>
              sy = py + sin angle * real_of_int distance) \<and>
           ((e_x e' = sx \<and> e_y e' = sy) \<or>
            (e_x e' = sx + cos (radians (e_angle e')) \<and>
             e_y e' = sy + sin (radians (e_angle e')) \<and>
             can_move_to (e_x e') (e_y e') g = Inr True))"
proof -
  have l0: "level_type = LEVEL_0"
    using assms(1,3) by (auto simp: Entity_update_def split: if_splits)
  from Entity_update_phases [OF assms(1) l0] obtain e2 pos2 where
    sp: "spawn_phase (e\<lparr>spawn_timer := spawn_timer e - 1\<rparr>) px py V g rng pos = Inr (e2, pos2)"
    and vp: "visible_phase e2 g rng pos2 = Inr (e', pos')"
    by blast
  have v2: "visible e2"
  proof (rule ccontr)
    assume "\<not> visible e2"
    with vp assms(3) show False by (simp add: visible_phase_hidden)
  qed
  from spawn_phase_spawned [OF sp _ v2] assms(2) obtain pos1 where
    sl: "spawn_loop rng pos px py V g 0 = Inr (Some (e_x e2, e_y e2), pos1)"
    by auto
  from spawn_loop_accept [OF sl] visible_phase_position [OF vp v2]
  show ?thesis by blast
qed

lemma grid_coord_139: "grid_coord 139 = 6"
  by (simp add: grid_coord_def)

lemma grid_coord_10: "grid_coord 10 = 0"
  by (simp add: grid_coord_def)

lemma rect_grid_corridor15: "rect_grid corridor15"
  by (simp add: rect_grid_def corridor15_def)

lemma probes_clear_corridor15_140: "probes_clear corridor15 140 10"
  by (simp add: probes_clear_def cell_clear_def grid_coord_def corridor15_def)

lemma in_bounds_corridor15_6: "in_bounds corridor15 6 0 = Inr True"
  by (simp add: in_bounds_def corridor15_def)

lemma tile_at_corridor15_6: "tile_at corridor15 6 0 = Inr FLOOR"
  by (simp add: tile_at_def py_index_def corridor15_def)

lemma spawn_loop_example:
  "spawn_loop draws_11_half 0 270 10 lit_7_14 corridor15 0 = Inr (Some (139, 10), 2)"
  by (subst spawn_loop.simps)
     (simp add: draws_11_half_def randint_def uniform_def random_unit_def Let_def
        grid_coord_139 grid_coord_10 in_bounds_corridor15_6 tile_at_corridor15_6 lit_7_14_def)

lemma spawn_phase_example:
  "spawn_phase (hidden_entity 0) 270 10 lit_7_14 corridor15 draws_11_half 0 =
     Inr (\<lparr>e_x = 139, e_y = 10, visible = True, visibility_timer = 120, spawn_timer = 1200,
           e_angle = 0, last_player_x = 270, last_player_y = 10, move_timer = 0,
           target_angle = 0\<rparr>, 5)"
  by (simp add: spawn_phase_def spawn_loop_example hidden_entity_def draws_11_half_def
      randint_def uniform_def random_unit_def)

lemma visible_phase_example:
  "visible_phase \<lparr>e_x = 139, e_y = 10, visible = True, visibility_timer = 120, spawn_timer = 1200,
           e_angle = 0, last_player_x = 270, last_player_y = 10, move_timer = 0,
           target_angle = 0\<rparr> corridor15 draws_11_half 5 =
     Inr (\<lparr>e_x = 140, e_y = 10, visible = True, visibility_timer = 119, spawn_timer = 1200,
           e_angle = 0, last_player_x = 270, last_player_y = 10, move_timer = 1,
           target_angle = 0\<rparr>, 5)"
  by (simp add: visible_phase_def Let_def normalize_diff_def radians_def
      can_move_to_rect [OF rect_grid_corridor15] probes_clear_corridor15_140)

lemma Entity_update_example:
  "Entity_update (hidden_entity 1) 270 10 LEVEL_0 lit_7_14 corridor15 draws_11_half 0 =
     Inr (\<lparr>e_x = 140, e_y = 10, visible = True, visibility_timer = 119, spawn_timer = 1200,
           e_angle = 0, last_player_x = 270, last_player_y = 10, move_timer = 1,
           target_angle = 0\<rparr>, 5)"
proof -
  have "(hidden_entity 1)\<lparr>spawn_timer := spawn_timer (hidden_entity 1) - 1\<rparr> = hidden_entity 0"
    by (simp add: hidden_entity_def)
  then show ?thesis
    by (simp add: Entity_update_def spawn_phase_example visible_phase_example)
qed

text \<open>
  The claim as first stated fails. The player stands in a lit room that covers the tiles
  7 to 14 of a corridor; the entity is placed at \<open>(139, 10)\<close>, in the dark tile 6, and the
  same update moves it one step along its heading 0 to \<open>(140, 10)\<close>, in the lit tile 7: its
  position on the tick of the transition is in that tick's visible set.
\<close>

theorem entity_steps_into_view_on_spawn_tick:
  "Entity_update (hidden_entity 1) 270 10 LEVEL_0 lit_7_14 corridor15 draws_11_half 0 =
     Inr (\<lparr>e_x = 140, e_y = 10, visible = True, visibility_timer = 119, spawn_timer = 1200,
           e_angle = 0, last_player_x = 270, last_player_y = 10, move_timer = 1,
           target_angle = 0\<rparr>, 5) \<and>
   \<not> visible (hidden_entity 1) \<and>
   (grid_coord 140, grid_coord 10) \<in> lit_7_14"
proof -
  have "\<not> visible (hidden_entity 1)"
    by (simp add: hidden_entity_def)
  moreover have "(grid_coord 140, grid_coord 10) \<in> lit_7_14"
    by (simp add: lit_7_14_def grid_coord_def)
  ultimately show ?thesis
    using Entity_update_example by simp
qed

text \<open>The same run as an instance of the theorem: the spawn position is \<open>(139, 10)\<close>.\<close>

theorem spawn_position_hidden_floor_witness:
  "Entity_update (hidden_entity 1) 270 10 LEVEL_0 lit_7_14 corridor15 draws_11_half 0 =
     Inr (\<lparr>e_x = 140, e_y = 10, visible = True, visibility_timer = 119, spawn_timer = 1200,
           e_angle = 0, last_player_x = 270, last_player_y = 10, move_timer = 1,
           target_angle = 0\<rparr>, 5) \<and>
   \<not> visible (hidden_entity 1) \<and>
   (\<exists>sx sy.
      (grid_coord sx, grid_coord sy) \<in> grid_cells corridor15 \<and>
      corridor15 ! nat (grid_coord sy) ! nat (grid_coord sx) = FLOOR \<and>
      (grid_coord sx, grid_coord sy) \<notin> lit_7_14 \<and>
      ((140 = sx \<and> 10 = sy) \<or> (140 = sx + cos (radians 0) \<and> 10 = sy + sin (radians 0))))"
proof -
  have nv: "\<not> visible (hidden_entity 1)"
    by (simp add: hidden_entity_def)
  from spawn_position_hidden_floor [OF Entity_update_example nv]
  have "\<exists>sx sy.
      (grid_coord sx, grid_coord sy) \<in> grid_cells corridor15 \<and>
      corridor15 ! nat (grid_coord sy) ! nat (grid_coord sx) = FLOOR \<and>
      (grid_coord sx, grid_coord sy) \<notin> lit_7_14 \<and>
      ((140 = sx \<and> 10 = sy) \<or> (140 = sx + cos (radians 0) \<and> 10 = sy + sin (radians 0)))"
    by simp blast
  with Entity_update_example nv show ?thesis by simp
qed

text \<open>
  C9 (as amended). In the standard biome the spawn countdown is decremented on every
  tick, while the entity is visible as well as while it is hidden. While the entity is
  visible the visible-duration countdown is decremented too, and the entity is hidden
  again on the very tick on which that countdown reaches zero; nothing is drawn at that
  transition. A hidden entity whose spawn countdown is still above 1 only has it
  decremented. The next spawn countdown, between 1200 and 2400, is drawn on the tick of a
  successful spawn, together with a visible duration between 120 and 300 (119 to 299 once
  that tick has decremented it); a failed placement sets the spawn countdown to 60.
\<close>

theorem entity_timers:
  assumes "Entity_update e px py LEVEL_0 V g rng pos = Inr (e', pos')"
  shows "(visible e \<longrightarrow>
            spawn_timer e' = spawn_timer e - 1 \<and>
            visibility_timer e' = visibility_timer e - 1 \<and>
            visible e' = (0 < visibility_timer e - 1)) \<and>
         (\<not> visible e \<and> 1 < spawn_timer e \<longrightarrow>
            e' = e\<lparr>spawn_timer := spawn_timer e - 1\<rparr> \<and> pos' = pos) \<and>
         (\<not> visible e \<and> spawn_timer e \<le> 1 \<and> visible e' \<longrightarrow>
            1200 \<le> spawn_timer e' \<and> spawn_timer e' \<le> 2400 \<and>
            119 \<le> visibility_timer e' \<and> visibility_timer e' \<le> 299) \<and>
         (\<not> visible e \<and> spawn_timer e \<le> 1 \<and> \<not> visible e' \<longrightarrow> spawn_timer e' = 60)"
proof -
  from Entity_update_phases [OF assms] obtain e2 pos2 where
    sp: "spawn_phase (e\<lparr>spawn_timer := spawn_timer e - 1\<rparr>) px py V g rng pos = Inr (e2, pos2)"
    and vp: "visible_phase e2 g rng pos2 = Inr (e', pos')"
    by blast
  let ?e1 = "e\<lparr>spawn_timer := spawn_timer e - 1\<rparr>"
  have a: "spawn_timer e' = spawn_timer e - 1 \<and>
            visibility_timer e' = visibility_timer e - 1 \<and>
            visible e' = (0 < visibility_timer e - 1)" if v: "visible e"
  proof -
    have "spawn_phase ?e1 px py V g rng pos = Inr (?e1, pos)"
      using v by (simp add: spawn_phase_idle)
    with sp have e2: "e2 = ?e1" by simp
    with v have "visible e2" by simp
    from visible_phase_timers [OF vp this] e2 show ?thesis by simp
  qed
  have b: "e' = ?e1 \<and> pos' = pos" if h: "\<not> visible e \<and> 1 < spawn_timer e"
  proof -
    have "spawn_phase ?e1 px py V g rng pos = Inr (?e1, pos)"
      using h by (simp add: spawn_phase_idle)
    with sp have e2: "e2 = ?e1" "pos2 = pos" by simp_all
    with h vp show ?thesis by (simp add: visible_phase_hidden)
  qed
  have v2: "visible e2" if "visible e'"
  proof (rule ccontr)
    assume "\<not> visible e2"
    with vp that show False by (simp add: visible_phase_hidden)
  qed
  have c: "1200 \<le> spawn_timer e' \<and> spawn_timer e' \<le> 2400 \<and>
            119 \<le> visibility_timer e' \<and> visibility_timer e' \<le> 299"
    if h: "\<not> visible e \<and> spawn_timer e \<le> 1 \<and> visible e'"
  proof -
    from h have "visible e2" using v2 by simp
    from spawn_phase_spawned [OF sp _ this] h visible_phase_timers [OF vp this]
    show ?thesis by simp
  qed
  have d: "spawn_timer e' = 60" if h: "\<not> visible e \<and> spawn_timer e \<le> 1 \<and> \<not> visible e'"
  proof -
    have nv2: "\<not> visible e2"
    proof
      assume v: "visible e2"
      from spawn_phase_spawned [OF sp _ v] h visible_phase_timers [OF vp v]
      have "visible e'" by simp
      with h show False by simp
    qed
    from spawn_phase_failed [OF sp _ _ nv2] h have "spawn_timer e2 = 60" by simp
    with vp nv2 show ?thesis by (simp add: visible_phase_hidden)
  qed
  from a b c d show ?thesis by blast
qed

lemma visible_phase_last_tick:
  "visible_phase \<lparr>e_x = 139, e_y = 10, visible = True, visibility_timer = 1, spawn_timer = 1499,
           e_angle = 0, last_player_x = 270, last_player_y = 10, move_timer = 0,
           target_angle = 0\<rparr> corridor15 draws_11_half 0 =
     Inr (\<lparr>e_x = 140, e_y = 10, visible = False, visibility_timer = 0, spawn_timer = 1499,
           e_angle = 0, last_player_x = 270, last_player_y = 10, move_timer = 1,
           target_angle = 0\<rparr>, 0)"
  by (simp add: visible_phase_def Let_def normalize_diff_def radians_def
      can_move_to_rect [OF rect_grid_corridor15] probes_clear_corridor15_140)

lemma Entity_update_last_tick:
  "Entity_update \<lparr>e_x = 139, e_y = 10, visible = True, visibility_timer = 1, spawn_timer = 1500,
           e_angle = 0, last_player_x = 270, last_player_y = 10, move_timer = 0,
           target_angle = 0\<rparr> 270 10 LEVEL_0 lit_7_14 corridor15 draws_11_half 0 =
     Inr (\<lparr>e_x = 140, e_y = 10, visible = False, visibility_timer = 0, spawn_timer = 1499,
           e_angle = 0, last_player_x = 270, last_player_y = 10, move_timer = 1,
           target_angle = 0\<rparr>, 0)"
  by (simp add: Entity_update_def spawn_phase_def visible_phase_last_tick)

text \<open>
  The claim as first stated fails on the last tick of a visible entity: the spawn
  countdown goes from 1500 to 1499 although the entity was visible, the entity is hidden
  when the update returns, and no draw is taken (the position in the random source stays
  0), so no new countdown is drawn at the transition back to hidden.
\<close>

theorem spawn_countdown_runs_while_visible:
  "Entity_update \<lparr>e_x = 139, e_y = 10, visible = True, visibility_timer = 1, spawn_timer = 1500,
           e_angle = 0, last_player_x = 270, last_player_y = 10, move_timer = 0,
           target_angle = 0\<rparr> 270 10 LEVEL_0 lit_7_14 corridor15 draws_11_half 0 =
     Inr (\<lparr>e_x = 140, e_y = 10, visible = False, visibility_timer = 0, spawn_timer = 1499,
           e_angle = 0, last_player_x = 270, last_player_y = 10, move_timer = 1,
           target_angle = 0\<rparr>, 0)"
  by (rule Entity_update_last_tick)

theorem entity_timers_witness:
  "Entity_update \<lparr>e_x = 139, e_y = 10, visible = True, visibility_timer = 1, spawn_timer = 1500,
           e_angle = 0, last_player_x = 270, last_player_y = 10, move_timer = 0,
           target_angle = 0\<rparr> 270 10 LEVEL_0 lit_7_14 corridor15 draws_11_half 0 =
     Inr (\<lparr>e_x = 140, e_y = 10, visible = False, visibility_timer = 0, spawn_timer = 1499,
           e_angle = 0, last_player_x = 270, last_player_y = 10, move_timer = 1,
           target_angle = 0\<rparr>, 0) \<and>
   Entity_update (hidden_entity 1) 270 10 LEVEL_0 lit_7_14 corridor15 draws_11_half 0 =
     Inr (\<lparr>e_x = 140, e_y = 10, visible = True, visibility_timer = 119, spawn_timer = 1200,
           e_angle = 0, last_player_x = 270, last_player_y = 10, move_timer = 1,
           target_angle = 0\<rparr>, 5) \<and>
   (1200 :: int) \<le> 1200 \<and> (1200 :: int) \<le> 2400 \<and> (119 :: int) \<le> 119 \<and> (119 :: int) \<le> 299"
proof -
  have "\<not> visible (hidden_entity 1) \<and> spawn_timer (hidden_entity 1) \<le> 1"
    by (simp add: hidden_entity_def)
  with entity_timers [OF Entity_update_example]
  have "(1200 :: int) \<le> 1200 \<and> (1200 :: int) \<le> 2400 \<and> (119 :: int) \<le> 119 \<and> (119 :: int) \<le> 299"
    by simp
  with entity_timers [OF Entity_update_last_tick] Entity_update_last_tick Entity_update_example
  show ?thesis by simp
qed

section \<open>BackroomsGenerator: placement, overlap, connectivity\<close>

subsection \<open>Grids and painting\<close>

lemma dims_row: "dims g W H \<Longrightarrow> 0 \<le> j \<Longrightarrow> j < H \<Longrightarrow> int (length (g ! nat j)) = W"
  by (auto simp: dims_def list_all_length)

lemma set_tile_inb:
  assumes "dims g W H" and "inb W H (x, y)"
  shows "set_tile g x y t = Inr (g[nat y := (g ! nat y)[nat x := t]])"
proof -
  have y: "0 \<le> y" "y < int (length g)" and x: "0 \<le> x" "x < W"
    using assms by (auto simp: inb_def dims_def)
  have "int (length (g ! nat y)) = W"
    using dims_row [OF assms(1), of y] assms(2) by (simp add: inb_def)
  with x y show ?thesis
    by (simp add: set_tile_def py_index_def py_set_def)
qed

lemma dims_update:
  assumes "dims g W H"
  shows "dims (g[j := (g ! j)[i := t]]) W H"
proof -
  have "int (length (g[j := (g ! j)[i := t]] ! n)) = W" if "n < length g" for n
    using assms that unfolding dims_def list_all_length
    by (cases "n = j") (simp_all add: nth_list_update)
  then have "list_all (\<lambda>row. int (length row) = W) (g[j := (g ! j)[i := t]])"
    by (simp add: list_all_length)
  with assms show ?thesis by (simp add: dims_def)
qed

lemma tile_of_update:
  assumes "dims g W H" and "inb W H (x, y)" and "inb W H c"
  shows "tile_of (g[nat y := (g ! nat y)[nat x := t]]) c = (if c = (x, y) then t else tile_of g c)"
proof -
  obtain cx cy where c: "c = (cx, cy)" by (cases c)
  have b: "0 \<le> x" "0 \<le> y" "0 \<le> cx" "0 \<le> cy" "nat y < length g" "nat cy < length g"
    using assms c by (auto simp: inb_def dims_def)
  have lx: "nat x < length (g ! nat y)"
    using dims_row [OF assms(1), of y] assms(2) by (auto simp: inb_def)
  show ?thesis
  proof (cases "cy = y")
    case True
    with b lx c show ?thesis
      by (auto simp: tile_of_def nth_list_update)
  next
    case False
    with b have "nat cy \<noteq> nat y" by simp
    with b c False show ?thesis
      by (auto simp: tile_of_def nth_list_update)
  qed
qed

lemma paint_inb:
  assumes "dims g W H" and "\<forall>c\<in>set cs. inb W H c"
  shows "\<exists>g'. paint g cs t = Inr g' \<and> dims g' W H \<and>
           (\<forall>c. inb W H c \<longrightarrow> tile_of g' c = (if c \<in> set cs then t else tile_of g c))"
  using assms
proof (induction cs arbitrary: g)
  case Nil
  then show ?case by simp
next
  case (Cons a cs)
  obtain x y where a: "a = (x, y)" by (cases a)
  let ?g1 = "g[nat y := (g ! nat y)[nat x := t]]"
  have ia: "inb W H (x, y)" using Cons.prems(2) a by simp
  have st: "set_tile g x y t = Inr ?g1"
    using set_tile_inb [OF Cons.prems(1) ia] .
  have d1: "dims ?g1 W H" using dims_update [OF Cons.prems(1)] .
  from Cons.IH [OF d1] Cons.prems(2) obtain g' where
    p: "paint ?g1 cs t = Inr g'" and d': "dims g' W H"
    and t': "\<forall>c. inb W H c \<longrightarrow> tile_of g' c = (if c \<in> set cs then t else tile_of ?g1 c)"
    by auto
  have "\<forall>c. inb W H c \<longrightarrow> tile_of g' c = (if c \<in> set (a # cs) then t else tile_of g c)"
    using t' tile_of_update [OF Cons.prems(1) ia] a by auto
  with p d' st a show ?case by simp
qed

lemma paint_grid_inb:
  assumes "dims (gen_grid s) (gen_width s) (gen_height s)"
    and "\<forall>c\<in>set cs. inb (gen_width s) (gen_height s) c"
  shows "\<exists>s'. paint_grid s cs t = Inr s' \<and> gen_width s' = gen_width s \<and>
           gen_height s' = gen_height s \<and> gen_rooms s' = gen_rooms s \<and>
           dims (gen_grid s') (gen_width s) (gen_height s) \<and>
           (\<forall>c. inb (gen_width s) (gen_height s) c \<longrightarrow>
              tile_of (gen_grid s') c = (if c \<in> set cs then t else tile_of (gen_grid s) c))"
proof -
  from paint_inb [OF assms, of t] obtain g' where
    "paint (gen_grid s) cs t = Inr g'" "dims g' (gen_width s) (gen_height s)"
    "\<forall>c. inb (gen_width s) (gen_height s) c \<longrightarrow>
       tile_of g' c = (if c \<in> set cs then t else tile_of (gen_grid s) c)"
    by blast
  then show ?thesis
    by (simp add: paint_grid_def)
qed

lemma room_rect_inb: "room_ok W H r \<Longrightarrow> c \<in> room_rect r \<Longrightarrow> inb W H c"
  by (auto simp: room_ok_def room_rect_def room_contains_def inb_def)

lemma overlaps_sym: "overlaps a b = overlaps b a"
  by (auto simp: overlaps_def)

lemma overlaps_disjoint: "\<not> overlaps a b \<Longrightarrow> room_rect a \<inter> room_rect b = {}"
  by (auto simp: overlaps_def room_rect_def room_contains_def)

lemma no_overlap_snoc:
  assumes "no_overlap rs" and "\<not> list_ex (overlaps r) rs"
  shows "no_overlap (rs @ [r])"
proof -
  have n: "\<forall>q\<in>set rs. \<not> overlaps r q"
    using assms(2) by (simp add: list_ex_iff)
  show ?thesis
    unfolding no_overlap_def
  proof (intro allI impI)
    fix i j assume i: "i < length (rs @ [r])" and j: "j < length (rs @ [r])" and ne: "i \<noteq> j"
    show "\<not> overlaps ((rs @ [r]) ! i) ((rs @ [r]) ! j)"
    proof (cases "i < length rs")
      case True
      show ?thesis
      proof (cases "j < length rs")
        case jl: True
        with True ne assms(1) show ?thesis
          by (simp add: no_overlap_def nth_append)
      next
        case False
        with j have "j = length rs" by simp
        with True n show ?thesis
          by (simp add: nth_append overlaps_sym [of _ r])
      qed
    next
      case False
      with i have il: "i = length rs" by simp
      with ne j have "j < length rs" by simp
      with il n show ?thesis
        by (simp add: nth_append)
    qed
  qed
qed

lemma size_ranges_min:
  "size_ranges rt = (min_w, max_w, min_h, max_h) \<Longrightarrow> 3 \<le> min_w \<and> 3 \<le> min_h"
  by (cases rt) auto

lemma get_room_size_min:
  assumes "get_room_size rt rng pos = Inr ((w, h), pos1)"
  shows "3 \<le> w \<and> 3 \<le> h"
proof -
  obtain min_w max_w min_h max_h where sr: "size_ranges rt = (min_w, max_w, min_h, max_h)"
    by (cases "size_ranges rt") auto
  from assms sr have "randint min_w max_w (rng pos) = Inr w"
    and "randint min_h max_h (rng (pos + 1)) = Inr h"
    by (auto simp: get_room_size_def split: sum.splits)
  with randint_range size_ranges_min [OF sr] show ?thesis
    by fastforce
qed

subsection \<open>Placing rooms\<close>

lemma choice_all_room_types: "\<exists>rt. choice all_room_types raw = Inr rt"
  by (simp add: choice_def all_room_types_def)

lemma choice_pool_room_types: "\<exists>rt. choice pool_room_types raw = Inr rt"
  by (simp add: choice_def pool_room_types_def)

lemma set_carve_cells:
  "set [(x, y). y \<leftarrow> py_range (room_y r) (room_y r + room_height r),
                x \<leftarrow> py_range (room_x r) (room_x r + room_width r),
                0 \<le> x \<and> x < W \<and> 0 \<le> y \<and> y < H] =
   room_rect r \<inter> {c. inb W H c}"
  by (auto simp: set_py_range room_rect_def room_contains_def inb_def)

lemma carve_room_ok:
  assumes "dims (gen_grid s) (gen_width s) (gen_height s)"
  shows "\<exists>s'. carve_room s r = Inr s' \<and> gen_width s' = gen_width s \<and>
           gen_height s' = gen_height s \<and> gen_rooms s' = gen_rooms s \<and>
           dims (gen_grid s') (gen_width s) (gen_height s) \<and>
           (\<forall>c. inb (gen_width s) (gen_height s) c \<longrightarrow>
              tile_of (gen_grid s') c =
                (if c \<in> room_rect r then FLOOR else tile_of (gen_grid s) c))"
proof -
  let ?cs = "[(x, y). y \<leftarrow> py_range (room_y r) (room_y r + room_height r),
                x \<leftarrow> py_range (room_x r) (room_x r + room_width r),
                0 \<le> x \<and> x < gen_width s \<and> 0 \<le> y \<and> y < gen_height s]"
  have sc: "set ?cs = room_rect r \<inter> {c. inb (gen_width s) (gen_height s) c}"
    by (rule set_carve_cells)
  then have "\<forall>c\<in>set ?cs. inb (gen_width s) (gen_height s) c" by blast
  from paint_grid_inb [OF assms this, of FLOOR] obtain s' where
    p: "paint_grid s ?cs FLOOR = Inr s'" and k: "gen_width s' = gen_width s"
      "gen_height s' = gen_height s" "gen_rooms s' = gen_rooms s"
      "dims (gen_grid s') (gen_width s) (gen_height s)"
    and t: "\<forall>c. inb (gen_width s) (gen_height s) c \<longrightarrow>
              tile_of (gen_grid s') c = (if c \<in> set ?cs then FLOOR else tile_of (gen_grid s) c)"
    by blast
  have "\<forall>c. inb (gen_width s) (gen_height s) c \<longrightarrow>
              tile_of (gen_grid s') c =
                (if c \<in> room_rect r then FLOOR else tile_of (gen_grid s) c)"
    using t unfolding sc by auto
  with p k show ?thesis
    by (simp add: carve_room_def)
qed

lemma try_place_cases:
  assumes "try_place s rt p rng pos = Inr (s', pos')"
  shows "\<exists>w h pos1 x y r.
           r = \<lparr>room_x = x, room_y = y, room_width = w, room_height = h, room_type = rt,
                is_lit = (random_unit (rng (pos1 + 2)) < p), connections = []\<rparr> \<and>
           get_room_size rt rng pos = Inr ((w, h), pos1) \<and>
           randint 1 (gen_width s - w - 1) (rng pos1) = Inr x \<and>
           randint 1 (gen_height s - h - 1) (rng (pos1 + 1)) = Inr y \<and>
           room_x r = x \<and> room_y r = y \<and> room_width r = w \<and> room_height r = h \<and>
           pos' = pos1 + 3 \<and>
           ((list_ex (overlaps r) (gen_rooms s) \<and> s' = s) \<or>
            (\<not> list_ex (overlaps r) (gen_rooms s) \<and>
             carve_room (s\<lparr>gen_rooms := gen_rooms s @ [r]\<rparr>) r = Inr s'))"
  using assms
  by (auto simp: try_place_def Let_def split: sum.splits prod.splits if_splits)

lemma try_place_placed:
  assumes "try_place s rt p rng pos = Inr (s', pos')" and "placed s"
  shows "placed s' \<and> gen_width s' = gen_width s \<and> gen_height s' = gen_height s \<and>
         (gen_rooms s' = gen_rooms s \<or> (\<exists>room. gen_rooms s' = gen_rooms s @ [room]))"
proof -
  from try_place_cases [OF assms(1)] obtain w h pos1 x y r where
    sz: "get_room_size rt rng pos = Inr ((w, h), pos1)"
    and rx: "randint 1 (gen_width s - w - 1) (rng pos1) = Inr x"
    and ry: "randint 1 (gen_height s - h - 1) (rng (pos1 + 1)) = Inr y"
    and r: "room_x r = x" "room_y r = y" "room_width r = w" "room_height r = h"
    and alt: "(list_ex (overlaps r) (gen_rooms s) \<and> s' = s) \<or>
            (\<not> list_ex (overlaps r) (gen_rooms s) \<and>
             carve_room (s\<lparr>gen_rooms := gen_rooms s @ [r]\<rparr>) r = Inr s')"
    by blast
  from alt show ?thesis
  proof
    assume "list_ex (overlaps r) (gen_rooms s) \<and> s' = s"
    with assms(2) show ?thesis by simp
  next
    assume a: "\<not> list_ex (overlaps r) (gen_rooms s) \<and>
             carve_room (s\<lparr>gen_rooms := gen_rooms s @ [r]\<rparr>) r = Inr s'"
    let ?s1 = "s\<lparr>gen_rooms := gen_rooms s @ [r]\<rparr>"
    have d: "dims (gen_grid ?s1) (gen_width ?s1) (gen_height ?s1)"
      using assms(2) by (simp add: placed_def)
    from carve_room_ok [OF d, of r] a have
      k: "gen_width s' = gen_width s" "gen_height s' = gen_height s"
         "gen_rooms s' = gen_rooms s @ [r]"
         "dims (gen_grid s') (gen_width s) (gen_height s)"
      and t: "\<forall>c. inb (gen_width s) (gen_height s) c \<longrightarrow>
              tile_of (gen_grid s') c =
                (if c \<in> room_rect r then FLOOR else tile_of (gen_grid s) c)"
      by auto
    have rok: "room_ok (gen_width s) (gen_height s) r"
      using randint_range [OF rx] randint_range [OF ry] get_room_size_min [OF sz] r
      by (simp add: room_ok_def)
    have oks: "\<forall>room\<in>set (gen_rooms s'). room_ok (gen_width s) (gen_height s) room"
      using assms(2) rok k by (auto simp: placed_def)
    have no: "no_overlap (gen_rooms s')"
      using no_overlap_snoc [of "gen_rooms s" r] assms(2) a k by (simp add: placed_def)
    have fl: "\<forall>room\<in>set (gen_rooms s'). \<forall>c\<in>room_rect room. tile_of (gen_grid s') c = FLOOR"
    proof (intro ballI)
      fix room c assume rm: "room \<in> set (gen_rooms s')" and c: "c \<in> room_rect room"
      from oks rm have "room_ok (gen_width s) (gen_height s) room" by blast
      from room_rect_inb [OF this c] have ib: "inb (gen_width s) (gen_height s) c" .
      show "tile_of (gen_grid s') c = FLOOR"
      proof (cases "c \<in> room_rect r")
        case True
        from t ib have "tile_of (gen_grid s') c =
                (if c \<in> room_rect r then FLOOR else tile_of (gen_grid s) c)"
          by blast
        with True show ?thesis by simp
      next
        case False
        with rm c k have "room \<in> set (gen_rooms s)" by auto
        with assms(2) c have f: "tile_of (gen_grid s) c = FLOOR" by (auto simp: placed_def)
        from t ib have "tile_of (gen_grid s') c =
                (if c \<in> room_rect r then FLOOR else tile_of (gen_grid s) c)"
          by blast
        with False f show ?thesis by simp
      qed
    qed
    from k oks no fl show ?thesis
      by (simp add: placed_def)
  qed
qed

lemma try_place_length:
  "try_place s rt p rng pos = Inr (s', pos') \<Longrightarrow>
     length (gen_rooms s') \<le> length (gen_rooms s) + 1"
proof -
  assume a: "try_place s rt p rng pos = Inr (s', pos')"
  from try_place_cases [OF a] obtain r where
    alt: "(list_ex (overlaps r) (gen_rooms s) \<and> s' = s) \<or>
            (\<not> list_ex (overlaps r) (gen_rooms s) \<and>
             carve_room (s\<lparr>gen_rooms := gen_rooms s @ [r]\<rparr>) r = Inr s')"
    by blast
  then show ?thesis
  proof
    assume "list_ex (overlaps r) (gen_rooms s) \<and> s' = s"
    then show ?thesis by simp
  next
    assume "\<not> list_ex (overlaps r) (gen_rooms s) \<and>
             carve_room (s\<lparr>gen_rooms := gen_rooms s @ [r]\<rparr>) r = Inr s'"
    then have "gen_rooms s' = gen_rooms s @ [r]"
      by (auto simp: carve_room_def paint_grid_def split: sum.splits)
    then show ?thesis by simp
  qed
qed

lemma try_place_dims:
  assumes "try_place s rt p rng pos = Inr (s', pos')"
  shows "0 \<le> gen_width s \<and> 0 \<le> gen_height s"
proof -
  from try_place_cases [OF assms] obtain w h pos1 x y where
    sz: "get_room_size rt rng pos = Inr ((w, h), pos1)"
    and rx: "randint 1 (gen_width s - w - 1) (rng pos1) = Inr x"
    and ry: "randint 1 (gen_height s - h - 1) (rng (pos1 + 1)) = Inr y"
    by blast
  from randint_range [OF rx] randint_range [OF ry] get_room_size_min [OF sz]
  show ?thesis by simp
qed

lemma placed_init: "0 \<le> W \<Longrightarrow> 0 \<le> H \<Longrightarrow> placed (Generator_init W H)"
  by (simp add: placed_def Generator_init_def dims_def no_overlap_def list_all_length)

lemma generate_rooms_placed:
  assumes "generate_rooms s attempts rng pos = Some y"
  shows "rooms_post s attempts y"
proof (rule generate_rooms.raw_induct
    [where P = "\<lambda>s attempts rng pos y. rooms_post s attempts y", OF _ assms])
  fix f :: "Generator \<Rightarrow> int \<Rightarrow> rng \<Rightarrow> nat \<Rightarrow> (py_error + (Generator \<times> int \<times> nat)) option"
  fix s attempts rng pos y
  assume IH: "\<And>s attempts rng pos y. f s attempts rng pos = Some y \<Longrightarrow> rooms_post s attempts y"
  assume body: "(if int (length (gen_rooms s)) < 20 \<and> attempts < 150
      then case choice all_room_types (rng pos) of Inl e \<Rightarrow> Some (Inl e)
           | Inr rt \<Rightarrow>
               if rt \<in> set pool_room_types
               then f s attempts rng (pos + 1)
               else case try_place s rt (3 / 10) rng (pos + 1) of
                    Inl e \<Rightarrow> Some (Inl e)
                    | Inr (s', pos') \<Rightarrow> f s' (attempts + 1) rng pos'
      else Some (Inr (s, attempts, pos))) = Some y"
  show "rooms_post s attempts y"
  proof (cases "int (length (gen_rooms s)) < 20 \<and> attempts < 150")
    case False
    from body have "Some (Inr (s, attempts, pos)) = Some y"
      unfolding if_not_P [OF False] .
    then have "y = Inr (s, attempts, pos)" by simp
    with False show ?thesis unfolding rooms_post_def by auto
  next
    case True
    from choice_all_room_types obtain rt where rt: "choice all_room_types (rng pos) = Inr rt"
      by blast
    from body have body1: "(case choice all_room_types (rng pos) of Inl e \<Rightarrow> Some (Inl e)
           | Inr rt \<Rightarrow>
               if rt \<in> set pool_room_types
               then f s attempts rng (pos + 1)
               else case try_place s rt (3 / 10) rng (pos + 1) of
                    Inl e \<Rightarrow> Some (Inl e)
                    | Inr (s', pos') \<Rightarrow> f s' (attempts + 1) rng pos') = Some y"
      unfolding if_P [OF True] .
    show ?thesis
    proof (cases "rt \<in> set pool_room_types")
      case pool: True
      with body1 rt have "f s attempts rng (pos + 1) = Some y" by simp
      from IH [OF this] show ?thesis .
    next
      case False
      with body1 rt have body2:
        "(case try_place s rt (3 / 10) rng (pos + 1) of
            Inl e \<Rightarrow> Some (Inl e)
          | Inr (s', pos') \<Rightarrow> f s' (attempts + 1) rng pos') = Some y"
        by simp
      show ?thesis
      proof (cases "try_place s rt (3 / 10) rng (pos + 1)")
        case (Inl e)
        with body2 have "y = Inl e" by simp
        then show ?thesis by (simp add: rooms_post_def)
      next
        case (Inr sp)
        obtain s1 pos1 where sp: "sp = (s1, pos1)" by (cases sp)
        from Inr sp have tp: "try_place s rt (3 / 10) rng (pos + 1) = Inr (s1, pos1)" by simp
        with body2 have rec: "f s1 (attempts + 1) rng pos1 = Some y" by simp
        show ?thesis
          unfolding rooms_post_def
        proof (intro allI impI)
          fix s' attempts' pos'
          assume y: "y = Inr (s', attempts', pos')"
            and p0: "0 \<le> gen_width s \<and> 0 \<le> gen_height s \<longrightarrow> placed s"
            and pn: "\<not> (int (length (gen_rooms s)) < 20 \<and> attempts < 150) \<longrightarrow> placed s"
            and a: "attempts \<le> 150" and l: "int (length (gen_rooms s)) \<le> 20"
          from p0 try_place_dims [OF tp] have p: "placed s" by simp
          from try_place_placed [OF tp p] have p1: "placed s1"
            and k: "gen_width s1 = gen_width s" "gen_height s1 = gen_height s"
            by simp_all
          from try_place_length [OF tp] True have l1: "int (length (gen_rooms s1)) \<le> 20"
            by simp
          have a1: "attempts + 1 \<le> 150" using True by simp
          from IH [OF rec] y p1 l1 a1
          have "placed s' \<and> gen_width s' = gen_width s1 \<and> gen_height s' = gen_height s1 \<and>
             attempts + 1 \<le> attempts' \<and> attempts' \<le> 150 \<and>
             int (length (gen_rooms s')) \<le> 20 \<and>
             (attempts' = 150 \<or> int (length (gen_rooms s')) = 20)"
            unfolding rooms_post_def by blast
          with k show "placed s' \<and> gen_width s' = gen_width s \<and> gen_height s' = gen_height s \<and>
             attempts \<le> attempts' \<and> attempts' \<le> 150 \<and> int (length (gen_rooms s')) \<le> 20 \<and>
             (attempts' = 150 \<or> int (length (gen_rooms s')) = 20)"
            by simp
        qed
      qed
    qed
  qed
qed

lemma generate_pool_rooms_placed:
  "generate_pool_rooms s attempts rng pos = Inr (s', attempts', pos') \<Longrightarrow>
     (0 \<le> gen_width s \<and> 0 \<le> gen_height s \<longrightarrow> placed s) \<Longrightarrow>
     (\<not> (int (length (gen_rooms s)) < 15 \<and> attempts < 150) \<longrightarrow> placed s) \<Longrightarrow>
     attempts \<le> 150 \<Longrightarrow> int (length (gen_rooms s)) \<le> 15 \<Longrightarrow>
     placed s' \<and> gen_width s' = gen_width s \<and> gen_height s' = gen_height s \<and>
     attempts \<le> attempts' \<and> attempts' \<le> 150 \<and> int (length (gen_rooms s')) \<le> 15 \<and>
     (attempts' = 150 \<or> int (length (gen_rooms s')) = 15)"
proof (induction s attempts rng pos rule: generate_pool_rooms.induct)
  case (1 s attempts rng pos)
  show ?case
  proof (cases "int (length (gen_rooms s)) < 15 \<and> attempts < 150")
    case False
    with "1.prems" show ?thesis
      by (subst (asm) generate_pool_rooms.simps) auto
  next
    case True
    from choice_pool_room_types obtain rt where rt: "choice pool_room_types (rng pos) = Inr rt"
      by blast
    from "1.prems"(1) True rt obtain s1 pos1 where
      tp: "try_place s rt (7 / 10) rng (pos + 1) = Inr (s1, pos1)"
      and rec: "generate_pool_rooms s1 (attempts + 1) rng pos1 = Inr (s', attempts', pos')"
      by (subst (asm) generate_pool_rooms.simps) (auto split: sum.splits)
    from "1.prems"(2) try_place_dims [OF tp] have p: "placed s" by simp
    from try_place_placed [OF tp p] have p1: "placed s1"
      and k: "gen_width s1 = gen_width s" "gen_height s1 = gen_height s"
      by simp_all
    from try_place_length [OF tp] True have l1: "int (length (gen_rooms s1)) \<le> 15"
      by simp
    have a1: "attempts + 1 \<le> 150" using True by simp
    from "1.IH" [OF True rt _ _ rec _ _ a1 l1] p1 tp k
    show ?thesis by simp
  qed
qed

lemma place_rooms_placed:
  assumes "place_rooms W H level_type rng pos = Some (Inr (s, attempts, pos'))"
  shows "placed s \<and> gen_width s = W \<and> gen_height s = H \<and>
         0 \<le> attempts \<and> attempts \<le> 150 \<and>
         int (length (gen_rooms s)) \<le> (if level_type = POOLROOMS then 15 else 20) \<and>
         (attempts = 150 \<or>
          int (length (gen_rooms s)) = (if level_type = POOLROOMS then 15 else 20))"
proof (cases "level_type = POOLROOMS")
  case True
  with assms(1) have
    "generate_pool_rooms (Generator_init W H) 0 rng pos = Inr (s, attempts, pos')"
    by (simp add: place_rooms_def)
  from generate_pool_rooms_placed [OF this] placed_init [of W H] True
  show ?thesis by (simp add: Generator_init_def)
next
  case False
  with assms(1) have
    "generate_rooms (Generator_init W H) 0 rng pos = Some (Inr (s, attempts, pos'))"
    by (simp add: place_rooms_def)
  from generate_rooms_placed [OF this] placed_init [of W H] False
  show ?thesis unfolding rooms_post_def by (simp add: Generator_init_def)
qed

subsection \<open>Termination of the placement loops\<close>






subsection \<open>Later passes keep the floor outside room interiors\<close>

lemma same_level_refl: "level_ok s \<Longrightarrow> same_level rs s s"
  by (simp add: same_level_def keeps_floor_def level_ok_def)

lemma same_level_trans:
  "same_level rs s s1 \<Longrightarrow> same_level rs s1 s2 \<Longrightarrow> same_level rs s s2"
  unfolding same_level_def keeps_floor_def by (simp, blast)

lemma same_level_ok: "level_ok s \<Longrightarrow> same_level rs s s' \<Longrightarrow> level_ok s'"
  by (simp add: same_level_def keeps_floor_def level_ok_def)

lemma placed_level_ok: "placed s \<Longrightarrow> level_ok s"
  by (simp add: placed_def level_ok_def)

text \<open>Painting floor, or painting anything inside room interiors, keeps the level.\<close>

lemma paint_grid_same_level:
  assumes "level_ok s"
    and "\<forall>c\<in>set cs. inb (gen_width s) (gen_height s) c"
    and "t = FLOOR \<or> (\<forall>c\<in>set cs. \<exists>room\<in>set rs. c \<in> room_interior room)"
  shows "\<exists>s'. paint_grid s cs t = Inr s' \<and> same_level rs s s' \<and>
           (\<forall>c. inb (gen_width s) (gen_height s) c \<longrightarrow>
              tile_of (gen_grid s') c = (if c \<in> set cs then t else tile_of (gen_grid s) c))"
proof -
  have d: "dims (gen_grid s) (gen_width s) (gen_height s)"
    using assms(1) by (simp add: level_ok_def)
  from paint_grid_inb [OF d assms(2), of t] obtain s' where
    p: "paint_grid s cs t = Inr s'" and k: "gen_width s' = gen_width s"
      "gen_height s' = gen_height s" "gen_rooms s' = gen_rooms s"
      "dims (gen_grid s') (gen_width s) (gen_height s)"
    and t: "\<forall>c. inb (gen_width s) (gen_height s) c \<longrightarrow>
              tile_of (gen_grid s') c = (if c \<in> set cs then t else tile_of (gen_grid s) c)"
    by blast
  have "same_level rs s s'"
    unfolding same_level_def keeps_floor_def
    using k t assms(3) by auto
  with p t show ?thesis by blast
qed

lemma center_interior:
  "room_ok W H r \<Longrightarrow> center r \<in> room_interior r"
  unfolding room_ok_def center_def room_interior_def by (simp, presburger)

lemma interior_rect: "room_interior r \<subseteq> room_rect r"
  by (auto simp: room_interior_def room_rect_def room_contains_def)

subsection \<open>Floor connectivity\<close>

lemma adjacent_sym: "adjacent c d = adjacent d c"
  by (auto simp: adjacent_def)

lemma floor_step_sym: "sym (floor_step s)"
  unfolding sym_def floor_step_def using adjacent_sym by auto

lemma floor_connected_sym: "floor_connected s c d \<Longrightarrow> floor_connected s d c"
  unfolding floor_connected_def
  using sym_rtrancl [OF floor_step_sym, of s] by (auto dest: symD)

lemma floor_connected_trans:
  "floor_connected s c d \<Longrightarrow> floor_connected s d e \<Longrightarrow> floor_connected s c e"
  unfolding floor_connected_def by auto

lemma floor_connected_refl:
  "inb (gen_width s) (gen_height s) c \<Longrightarrow> tile_of (gen_grid s) c = FLOOR \<Longrightarrow>
     floor_connected s c c"
  by (simp add: floor_connected_def)

lemma floor_connected_step:
  "inb (gen_width s) (gen_height s) c \<Longrightarrow> tile_of (gen_grid s) c = FLOOR \<Longrightarrow>
   inb (gen_width s) (gen_height s) d \<Longrightarrow> tile_of (gen_grid s) d = FLOOR \<Longrightarrow>
   adjacent c d \<Longrightarrow> floor_connected s c d"
  by (auto simp: floor_connected_def floor_step_def)

text \<open>Straight lines of floor tiles.\<close>

lemma floor_hline:
  assumes "\<forall>x. a \<le> x \<and> x \<le> b \<longrightarrow>
             inb (gen_width s) (gen_height s) (x, y) \<and> tile_of (gen_grid s) (x, y) = FLOOR"
    and "a \<le> b"
  shows "floor_connected s (a, y) (b, y)"
  using assms
proof (induction "nat (b - a)" arbitrary: b)
  case 0
  then have "b = a" by simp
  with "0.prems" show ?case by (simp add: floor_connected_refl)
next
  case (Suc n)
  then have ab: "a \<le> b - 1" and n: "n = nat (b - 1 - a)" by simp_all
  have "floor_connected s (a, y) (b - 1, y)"
    using Suc.hyps(1) [OF n _ ab] Suc.prems(1) by simp
  moreover have "floor_connected s (b - 1, y) (b, y)"
    using Suc.prems ab by (intro floor_connected_step) (simp_all add: adjacent_def)
  ultimately show ?case by (rule floor_connected_trans)
qed

lemma floor_vline:
  assumes "\<forall>y. a \<le> y \<and> y \<le> b \<longrightarrow>
             inb (gen_width s) (gen_height s) (x, y) \<and> tile_of (gen_grid s) (x, y) = FLOOR"
    and "a \<le> b"
  shows "floor_connected s (x, a) (x, b)"
  using assms
proof (induction "nat (b - a)" arbitrary: b)
  case 0
  then have "b = a" by simp
  with "0.prems" show ?case by (simp add: floor_connected_refl)
next
  case (Suc n)
  then have ab: "a \<le> b - 1" and n: "n = nat (b - 1 - a)" by simp_all
  have "floor_connected s (x, a) (x, b - 1)"
    using Suc.hyps(1) [OF n _ ab] Suc.prems(1) by simp
  moreover have "floor_connected s (x, b - 1) (x, b)"
    using Suc.prems ab by (intro floor_connected_step) (simp_all add: adjacent_def)
  ultimately show ?case by (rule floor_connected_trans)
qed

lemma perimeter_iff:
  "(x, y) \<in> room_perimeter r \<longleftrightarrow>
     room_x r \<le> x \<and> x < room_x r + room_width r \<and>
     room_y r \<le> y \<and> y < room_y r + room_height r \<and>
     (x = room_x r \<or> x = room_x r + room_width r - 1 \<or>
      y = room_y r \<or> y = room_y r + room_height r - 1)"
  by (auto simp: room_perimeter_def room_rect_def room_interior_def room_contains_def)

lemma perimeter_floor:
  assumes "final_ok s" and "r \<in> set (gen_rooms s)" and "c \<in> room_perimeter r"
  shows "inb (gen_width s) (gen_height s) c \<and> tile_of (gen_grid s) c = FLOOR"
proof -
  have "room_ok (gen_width s) (gen_height s) r"
    using assms(1,2) by (simp add: final_ok_def level_ok_def)
  moreover have "c \<in> room_rect r"
    using assms(3) by (simp add: room_perimeter_def)
  ultimately have "inb (gen_width s) (gen_height s) c"
    by (rule room_rect_inb)
  with assms show ?thesis by (simp add: final_ok_def)
qed

lemma corner_to_perimeter:
  assumes f: "final_ok s" and r: "r \<in> set (gen_rooms s)" and p: "(x, y) \<in> room_perimeter r"
  shows "floor_connected s (room_x r, room_y r) (x, y)"
proof -
  have ok: "room_ok (gen_width s) (gen_height s) r"
    using f r by (simp add: final_ok_def level_ok_def)
  then have w: "3 \<le> room_width r" and h: "3 \<le> room_height r"
    by (simp_all add: room_ok_def)
  note F = perimeter_floor [OF f r]
  from p have b: "room_x r \<le> x" "x \<le> room_x r + room_width r - 1"
    "room_y r \<le> y" "y \<le> room_y r + room_height r - 1"
    and side: "x = room_x r \<or> x = room_x r + room_width r - 1 \<or>
      y = room_y r \<or> y = room_y r + room_height r - 1"
    by (simp_all add: perimeter_iff)
  have top: "floor_connected s (room_x r, room_y r) (x', room_y r)"
    if "room_x r \<le> x'" "x' \<le> room_x r + room_width r - 1" for x'
  proof (rule floor_hline)
    show "\<forall>xa. room_x r \<le> xa \<and> xa \<le> x' \<longrightarrow>
             inb (gen_width s) (gen_height s) (xa, room_y r) \<and>
             tile_of (gen_grid s) (xa, room_y r) = FLOOR"
      using that h by (intro allI impI F) (simp add: perimeter_iff)
    show "room_x r \<le> x'" by fact
  qed
  have left: "floor_connected s (room_x r, room_y r) (room_x r, y')"
    if "room_y r \<le> y'" "y' \<le> room_y r + room_height r - 1" for y'
  proof (rule floor_vline)
    show "\<forall>ya. room_y r \<le> ya \<and> ya \<le> y' \<longrightarrow>
             inb (gen_width s) (gen_height s) (room_x r, ya) \<and>
             tile_of (gen_grid s) (room_x r, ya) = FLOOR"
      using that w by (intro allI impI F) (simp add: perimeter_iff)
    show "room_y r \<le> y'" by fact
  qed
  have bottom: "floor_connected s (room_x r, room_y r + room_height r - 1)
                  (x', room_y r + room_height r - 1)"
    if "room_x r \<le> x'" "x' \<le> room_x r + room_width r - 1" for x'
  proof (rule floor_hline)
    show "\<forall>xa. room_x r \<le> xa \<and> xa \<le> x' \<longrightarrow>
             inb (gen_width s) (gen_height s) (xa, room_y r + room_height r - 1) \<and>
             tile_of (gen_grid s) (xa, room_y r + room_height r - 1) = FLOOR"
      using that h by (intro allI impI F) (simp add: perimeter_iff)
    show "room_x r \<le> x'" by fact
  qed
  have right: "floor_connected s (room_x r + room_width r - 1, room_y r)
                  (room_x r + room_width r - 1, y')"
    if "room_y r \<le> y'" "y' \<le> room_y r + room_height r - 1" for y'
  proof (rule floor_vline)
    show "\<forall>ya. room_y r \<le> ya \<and> ya \<le> y' \<longrightarrow>
             inb (gen_width s) (gen_height s) (room_x r + room_width r - 1, ya) \<and>
             tile_of (gen_grid s) (room_x r + room_width r - 1, ya) = FLOOR"
      using that w by (intro allI impI F) (simp add: perimeter_iff)
    show "room_y r \<le> y'" by fact
  qed
  from side show ?thesis
  proof (elim disjE)
    assume "x = room_x r"
    with left [OF b(3,4)] show ?thesis by simp
  next
    assume x: "x = room_x r + room_width r - 1"
    have "floor_connected s (room_x r, room_y r) (room_x r + room_width r - 1, room_y r)"
      using top [of "room_x r + room_width r - 1"] w by simp
    from floor_connected_trans [OF this right [OF b(3,4)]] x show ?thesis by simp
  next
    assume "y = room_y r"
    with top [OF b(1,2)] show ?thesis by simp
  next
    assume y: "y = room_y r + room_height r - 1"
    have "floor_connected s (room_x r, room_y r) (room_x r, room_y r + room_height r - 1)"
      using left [of "room_y r + room_height r - 1"] h by simp
    from floor_connected_trans [OF this bottom [OF b(1,2)]] y show ?thesis by simp
  qed
qed

lemma perimeter_connected:
  assumes "final_ok s" and "r \<in> set (gen_rooms s)"
    and "p \<in> room_perimeter r" and "q \<in> room_perimeter r"
  shows "floor_connected s p q"
proof -
  have "floor_connected s (room_x r, room_y r) p"
    using corner_to_perimeter [OF assms(1,2), of "fst p" "snd p"] assms(3) by simp
  moreover have "floor_connected s (room_x r, room_y r) q"
    using corner_to_perimeter [OF assms(1,2), of "fst q" "snd q"] assms(4) by simp
  ultimately show ?thesis
    using floor_connected_sym floor_connected_trans by blast
qed

lemma corner_perimeter:
  "1 \<le> room_width r \<Longrightarrow> 1 \<le> room_height r \<Longrightarrow> (room_x r, room_y r) \<in> room_perimeter r"
  by (simp add: perimeter_iff)

lemma rooms_unique:
  assumes "no_overlap rs" and "r \<in> set rs" and "r' \<in> set rs"
    and "c \<in> room_rect r" and "c \<in> room_rect r'"
  shows "r = r'"
proof -
  from assms(2,3) obtain i j where i: "i < length rs" "rs ! i = r"
    and j: "j < length rs" "rs ! j = r'"
    by (auto simp: in_set_conv_nth)
  show ?thesis
  proof (cases "i = j")
    case True
    with i j show ?thesis by simp
  next
    case False
    with assms(1) i j have "\<not> overlaps r r'"
      by (auto simp: no_overlap_def)
    from overlaps_disjoint [OF this] assms(4,5) show ?thesis by blast
  qed
qed

lemma interior_neighbour:
  "d \<in> room_interior r \<Longrightarrow> adjacent c d \<Longrightarrow> c \<in> room_rect r"
  unfolding room_interior_def adjacent_def room_rect_def room_contains_def
  by (cases c, cases d) (simp, linarith)

lemma anchors_outside:
  "\<forall>room\<in>set rs. c \<notin> room_interior room \<Longrightarrow> anchors rs c = {c}"
  by (auto simp: anchors_def)

lemma anchors_inside:
  assumes "no_overlap rs" and "r \<in> set rs" and "c \<in> room_interior r"
  shows "anchors rs c = room_perimeter r"
proof -
  have "r' = r" if "r' \<in> set rs" "c \<in> room_interior r'" for r'
    using rooms_unique [OF assms(1) that(1) assms(2)] that(2) assms(3) interior_rect by blast
  then have u: "\<And>r'. r' \<in> set rs \<Longrightarrow> c \<in> room_interior r' \<Longrightarrow> r' = r" .
  show ?thesis
    unfolding anchors_def using assms(2,3) u by blast
qed

lemma linked_sym: "linked s c d \<Longrightarrow> linked s d c"
  unfolding linked_def using floor_connected_sym by blast

lemma anchors_nonempty:
  assumes "final_ok s"
  shows "anchors (gen_rooms s) c \<noteq> {}"
proof (cases "\<forall>room\<in>set (gen_rooms s). c \<notin> room_interior room")
  case True
  then show ?thesis by (simp add: anchors_outside)
next
  case False
  then obtain r where r: "r \<in> set (gen_rooms s)" "c \<in> room_interior r" by blast
  have "room_ok (gen_width s) (gen_height s) r"
    using assms r by (simp add: final_ok_def level_ok_def)
  then have "(room_x r, room_y r) \<in> room_perimeter r"
    by (intro corner_perimeter) (simp_all add: room_ok_def)
  moreover have "anchors (gen_rooms s) c = room_perimeter r"
    using anchors_inside [OF _ r] assms by (simp add: final_ok_def)
  ultimately show ?thesis by blast
qed

lemma linked_trans:
  assumes "final_ok s" and "linked s c d" and "linked s d e"
  shows "linked s c e"
proof -
  from anchors_nonempty [OF assms(1)] obtain m where m: "m \<in> anchors (gen_rooms s) d"
    by blast
  show ?thesis
    unfolding linked_def
  proof (intro ballI)
    fix p q assume "p \<in> anchors (gen_rooms s) c" "q \<in> anchors (gen_rooms s) e"
    with assms(2,3) m have "floor_connected s p m" "floor_connected s m q"
      by (simp_all add: linked_def)
    then show "floor_connected s p q" by (rule floor_connected_trans)
  qed
qed

lemma linked_refl:
  assumes f: "final_ok s" and c: "ok_cell s c"
  shows "linked s c c"
proof (cases "\<forall>room\<in>set (gen_rooms s). c \<notin> room_interior room")
  case True
  with c have "inb (gen_width s) (gen_height s) c" "tile_of (gen_grid s) c = FLOOR"
    by (auto simp: ok_cell_def)
  then have "floor_connected s c c" by (rule floor_connected_refl)
  with True show ?thesis by (simp add: linked_def anchors_outside)
next
  case False
  then obtain r where r: "r \<in> set (gen_rooms s)" "c \<in> room_interior r" by blast
  have a: "anchors (gen_rooms s) c = room_perimeter r"
    using anchors_inside [OF _ r] f by (simp add: final_ok_def)
  show ?thesis
    unfolding linked_def a using perimeter_connected [OF f r(1)] by blast
qed

lemma linked_adjacent:
  assumes f: "final_ok s" and c: "ok_cell s c" and d: "ok_cell s d" and adj: "adjacent c d"
  shows "linked s c d"
proof -
  have no: "no_overlap (gen_rooms s)" using f by (simp add: final_ok_def)
  have half: "linked s c d"
    if c: "ok_cell s c" and adj: "adjacent c d"
      and r: "r \<in> set (gen_rooms s)" "d \<in> room_interior r" for c d r
  proof -
    have ad: "anchors (gen_rooms s) d = room_perimeter r"
      using anchors_inside [OF no r] .
    have cr: "c \<in> room_rect r" using interior_neighbour [OF r(2) adj] .
    show ?thesis
    proof (cases "\<forall>room\<in>set (gen_rooms s). c \<notin> room_interior room")
      case True
      with r(1) cr have "c \<in> room_perimeter r"
        by (auto simp: room_perimeter_def)
      with perimeter_connected [OF f r(1)] True ad show ?thesis
        by (simp add: linked_def anchors_outside)
    next
      case False
      then obtain r' where r': "r' \<in> set (gen_rooms s)" "c \<in> room_interior r'" by blast
      with interior_rect have "c \<in> room_rect r'" by blast
      from rooms_unique [OF no r'(1) r(1) this cr] have "r' = r" .
      with anchors_inside [OF no r'] have "anchors (gen_rooms s) c = room_perimeter r" by simp
      with perimeter_connected [OF f r(1)] ad show ?thesis
        by (simp add: linked_def)
    qed
  qed
  show ?thesis
  proof (cases "\<forall>room\<in>set (gen_rooms s). d \<notin> room_interior room")
    case False
    then obtain r where "r \<in> set (gen_rooms s)" "d \<in> room_interior r" by blast
    from half [OF c adj this] show ?thesis .
  next
    case dout: True
    show ?thesis
    proof (cases "\<forall>room\<in>set (gen_rooms s). c \<notin> room_interior room")
      case False
      then obtain r where "r \<in> set (gen_rooms s)" "c \<in> room_interior r" by blast
      from half [OF d _ this] adj adjacent_sym have "linked s d c" by blast
      then show ?thesis by (rule linked_sym)
    next
      case True
      with c d dout have "floor_connected s c d"
        using adj by (intro floor_connected_step) (auto simp: ok_cell_def)
      with True dout show ?thesis
        by (simp add: linked_def anchors_outside)
    qed
  qed
qed

lemma hline_linked:
  assumes f: "final_ok s"
    and "\<forall>x. a \<le> x \<and> x \<le> b \<longrightarrow> ok_cell s (x, y)" and "a \<le> b"
  shows "linked s (a, y) (b, y)"
  using assms(2,3)
proof (induction "nat (b - a)" arbitrary: b)
  case 0
  then have "b = a" by simp
  with "0.prems" show ?case by (simp add: linked_refl [OF f])
next
  case (Suc n)
  then have ab: "a \<le> b - 1" and n: "n = nat (b - 1 - a)" by simp_all
  have 1: "linked s (a, y) (b - 1, y)"
    using Suc.hyps(1) [OF n _ ab] Suc.prems(1) by simp
  have 2: "linked s (b - 1, y) (b, y)"
    using Suc.prems ab by (intro linked_adjacent [OF f]) (simp_all add: adjacent_def)
  from linked_trans [OF f 1 2] show ?case .
qed

lemma vline_linked:
  assumes f: "final_ok s"
    and "\<forall>y. a \<le> y \<and> y \<le> b \<longrightarrow> ok_cell s (x, y)" and "a \<le> b"
  shows "linked s (x, a) (x, b)"
  using assms(2,3)
proof (induction "nat (b - a)" arbitrary: b)
  case 0
  then have "b = a" by simp
  with "0.prems" show ?case by (simp add: linked_refl [OF f])
next
  case (Suc n)
  then have ab: "a \<le> b - 1" and n: "n = nat (b - 1 - a)" by simp_all
  have 1: "linked s (x, a) (x, b - 1)"
    using Suc.hyps(1) [OF n _ ab] Suc.prems(1) by simp
  have 2: "linked s (x, b - 1) (x, b)"
    using Suc.prems ab by (intro linked_adjacent [OF f]) (simp_all add: adjacent_def)
  from linked_trans [OF f 1 2] show ?case .
qed

lemma line_linked:
  assumes f: "final_ok s" and ok: "\<forall>e\<in>line_cells c d. ok_cell s e"
    and al: "fst c = fst d \<or> snd c = snd d"
  shows "linked s c d"
proof -
  obtain cx cy dx dy where c: "c = (cx, cy)" and d: "d = (dx, dy)"
    by (cases c, cases d) auto
  from al show ?thesis
  proof
    assume e: "fst c = fst d"
    have okv: "\<forall>y. min cy dy \<le> y \<and> y \<le> max cy dy \<longrightarrow> ok_cell s (cx, y)"
      using ok e c d by (auto simp: line_cells_def)
    show ?thesis
    proof (cases "cy \<le> dy")
      case True
      with okv have "linked s (cx, cy) (cx, dy)"
        by (intro vline_linked [OF f]) (auto simp: min_def max_def)
      with e c d show ?thesis by simp
    next
      case False
      with okv have "linked s (cx, dy) (cx, cy)"
        by (intro vline_linked [OF f]) (auto simp: min_def max_def)
      with e c d linked_sym show ?thesis by simp
    qed
  next
    assume e: "snd c = snd d"
    have okh: "\<forall>x. min cx dx \<le> x \<and> x \<le> max cx dx \<longrightarrow> ok_cell s (x, cy)"
      using ok e c d by (auto simp: line_cells_def)
    show ?thesis
    proof (cases "cx \<le> dx")
      case True
      with okh have "linked s (cx, cy) (dx, cy)"
        by (intro hline_linked [OF f]) (auto simp: min_def max_def)
      with e c d show ?thesis by simp
    next
      case False
      with okh have "linked s (dx, cy) (cx, cy)"
        by (intro hline_linked [OF f]) (auto simp: min_def max_def)
      with e c d linked_sym show ?thesis by simp
    qed
  qed
qed

subsection \<open>Corridors\<close>

lemma set_row_cells:
  "set [(x, y). x \<leftarrow> py_range a b, P x] = {e. snd e = y \<and> a \<le> fst e \<and> fst e < b \<and> P (fst e)}"
  by (auto simp: set_py_range)

lemma set_column_cells:
  "set [(x, y). y \<leftarrow> py_range a b, P y] = {e. fst e = x \<and> a \<le> snd e \<and> snd e < b \<and> P (snd e)}"
  by (auto simp: set_py_range)

lemma line_cells_row:
  assumes "inb W H (x1, y)" and "inb W H (x2, y)"
  shows "line_cells (x1, y) (x2, y) \<subseteq>
           {e. snd e = y \<and> min x1 x2 \<le> fst e \<and> fst e < max x1 x2 + 1 \<and>
               (0 \<le> fst e \<and> fst e < W \<and> 0 \<le> y \<and> y < H)}"
  using assms unfolding line_cells_def inb_def by (simp add: subset_iff) linarith

lemma line_cells_column:
  assumes "inb W H (x, y1)" and "inb W H (x, y2)"
  shows "line_cells (x, y1) (x, y2) \<subseteq>
           {e. fst e = x \<and> min y1 y2 \<le> snd e \<and> snd e < max y1 y2 + 1 \<and>
               (0 \<le> x \<and> x < W \<and> 0 \<le> snd e \<and> snd e < H)}"
  using assms unfolding line_cells_def inb_def by (simp add: subset_iff) linarith

lemma two_paints:
  assumes lo: "level_ok s"
    and a1: "\<forall>e\<in>set cs1. inb (gen_width s) (gen_height s) e"
    and a2: "\<forall>e\<in>set cs2. inb (gen_width s) (gen_height s) e"
  shows "\<exists>s1 s2. paint_grid s cs1 FLOOR = Inr s1 \<and> paint_grid s1 cs2 FLOOR = Inr s2 \<and>
           same_level rs s s2 \<and>
           (\<forall>e\<in>set cs1 \<union> set cs2. inb (gen_width s) (gen_height s) e \<and>
                                    tile_of (gen_grid s2) e = FLOOR)"
proof -
  from paint_grid_same_level [OF lo a1, of FLOOR rs]
  obtain s1 where s1: "paint_grid s cs1 FLOOR = Inr s1" "same_level rs s s1"
    and t1: "\<forall>c. inb (gen_width s) (gen_height s) c \<longrightarrow>
              tile_of (gen_grid s1) c = (if c \<in> set cs1 then FLOOR else tile_of (gen_grid s) c)"
    by auto
  have lo1: "level_ok s1" using same_level_ok [OF lo s1(2)] .
  have w1: "gen_width s1 = gen_width s" "gen_height s1 = gen_height s"
    using s1(2) by (simp_all add: same_level_def)
  from a2 have a2': "\<forall>e\<in>set cs2. inb (gen_width s1) (gen_height s1) e"
    by (simp add: w1)
  from paint_grid_same_level [OF lo1 a2', of FLOOR rs]
  obtain s2 where s2: "paint_grid s1 cs2 FLOOR = Inr s2" "same_level rs s1 s2"
    and t2: "\<forall>c. inb (gen_width s) (gen_height s) c \<longrightarrow>
              tile_of (gen_grid s2) c = (if c \<in> set cs2 then FLOOR else tile_of (gen_grid s1) c)"
    by (auto simp: w1)
  have "\<forall>e\<in>set cs1 \<union> set cs2. inb (gen_width s) (gen_height s) e \<and>
                                    tile_of (gen_grid s2) e = FLOOR"
  proof
    fix e assume e: "e \<in> set cs1 \<union> set cs2"
    with a1 a2 have ib: "inb (gen_width s) (gen_height s) e" by blast
    from t1 [rule_format, OF ib] t2 [rule_format, OF ib] e ib
    show "inb (gen_width s) (gen_height s) e \<and> tile_of (gen_grid s2) e = FLOOR"
      by (cases "e \<in> set cs2") simp_all
  qed
  with s1(1) s2(1) same_level_trans [OF s1(2) s2(2)] show ?thesis by blast
qed

lemma create_corridor_ok:
  assumes lo: "level_ok s"
    and c: "inb (gen_width s) (gen_height s) c" and d: "inb (gen_width s) (gen_height s) d"
  shows "\<exists>s' m. create_corridor s c d rng pos = Inr (s', pos + 1) \<and> same_level rs s s' \<and>
           (fst c = fst m \<or> snd c = snd m) \<and> (fst m = fst d \<or> snd m = snd d) \<and>
           (\<forall>e\<in>line_cells c m \<union> line_cells m d.
              inb (gen_width s) (gen_height s) e \<and> tile_of (gen_grid s') e = FLOOR)"
proof -
  obtain x1 y1 x2 y2 where cd: "c = (x1, y1)" "d = (x2, y2)"
    by (cases c, cases d) auto
  define W H where "W = gen_width s" and "H = gen_height s"
  obtain b where b: "choice [True, False] (rng pos) = Inr b"
    by (simp add: choice_def)
  have ib: "inb W H (x1, y1)" "inb W H (x2, y2)" "inb W H (x2, y1)" "inb W H (x1, y2)"
    using c d by (simp_all add: cd W_def H_def inb_def)
  show ?thesis
  proof (cases b)
    case True
    define cs1 where "cs1 = [(x, y1). x \<leftarrow> py_range (min x1 x2) (max x1 x2 + 1),
                                   0 \<le> x \<and> x < W \<and> 0 \<le> y1 \<and> y1 < H]"
    define cs2 where "cs2 = [(x2, y). y \<leftarrow> py_range (min y1 y2) (max y1 y2 + 1),
                                        0 \<le> x2 \<and> x2 < W \<and> 0 \<le> y \<and> y < H]"
    have i1: "\<forall>e\<in>set cs1. inb (gen_width s) (gen_height s) e"
      unfolding cs1_def set_row_cells by (simp add: inb_def W_def H_def)
    have i2: "\<forall>e\<in>set cs2. inb (gen_width s) (gen_height s) e"
      unfolding cs2_def set_column_cells by (simp add: inb_def W_def H_def)
    from two_paints [OF lo i1 i2, of rs]
    obtain s1 s2 where p: "paint_grid s cs1 FLOOR = Inr s1" "paint_grid s1 cs2 FLOOR = Inr s2"
      "same_level rs s s2"
      and fl: "\<forall>e\<in>set cs1 \<union> set cs2. inb (gen_width s) (gen_height s) e \<and>
                                    tile_of (gen_grid s2) e = FLOOR"
      by blast
    have run: "create_corridor s c d rng pos = Inr (s2, pos + 1)"
      unfolding create_corridor_def cd
      using b True p(1,2) by (simp add: cs1_def cs2_def W_def H_def)
    have l1: "line_cells c (x2, y1) \<subseteq> set cs1"
      unfolding cs1_def set_row_cells cd using line_cells_row [OF ib(1) ib(3)] .
    have l2: "line_cells (x2, y1) d \<subseteq> set cs2"
      unfolding cs2_def set_column_cells cd using line_cells_column [OF ib(3) ib(2)] .
    from l1 l2 fl have "\<forall>e\<in>line_cells c (x2, y1) \<union> line_cells (x2, y1) d.
              inb (gen_width s) (gen_height s) e \<and> tile_of (gen_grid s2) e = FLOOR"
      by blast
    with run p(3) show ?thesis
      by (intro exI [of _ s2] exI [of _ "(x2, y1)"]) (simp add: cd)
  next
    case False
    define cs1 where "cs1 = [(x1, y). y \<leftarrow> py_range (min y1 y2) (max y1 y2 + 1),
                                   0 \<le> x1 \<and> x1 < W \<and> 0 \<le> y \<and> y < H]"
    define cs2 where "cs2 = [(x, y2). x \<leftarrow> py_range (min x1 x2) (max x1 x2 + 1),
                                        0 \<le> x \<and> x < W \<and> 0 \<le> y2 \<and> y2 < H]"
    have i1: "\<forall>e\<in>set cs1. inb (gen_width s) (gen_height s) e"
      unfolding cs1_def set_column_cells by (simp add: inb_def W_def H_def)
    have i2: "\<forall>e\<in>set cs2. inb (gen_width s) (gen_height s) e"
      unfolding cs2_def set_row_cells by (simp add: inb_def W_def H_def)
    from two_paints [OF lo i1 i2, of rs]
    obtain s1 s2 where p: "paint_grid s cs1 FLOOR = Inr s1" "paint_grid s1 cs2 FLOOR = Inr s2"
      "same_level rs s s2"
      and fl: "\<forall>e\<in>set cs1 \<union> set cs2. inb (gen_width s) (gen_height s) e \<and>
                                    tile_of (gen_grid s2) e = FLOOR"
      by blast
    have run: "create_corridor s c d rng pos = Inr (s2, pos + 1)"
      unfolding create_corridor_def cd
      using b False p(1,2) by (simp add: cs1_def cs2_def W_def H_def)
    have l1: "line_cells c (x1, y2) \<subseteq> set cs1"
      unfolding cs1_def set_column_cells cd using line_cells_column [OF ib(1) ib(4)] .
    have l2: "line_cells (x1, y2) d \<subseteq> set cs2"
      unfolding cs2_def set_row_cells cd using line_cells_row [OF ib(4) ib(2)] .
    from l1 l2 fl have "\<forall>e\<in>line_cells c (x1, y2) \<union> line_cells (x1, y2) d.
              inb (gen_width s) (gen_height s) e \<and> tile_of (gen_grid s2) e = FLOOR"
      by blast
    with run p(3) show ?thesis
      by (intro exI [of _ s2] exI [of _ "(x1, y2)"]) (simp add: cd)
  qed
qed

lemma corridor_links:
  assumes f: "final_ok G" and sl: "same_level (gen_rooms G) s' G"
    and al: "fst c = fst m \<or> snd c = snd m" "fst m = fst d \<or> snd m = snd d"
    and fl: "\<forall>e\<in>line_cells c m \<union> line_cells m d.
              inb (gen_width s') (gen_height s') e \<and> tile_of (gen_grid s') e = FLOOR"
  shows "linked G c d"
proof -
  have ok: "ok_cell G e" if "e \<in> line_cells c m \<union> line_cells m d" for e
  proof -
    from fl that have "inb (gen_width s') (gen_height s') e" "tile_of (gen_grid s') e = FLOOR"
      by blast+
    with sl have "tile_of (gen_grid G) e = FLOOR \<or>
                  (\<exists>room\<in>set (gen_rooms G). e \<in> room_interior room)"
      and "inb (gen_width G) (gen_height G) e"
      unfolding same_level_def keeps_floor_def by (blast, simp)
    then show ?thesis
      unfolding ok_cell_def by simp
  qed
  have "linked G c m" using ok by (intro line_linked [OF f _ al(1)]) blast
  moreover have "linked G m d" using ok by (intro line_linked [OF f _ al(2)]) blast
  ultimately show ?thesis by (rule linked_trans [OF f])
qed

subsection \<open>The spanning tree of corridors\<close>

lemma choice_ok: "xs \<noteq> [] \<Longrightarrow> \<exists>x\<in>set xs. choice xs raw = Inr x"
proof -
  assume ne: "xs \<noteq> []"
  then obtain x where x: "choice xs raw = Inr x" by (simp add: choice_def)
  from choice_in_set [OF x] x show ?thesis by blast
qed

lemma py_index_nat: "0 \<le> i \<Longrightarrow> i < int (length xs) \<Longrightarrow> py_index xs i = Inr (xs ! nat i)"
  by (simp add: py_index_def)

lemma center_inb: "room_ok W H r \<Longrightarrow> inb W H (center r)"
  using center_interior interior_rect room_rect_inb by blast

lemma center_ok_cell:
  assumes "final_ok G" and "r \<in> set (gen_rooms G)"
  shows "ok_cell G (center r)"
proof -
  from assms have ro: "room_ok (gen_width G) (gen_height G) r"
    by (simp add: final_ok_def level_ok_def)
  from center_inb [OF ro] center_interior [OF ro] assms(2) show ?thesis
    unfolding ok_cell_def by blast
qed

lemma connect_loop_ok:
  assumes "level_ok s" and "C \<noteq> []"
    and "\<forall>i\<in>set C \<union> set U. 0 \<le> i \<and> i < int (length (gen_rooms s))"
  shows "\<exists>s' pos'. connect_loop s C U rng pos = Inr (s', pos') \<and>
           same_level (gen_rooms s) s s' \<and>
           (\<forall>G. same_level (gen_rooms s) s' G \<longrightarrow> final_ok G \<longrightarrow> reaches_first G C \<longrightarrow>
                reaches_first G (C @ U))"
  using assms
proof (induction U arbitrary: s C pos rule: length_induct)
  case (1 U)
  note lo = \<open>level_ok s\<close> and ne = \<open>C \<noteq> []\<close>
  note idx = \<open>\<forall>i\<in>set C \<union> set U. 0 \<le> i \<and> i < int (length (gen_rooms s))\<close>
  show ?case
  proof (cases "U = []")
    case True
    then have "connect_loop s C U rng pos = Inr (s, pos)"
      by (subst connect_loop.simps) simp
    with True same_level_refl [OF lo] show ?thesis by simp
  next
    case False
    from choice_ok [OF ne] obtain a where a: "a \<in> set C" "choice C (rng pos) = Inr a"
      by blast
    from choice_ok [OF False] obtain b where b: "b \<in> set U" "choice U (rng (pos + 1)) = Inr b"
      by blast
    define ra where "ra = gen_rooms s ! nat a"
    define rb where "rb = gen_rooms s ! nat b"
    from idx a(1) b(1) have ia: "0 \<le> a" "a < int (length (gen_rooms s))"
      and ib: "0 \<le> b" "b < int (length (gen_rooms s))"
      by auto
    have pa: "py_index (gen_rooms s) a = Inr ra" and pb: "py_index (gen_rooms s) b = Inr rb"
      using ia ib by (simp_all add: py_index_nat ra_def rb_def)
    have "ra \<in> set (gen_rooms s)" "rb \<in> set (gen_rooms s)"
      using ia ib by (simp_all add: ra_def rb_def)
    with lo have ro: "room_ok (gen_width s) (gen_height s) ra"
      "room_ok (gen_width s) (gen_height s) rb"
      by (simp_all add: level_ok_def)
    from create_corridor_ok [OF lo center_inb [OF ro(1)] center_inb [OF ro(2)],
        where rs = "gen_rooms s" and rng = rng and pos = "pos + 2"]
    obtain s1 m where run: "create_corridor s (center ra) (center rb) rng (pos + 2) = Inr (s1, pos + 2 + 1)"
      and sl1: "same_level (gen_rooms s) s s1"
      and al: "fst (center ra) = fst m \<or> snd (center ra) = snd m"
        "fst m = fst (center rb) \<or> snd m = snd (center rb)"
      and fl: "\<forall>e\<in>line_cells (center ra) m \<union> line_cells m (center rb).
              inb (gen_width s) (gen_height s) e \<and> tile_of (gen_grid s1) e = FLOOR"
      by blast
    have lo1: "level_ok s1" using same_level_ok [OF lo sl1] .
    have r1: "gen_rooms s1 = gen_rooms s" and w1: "gen_width s1 = gen_width s"
      "gen_height s1 = gen_height s"
      using sl1 by (simp_all add: same_level_def)
    have len: "length (remove1 b U) < length U"
      using b(1) by (simp add: length_remove1) (cases U; simp)
    have idx1: "\<forall>i\<in>set (C @ [b]) \<union> set (remove1 b U). 0 \<le> i \<and> i < int (length (gen_rooms s1))"
    proof
      fix i assume "i \<in> set (C @ [b]) \<union> set (remove1 b U)"
      then have "i \<in> set C \<union> set U"
        using b(1) set_remove1_subset [of b U] by auto
      with idx show "0 \<le> i \<and> i < int (length (gen_rooms s1))" by (simp add: r1)
    qed
    have ne1: "C @ [b] \<noteq> []" by simp
    from "1.IH" [rule_format, OF len lo1 ne1 idx1 [rule_format]]
    have "\<exists>s' pos'. connect_loop s1 (C @ [b]) (remove1 b U) rng (pos + 2 + 1) = Inr (s', pos') \<and>
           same_level (gen_rooms s1) s1 s' \<and>
           (\<forall>G. same_level (gen_rooms s1) s' G \<longrightarrow> final_ok G \<longrightarrow>
                reaches_first G (C @ [b]) \<longrightarrow> reaches_first G ((C @ [b]) @ remove1 b U))"
      by blast
    then obtain s' pos' where rec: "connect_loop s1 (C @ [b]) (remove1 b U) rng (pos + 2 + 1) = Inr (s', pos')"
      and sl2: "same_level (gen_rooms s) s1 s'"
      and G: "\<forall>G. same_level (gen_rooms s) s' G \<longrightarrow> final_ok G \<longrightarrow>
                 reaches_first G (C @ [b]) \<longrightarrow> reaches_first G ((C @ [b]) @ remove1 b U)"
      by (auto simp: r1)
    have res: "connect_loop s C U rng pos = Inr (s', pos')"
      by (subst connect_loop.simps)
        (simp only: False a(2) b(2) pa pb run rec if_False sum.case prod.case)
    have "reaches_first G (C @ U)"
      if slG: "same_level (gen_rooms s) s' G" and f: "final_ok G" and rf: "reaches_first G C" for G
    proof -
      have rG: "gen_rooms G = gen_rooms s"
        using slG sl2 r1 by (simp add: same_level_def)
      have "same_level (gen_rooms G) s1 G"
        using same_level_trans [OF sl2 slG] by (simp add: rG)
      from corridor_links [OF f this al] fl
      have ab: "linked G (center ra) (center rb)" by (simp add: w1)
      from rf a(1) have "linked G (center ra) (center (gen_rooms G ! 0))"
        by (simp add: reaches_first_def rG ra_def)
      from linked_trans [OF f linked_sym [OF ab] this]
      have "linked G (center (gen_rooms G ! nat b)) (center (gen_rooms G ! 0))"
        by (simp add: rG rb_def)
      with rf have "reaches_first G (C @ [b])"
        by (simp add: reaches_first_def)
      with G slG f have all: "reaches_first G ((C @ [b]) @ remove1 b U)" by blast
      show ?thesis
        unfolding reaches_first_def
      proof
        fix i assume "i \<in> set (C @ U)"
        then have "i \<in> set ((C @ [b]) @ remove1 b U)"
          by (cases "i = b") auto
        with all show "linked G (center (gen_rooms G ! nat i)) (center (gen_rooms G ! 0))"
          unfolding reaches_first_def by blast
      qed
    qed
    with res same_level_trans [OF sl1 sl2] show ?thesis by blast
  qed
qed

lemma extra_corridors_ok:
  assumes "level_ok s" and "gen_rooms s \<noteq> []"
  shows "\<exists>s' pos'. extra_corridors n s rng pos = Inr (s', pos') \<and> same_level rs s s'"
  using assms
proof (induction n arbitrary: s pos)
  case 0
  then show ?case by (simp add: same_level_refl)
next
  case (Suc n)
  note lo = \<open>level_ok s\<close> and ne = \<open>gen_rooms s \<noteq> []\<close>
  from choice_ok [OF ne] obtain ra where a: "ra \<in> set (gen_rooms s)"
    "choice (gen_rooms s) (rng pos) = Inr ra" by blast
  from choice_ok [OF ne] obtain rb where b: "rb \<in> set (gen_rooms s)"
    "choice (gen_rooms s) (rng (pos + 1)) = Inr rb" by blast
  show ?case
  proof (cases "ra = rb")
    case True
    have "extra_corridors (Suc n) s rng pos = extra_corridors n s rng (pos + 2)"
      using True by (simp only: extra_corridors.simps a(2) b(2) sum.case simp_thms if_False)
    with Suc.IH [OF lo ne, of "pos + 2"] show ?thesis
      by simp
  next
    case False
    from lo a(1) b(1) have ro: "room_ok (gen_width s) (gen_height s) ra"
      "room_ok (gen_width s) (gen_height s) rb"
      by (simp_all add: level_ok_def)
    from create_corridor_ok [OF lo center_inb [OF ro(1)] center_inb [OF ro(2)],
        where rs = rs and rng = rng and pos = "pos + 2"]
    obtain s1 where run: "create_corridor s (center ra) (center rb) rng (pos + 2) = Inr (s1, pos + 2 + 1)"
      and sl1: "same_level rs s s1"
      by blast
    have lo1: "level_ok s1" using same_level_ok [OF lo sl1] .
    have ne1: "gen_rooms s1 \<noteq> []" using sl1 ne by (simp add: same_level_def)
    from Suc.IH [OF lo1 ne1, of "pos + 2 + 1"]
    obtain s' pos' where rec: "extra_corridors n s1 rng (pos + 2 + 1) = Inr (s', pos')"
      and sl2: "same_level rs s1 s'" by blast
    have "extra_corridors (Suc n) s rng pos = Inr (s', pos')"
      using False
      by (simp only: extra_corridors.simps a(2) b(2) run rec sum.case prod.case simp_thms if_True)
    with same_level_trans [OF sl1 sl2] show ?thesis
      by blast
  qed
qed

lemma connect_rooms_ok:
  assumes lo: "level_ok s"
  shows "\<exists>s' pos'. connect_rooms s rng pos = Inr (s', pos') \<and>
           same_level (gen_rooms s) s s' \<and>
           (\<forall>G. same_level (gen_rooms s) s' G \<longrightarrow> final_ok G \<longrightarrow>
                (\<forall>i<length (gen_rooms G).
                   linked G (center (gen_rooms G ! i)) (center (gen_rooms G ! 0))))"
proof (cases "length (gen_rooms s) < 2")
  case True
  have "linked G (center (gen_rooms G ! i)) (center (gen_rooms G ! 0))"
    if slG: "same_level (gen_rooms s) s G" and f: "final_ok G" and i: "i < length (gen_rooms G)"
    for G i
  proof -
    have rG: "gen_rooms G = gen_rooms s" using slG by (simp add: same_level_def)
    with True i have "i = 0" by simp
    moreover have "gen_rooms G ! 0 \<in> set (gen_rooms G)" using i by (simp add: \<open>i = 0\<close> [symmetric])
    ultimately show ?thesis
      using linked_refl [OF f center_ok_cell [OF f]] by simp
  qed
  with True same_level_refl [OF lo] show ?thesis
    by (simp add: connect_rooms_def)
next
  case False
  define n where "n = length (gen_rooms s)"
  have idx: "\<forall>i\<in>set [0] \<union> set (py_range 1 (int n)). 0 \<le> i \<and> i < int (length (gen_rooms s))"
    using False by (auto simp: set_py_range n_def)
  from connect_loop_ok [OF lo _ idx, of rng pos]
  obtain s1 pos1 where run: "connect_loop s [0] (py_range 1 (int n)) rng pos = Inr (s1, pos1)"
    and sl1: "same_level (gen_rooms s) s s1"
    and G: "\<forall>G. same_level (gen_rooms s) s1 G \<longrightarrow> final_ok G \<longrightarrow> reaches_first G [0] \<longrightarrow>
                reaches_first G ([0] @ py_range 1 (int n))"
    by auto
  have lo1: "level_ok s1" using same_level_ok [OF lo sl1] .
  have r1: "gen_rooms s1 = gen_rooms s" using sl1 by (simp add: same_level_def)
  with False have ne1: "gen_rooms s1 \<noteq> []" by auto
  from extra_corridors_ok [OF lo1 ne1, of "length (gen_rooms s1) div 3" rng pos1 "gen_rooms s"]
  obtain s' pos' where ex: "extra_corridors (length (gen_rooms s1) div 3) s1 rng pos1 = Inr (s', pos')"
    and sl2: "same_level (gen_rooms s) s1 s'" by blast
  have res: "connect_rooms s rng pos = Inr (s', pos')"
    unfolding connect_rooms_def using False
    by (simp only: run [unfolded n_def] ex if_False sum.case prod.case)
  have "linked G (center (gen_rooms G ! i)) (center (gen_rooms G ! 0))"
    if slG: "same_level (gen_rooms s) s' G" and f: "final_ok G" and i: "i < length (gen_rooms G)"
    for G i
  proof -
    have rG: "gen_rooms G = gen_rooms s" using slG sl2 r1 by (simp add: same_level_def)
    have s1G: "same_level (gen_rooms s) s1 G" using same_level_trans [OF sl2 slG] .
    have "gen_rooms G ! 0 \<in> set (gen_rooms G)" using i by (cases "gen_rooms G") auto
    from linked_refl [OF f center_ok_cell [OF f this]]
    have "reaches_first G [0]" by (simp add: reaches_first_def)
    with G s1G f have "reaches_first G ([0] @ py_range 1 (int n))" by blast
    moreover have "int i \<in> set ([0] @ py_range 1 (int n))"
      using i by (auto simp: set_py_range n_def rG)
    ultimately have "linked G (center (gen_rooms G ! nat (int i))) (center (gen_rooms G ! 0))"
      unfolding reaches_first_def by blast
    then show ?thesis by simp
  qed
  with res same_level_trans [OF sl1 sl2] show ?thesis by blast
qed

subsection \<open>The feature passes\<close>

lemma tile_at_inb:
  assumes "dims g W H" and "inb W H (x, y)"
  shows "tile_at g x y = Inr (tile_of g (x, y))"
proof -
  from assms have y: "0 \<le> y" "y < int (length g)" and x: "0 \<le> x" "x < W"
    by (simp_all add: dims_def inb_def)
  from y have "nat y < length g" by linarith
  with assms(1) have "int (length (g ! nat y)) = W"
    by (simp add: dims_def list_all_length)
  with x y show ?thesis
    by (simp add: tile_at_def py_index_nat tile_of_def)
qed

lemma randint_ok: "a \<le> b \<Longrightarrow> \<exists>n. randint a b raw = Inr n \<and> a \<le> n \<and> n \<le> b"
proof -
  assume "a \<le> b"
  then obtain n where n: "randint a b raw = Inr n" by (simp add: randint_def)
  from randint_range [OF n] n show ?thesis by blast
qed

lemma interior_inb: "room_ok W H r \<Longrightarrow> c \<in> room_interior r \<Longrightarrow> inb W H c"
  using interior_rect room_rect_inb by blast

lemma scatter_ok:
  assumes "level_ok s" and "room_ok (gen_width s) (gen_height s) room" and "room \<in> set rs"
  shows "\<exists>s' pos'. scatter n s room t rng pos = Inr (s', pos') \<and> same_level rs s s'"
  using assms
proof (induction n arbitrary: s pos)
  case 0
  then show ?case by (simp add: same_level_refl)
next
  case (Suc n)
  note lo = \<open>level_ok s\<close> and ro = \<open>room_ok (gen_width s) (gen_height s) room\<close>
    and rs = \<open>room \<in> set rs\<close>
  from ro have "room_x room + 1 \<le> room_x room + room_width room - 2"
    "room_y room + 1 \<le> room_y room + room_height room - 2"
    by (simp_all add: room_ok_def)
  from randint_ok [OF this(1), of "rng pos"] randint_ok [OF this(2), of "rng (pos + 1)"]
  obtain x y where x: "randint (room_x room + 1) (room_x room + room_width room - 2) (rng pos) = Inr x"
    "room_x room + 1 \<le> x" "x \<le> room_x room + room_width room - 2"
    and y: "randint (room_y room + 1) (room_y room + room_height room - 2) (rng (pos + 1)) = Inr y"
    "room_y room + 1 \<le> y" "y \<le> room_y room + room_height room - 2"
    by blast
  from x(2,3) y(2,3) have int: "(x, y) \<in> room_interior room"
    by (simp add: room_interior_def)
  have ib: "inb (gen_width s) (gen_height s) (x, y)" using interior_inb [OF ro int] .
  from lo have "dims (gen_grid s) (gen_width s) (gen_height s)" by (simp add: level_ok_def)
  from tile_at_inb [OF this ib]
  have ta: "tile_at (gen_grid s) x y = Inr (tile_of (gen_grid s) (x, y))" .
  show ?case
  proof (cases "tile_of (gen_grid s) (x, y) = FLOOR")
    case False
    have "scatter (Suc n) s room t rng pos = scatter n s room t rng (pos + 2)"
      using False by (simp only: scatter.simps x(1) y(1) ta sum.case simp_thms if_False)
    with Suc.IH [OF lo ro rs, of "pos + 2"] show ?thesis by simp
  next
    case True
    have "\<forall>c\<in>set [(x, y)]. inb (gen_width s) (gen_height s) c" using ib by simp
    moreover have "t = FLOOR \<or> (\<forall>c\<in>set [(x, y)]. \<exists>room\<in>set rs. c \<in> room_interior room)"
      using int rs by auto
    ultimately obtain s1 where p: "paint_grid s [(x, y)] t = Inr s1" and sl1: "same_level rs s s1"
      using paint_grid_same_level [OF lo, of "[(x, y)]" t rs] by blast
    have lo1: "level_ok s1" using same_level_ok [OF lo sl1] .
    have ro1: "room_ok (gen_width s1) (gen_height s1) room"
      using ro sl1 by (simp add: same_level_def)
    from Suc.IH [OF lo1 ro1 rs, of "pos + 2"]
    obtain s' pos' where rec: "scatter n s1 room t rng (pos + 2) = Inr (s', pos')"
      and sl2: "same_level rs s1 s'" by blast
    have "scatter (Suc n) s room t rng pos = Inr (s', pos')"
      using True by (simp only: scatter.simps x(1) y(1) ta p rec sum.case simp_thms if_True)
    with same_level_trans [OF sl1 sl2] show ?thesis by blast
  qed
qed

lemma scatter_features_ok:
  assumes "level_ok s" and "room_ok (gen_width s) (gen_height s) room" and "room \<in> set rs"
    and "lo \<le> hi"
  shows "\<exists>s' pos'. scatter_features s room lo hi t rng pos = Inr (s', pos') \<and> same_level rs s s'"
proof -
  from randint_ok [OF assms(4), of "rng pos"] obtain n where n: "randint lo hi (rng pos) = Inr n"
    by blast
  from scatter_ok [OF assms(1-3), of "nat n" t rng "pos + 1"] show ?thesis
    by (simp only: scatter_features_def n sum.case)
qed

lemma cells_subset:
  "(\<And>x y. P x y \<Longrightarrow> (x, y) \<in> A) \<Longrightarrow> set [(x, y). y \<leftarrow> ys, x \<leftarrow> xs, P x y] \<subseteq> A"
  by auto

lemma water_cells_interior: "set (water_cells room) \<subseteq> room_interior room"
  unfolding water_cells_def Let_def by (rule cells_subset) (simp add: room_interior_def)

lemma pool_edge_cells_interior: "set (pool_edge_cells room) \<subseteq> room_interior room"
  unfolding pool_edge_cells_def Let_def by (rule cells_subset) (simp add: room_interior_def)

lemma pool_cells_interior: "set (pool_cells room) \<subseteq> room_interior room"
  unfolding pool_cells_def Let_def by (rule cells_subset) (simp add: room_interior_def)

lemma paint_interior_ok:
  assumes lo: "level_ok s" and ro: "room_ok (gen_width s) (gen_height s) room"
    and rs: "room \<in> set rs" and cs: "set cs \<subseteq> room_interior room"
  shows "\<exists>s'. paint_grid s cs t = Inr s' \<and> same_level rs s s'"
proof -
  have "\<forall>c\<in>set cs. inb (gen_width s) (gen_height s) c"
    using cs interior_inb [OF ro] by blast
  moreover have "t = FLOOR \<or> (\<forall>c\<in>set cs. \<exists>room\<in>set rs. c \<in> room_interior room)"
    using cs rs by blast
  ultimately show ?thesis
    using paint_grid_same_level [OF lo, of cs t rs] by blast
qed

lemma add_features_by_type_ok:
  assumes lo: "level_ok s" and ro: "room_ok (gen_width s) (gen_height s) room"
    and rs: "room \<in> set rs"
  shows "\<exists>s' pos'. add_features_by_type s room rng pos = Inr (s', pos') \<and> same_level rs s s'"
proof -
  consider "room_type room = STORAGE_ROOM" | "room_type room = ELECTRICAL_ROOM"
    | "room_type room = FLOODED_AREA" | "room_type room = MAINTENANCE"
    | "room_type room \<notin> {STORAGE_ROOM, ELECTRICAL_ROOM, FLOODED_AREA, MAINTENANCE}"
    by blast
  then show ?thesis
  proof cases
    case 1
    with scatter_features_ok [OF lo ro rs, of 1 3 EXIT rng pos] show ?thesis
      by (simp add: add_features_by_type_def)
  next
    case 2
    with scatter_features_ok [OF lo ro rs, of 2 4 ELECTRICAL rng pos] show ?thesis
      by (simp add: add_features_by_type_def)
  next
    case 3
    from paint_interior_ok [OF lo ro rs water_cells_interior, of WATER_DAMAGE]
    obtain s' where "paint_grid s (water_cells room) WATER_DAMAGE = Inr s'" "same_level rs s s'"
      by blast
    with 3 show ?thesis
      by (simp add: add_features_by_type_def)
  next
    case 4
    with scatter_features_ok [OF lo ro rs, of 1 3 VENT rng pos] show ?thesis
      by (simp add: add_features_by_type_def)
  next
    case 5
    with same_level_refl [OF lo] show ?thesis
      by (simp add: add_features_by_type_def)
  qed
qed

lemma add_room_features_ok:
  assumes "level_ok s"
    and "\<forall>room\<in>set rooms. room_ok (gen_width s) (gen_height s) room \<and> room \<in> set rs"
  shows "\<exists>s' pos'. add_room_features rooms s rng pos = Inr (s', pos') \<and> same_level rs s s'"
  using assms
proof (induction rooms arbitrary: s pos)
  case Nil
  then show ?case by (simp add: same_level_refl)
next
  case (Cons room rest)
  note lo = \<open>level_ok s\<close>
  from Cons.prems(2) have ro: "room_ok (gen_width s) (gen_height s) room" and rs: "room \<in> set rs"
    by simp_all
  from add_features_by_type_ok [OF lo ro rs, of rng pos]
  obtain s1 pos1 where f: "add_features_by_type s room rng pos = Inr (s1, pos1)"
    and sl1: "same_level rs s s1" by blast
  have lo1: "level_ok s1" using same_level_ok [OF lo sl1] .
  have rest: "\<forall>room\<in>set rest. room_ok (gen_width s1) (gen_height s1) room \<and> room \<in> set rs"
    using Cons.prems(2) sl1 by (simp add: same_level_def)
  from Cons.IH [OF lo1 rest, of pos1]
  obtain s' pos' where rec: "add_room_features rest s1 rng pos1 = Inr (s', pos')"
    and sl2: "same_level rs s1 s'" by blast
  have "add_room_features (room # rest) s rng pos = Inr (s', pos')"
    by (simp only: add_room_features.simps f rec sum.case prod.case)
  with same_level_trans [OF sl1 sl2] show ?case by blast
qed

lemma add_pools_ok:
  assumes "level_ok s"
    and "\<forall>room\<in>set rooms. room_ok (gen_width s) (gen_height s) room \<and> room \<in> set rs"
  shows "\<exists>s'. add_pools rooms s = Inr s' \<and> same_level rs s s'"
  using assms
proof (induction rooms arbitrary: s)
  case Nil
  then show ?case by (simp add: same_level_refl)
next
  case (Cons room rest)
  note lo = \<open>level_ok s\<close>
  from Cons.prems(2) have ro: "room_ok (gen_width s) (gen_height s) room" and rs: "room \<in> set rs"
    by simp_all
  show ?case
  proof (cases "room_type room = POOL_AREA")
    case False
    have rest: "\<forall>room\<in>set rest. room_ok (gen_width s) (gen_height s) room \<and> room \<in> set rs"
      using Cons.prems(2) by simp
    from Cons.IH [OF lo rest] False show ?thesis by simp
  next
    case True
    from paint_interior_ok [OF lo ro rs pool_edge_cells_interior, of POOL_EDGE]
    obtain s1 where p1: "paint_grid s (pool_edge_cells room) POOL_EDGE = Inr s1"
      and sl1: "same_level rs s s1" by blast
    have lo1: "level_ok s1" using same_level_ok [OF lo sl1] .
    have ro1: "room_ok (gen_width s1) (gen_height s1) room"
      using ro sl1 by (simp add: same_level_def)
    from paint_interior_ok [OF lo1 ro1 rs pool_cells_interior, of POOL]
    obtain s2 where p2: "paint_grid s1 (pool_cells room) POOL = Inr s2"
      and sl2: "same_level rs s1 s2" by blast
    have lo2: "level_ok s2" using same_level_ok [OF lo1 sl2] .
    have rest: "\<forall>room\<in>set rest. room_ok (gen_width s2) (gen_height s2) room \<and> room \<in> set rs"
      using Cons.prems(2) sl1 sl2 by (simp add: same_level_def)
    from Cons.IH [OF lo2 rest]
    obtain s' where rec: "add_pools rest s2 = Inr s'" and sl3: "same_level rs s2 s'" by blast
    have "add_pools (room # rest) s = Inr s'"
      using True by (simp only: add_pools.simps p1 p2 rec sum.case simp_thms if_True)
    with same_level_trans [OF same_level_trans [OF sl1 sl2] sl3] show ?thesis by blast
  qed
qed

lemma add_poolrooms_features_ok:
  assumes "level_ok s"
    and "\<forall>room\<in>set rooms. room_ok (gen_width s) (gen_height s) room \<and> room \<in> set rs"
  shows "\<exists>s' pos'. add_poolrooms_features rooms s rng pos = Inr (s', pos') \<and> same_level rs s s'"
  using assms
proof (induction rooms arbitrary: s pos)
  case Nil
  then show ?case by (simp add: same_level_refl)
next
  case (Cons room rest)
  note lo = \<open>level_ok s\<close>
  from Cons.prems(2) have ro: "room_ok (gen_width s) (gen_height s) room" and rs: "room \<in> set rs"
    by simp_all
  show ?case
  proof (cases "room_type room = POOL_CHANGING")
    case False
    have rest: "\<forall>room\<in>set rest. room_ok (gen_width s) (gen_height s) room \<and> room \<in> set rs"
      using Cons.prems(2) by simp
    from Cons.IH [OF lo rest, of pos] False show ?thesis by simp
  next
    case True
    from scatter_features_ok [OF lo ro rs, of 1 2 EXIT rng pos]
    obtain s1 pos1 where f: "scatter_features s room 1 2 EXIT rng pos = Inr (s1, pos1)"
      and sl1: "same_level rs s s1" by auto
    have lo1: "level_ok s1" using same_level_ok [OF lo sl1] .
    have rest: "\<forall>room\<in>set rest. room_ok (gen_width s1) (gen_height s1) room \<and> room \<in> set rs"
      using Cons.prems(2) sl1 by (simp add: same_level_def)
    from Cons.IH [OF lo1 rest, of pos1]
    obtain s' pos' where rec: "add_poolrooms_features rest s1 rng pos1 = Inr (s', pos')"
      and sl2: "same_level rs s1 s'" by blast
    have "add_poolrooms_features (room # rest) s rng pos = Inr (s', pos')"
      using True
      by (simp only: add_poolrooms_features.simps f rec sum.case prod.case simp_thms if_True)
    with same_level_trans [OF sl1 sl2] show ?thesis by blast
  qed
qed

lemma place_exit_ok:
  assumes lo: "level_ok s" and ro: "room_ok (gen_width s) (gen_height s) room"
    and rs: "room \<in> set rs" and cs: "set corners \<subseteq> room_interior room"
  shows "\<exists>s'. place_exit s corners = Inr s' \<and> same_level rs s s'"
  using cs
proof (induction corners)
  case Nil
  then show ?case by (simp add: same_level_refl [OF lo])
next
  case (Cons c corners)
  obtain x y where c: "c = (x, y)" by (cases c) auto
  from Cons.prems have int: "(x, y) \<in> room_interior room" and rest: "set corners \<subseteq> room_interior room"
    by (simp_all add: c)
  have ib: "inb (gen_width s) (gen_height s) (x, y)" using interior_inb [OF ro int] .
  from lo have "dims (gen_grid s) (gen_width s) (gen_height s)" by (simp add: level_ok_def)
  from tile_at_inb [OF this ib]
  have ta: "tile_at (gen_grid s) x y = Inr (tile_of (gen_grid s) (x, y))" .
  have t: "0 \<le> x \<and> x < gen_width s \<and> 0 \<le> y \<and> y < gen_height s"
    using ib by (simp add: inb_def)
  show ?case
  proof (cases "tile_of (gen_grid s) (x, y) = FLOOR")
    case True
    have "place_exit s (c # corners) = paint_grid s [(x, y)] LEVEL_EXIT"
      using True t unfolding c by (simp only: place_exit.simps ta sum.case simp_thms if_True)
    moreover have "set [(x, y)] \<subseteq> room_interior room" using int by simp
    ultimately show ?thesis
      using paint_interior_ok [OF lo ro rs, of "[(x, y)]" LEVEL_EXIT] by simp
  next
    case False
    have "place_exit s (c # corners) = place_exit s corners"
      using False t unfolding c
      by (simp only: place_exit.simps ta sum.case simp_thms if_True if_False)
    with Cons.IH [OF rest] show ?thesis by simp
  qed
qed

lemma corner_positions_interior:
  "room_ok W H room \<Longrightarrow> set (corner_positions room) \<subseteq> room_interior room"
  by (simp add: corner_positions_def room_interior_def room_ok_def)

lemma add_level_exit_ok:
  assumes lo: "level_ok s" and rs: "set (gen_rooms s) \<subseteq> set rs"
  shows "\<exists>s' pos'. add_level_exit s rng pos = Inr (s', pos') \<and> same_level rs s s'"
proof (cases "gen_rooms s = []")
  case True
  with same_level_refl [OF lo] show ?thesis by (simp add: add_level_exit_def)
next
  case False
  define suitable_rooms where
    "suitable_rooms = filter (\<lambda>room. room_width room * room_height room \<ge> 64) (gen_rooms s)"
  define pool where "pool = (if suitable_rooms = [] then gen_rooms s else suitable_rooms)"
  have "pool \<noteq> []" using False by (simp add: pool_def)
  from choice_ok [OF this, of "rng pos"] obtain exit_room where
    e: "exit_room \<in> set pool" "choice pool (rng pos) = Inr exit_room" by blast
  have "set pool \<subseteq> set (gen_rooms s)" by (auto simp: pool_def suitable_rooms_def)
  with e(1) have er: "exit_room \<in> set (gen_rooms s)" by blast
  with lo have ro: "room_ok (gen_width s) (gen_height s) exit_room" by (simp add: level_ok_def)
  from er rs have "exit_room \<in> set rs" by blast
  from place_exit_ok [OF lo ro this corner_positions_interior [OF ro]]
  obtain s' where p: "place_exit s (corner_positions exit_room) = Inr s'" and sl: "same_level rs s s'"
    by blast
  have "add_level_exit s rng pos = Inr (s', pos + 1)"
    unfolding add_level_exit_def Let_def
    using False
    by (simp only: e(2) [unfolded pool_def suitable_rooms_def] p sum.case if_False)
  with sl show ?thesis by blast
qed

subsection \<open>The whole generation\<close>

lemma placed_final:
  assumes p: "placed s" and sl: "same_level (gen_rooms s) s G"
  shows "final_ok G"
proof -
  have lo: "level_ok G" using same_level_ok [OF placed_level_ok [OF p] sl] .
  have rG: "gen_rooms G = gen_rooms s" using sl by (simp add: same_level_def)
  have no: "no_overlap (gen_rooms s)" using p by (simp add: placed_def)
  have "tile_of (gen_grid G) c = FLOOR"
    if r: "r \<in> set (gen_rooms s)" and c: "c \<in> room_perimeter r" for r c
  proof -
    from c have cr: "c \<in> room_rect r" and ci: "c \<notin> room_interior r"
      by (simp_all add: room_perimeter_def)
    from p r have ro: "room_ok (gen_width s) (gen_height s) r" by (simp add: placed_def)
    have ib: "inb (gen_width s) (gen_height s) c" using room_rect_inb [OF ro cr] .
    from p r cr have fl: "tile_of (gen_grid s) c = FLOOR" by (simp add: placed_def)
    have out: "c \<notin> room_interior room" if "room \<in> set (gen_rooms s)" for room
    proof
      assume i: "c \<in> room_interior room"
      with interior_rect have "c \<in> room_rect room" by blast
      from rooms_unique [OF no that r this cr] i ci show False by simp
    qed
    from sl ib fl have "tile_of (gen_grid G) c = FLOOR \<or>
        (\<exists>room\<in>set (gen_rooms s). c \<in> room_interior room)"
      unfolding same_level_def keeps_floor_def by blast
    with out show ?thesis by blast
  qed
  with lo no show ?thesis by (simp add: final_ok_def rG)
qed

lemma finish_level_0_ok:
  assumes p: "placed s"
  shows "\<exists>G pos'. finish_level_0 s rng pos = Inr (G, pos') \<and> same_level (gen_rooms s) s G \<and>
           (\<forall>i<length (gen_rooms G).
              linked G (center (gen_rooms G ! i)) (center (gen_rooms G ! 0)))"
proof -
  have lo: "level_ok s" using placed_level_ok [OF p] .
  from connect_rooms_ok [OF lo, of rng pos]
  obtain s1 pos1 where c: "connect_rooms s rng pos = Inr (s1, pos1)"
    and sl1: "same_level (gen_rooms s) s s1"
    and L: "\<forall>G. same_level (gen_rooms s) s1 G \<longrightarrow> final_ok G \<longrightarrow>
                (\<forall>i<length (gen_rooms G).
                   linked G (center (gen_rooms G ! i)) (center (gen_rooms G ! 0)))"
    by blast
  have lo1: "level_ok s1" using same_level_ok [OF lo sl1] .
  have r1: "gen_rooms s1 = gen_rooms s" using sl1 by (simp add: same_level_def)
  have rooms1: "\<forall>room\<in>set (gen_rooms s1).
      room_ok (gen_width s1) (gen_height s1) room \<and> room \<in> set (gen_rooms s)"
    using lo1 by (simp add: level_ok_def r1)
  from add_room_features_ok [OF lo1 rooms1, of rng pos1]
  obtain s2 pos2 where f: "add_room_features (gen_rooms s1) s1 rng pos1 = Inr (s2, pos2)"
    and sl2: "same_level (gen_rooms s) s1 s2" by blast
  have lo2: "level_ok s2" using same_level_ok [OF lo1 sl2] .
  have r2: "set (gen_rooms s2) \<subseteq> set (gen_rooms s)" using sl2 r1 by (simp add: same_level_def)
  from add_level_exit_ok [OF lo2 r2, of rng pos2]
  obtain G pos' where e: "add_level_exit s2 rng pos2 = Inr (G, pos')"
    and sl3: "same_level (gen_rooms s) s2 G" by blast
  have run: "finish_level_0 s rng pos = Inr (G, pos')"
    by (simp only: finish_level_0_def c f e sum.case prod.case)
  have s1G: "same_level (gen_rooms s) s1 G" using same_level_trans [OF sl2 sl3] .
  have sG: "same_level (gen_rooms s) s G" using same_level_trans [OF sl1 s1G] .
  from L s1G placed_final [OF p sG] run sG show ?thesis by blast
qed

lemma finish_poolrooms_ok:
  assumes p: "placed s"
  shows "\<exists>G pos'. finish_poolrooms s rng pos = Inr (G, pos') \<and> same_level (gen_rooms s) s G \<and>
           (\<forall>i<length (gen_rooms G).
              linked G (center (gen_rooms G ! i)) (center (gen_rooms G ! 0)))"
proof -
  have lo: "level_ok s" using placed_level_ok [OF p] .
  from connect_rooms_ok [OF lo, of rng pos]
  obtain s1 pos1 where c: "connect_rooms s rng pos = Inr (s1, pos1)"
    and sl1: "same_level (gen_rooms s) s s1"
    and L: "\<forall>G. same_level (gen_rooms s) s1 G \<longrightarrow> final_ok G \<longrightarrow>
                (\<forall>i<length (gen_rooms G).
                   linked G (center (gen_rooms G ! i)) (center (gen_rooms G ! 0)))"
    by blast
  have lo1: "level_ok s1" using same_level_ok [OF lo sl1] .
  have r1: "gen_rooms s1 = gen_rooms s" using sl1 by (simp add: same_level_def)
  have rooms1: "\<forall>room\<in>set (gen_rooms s1).
      room_ok (gen_width s1) (gen_height s1) room \<and> room \<in> set (gen_rooms s)"
    using lo1 by (simp add: level_ok_def r1)
  from add_pools_ok [OF lo1 rooms1]
  obtain s2 where f: "add_pools (gen_rooms s1) s1 = Inr s2"
    and sl2: "same_level (gen_rooms s) s1 s2" by blast
  have lo2: "level_ok s2" using same_level_ok [OF lo1 sl2] .
  have r2: "gen_rooms s2 = gen_rooms s" using sl2 r1 by (simp add: same_level_def)
  have rooms2: "\<forall>room\<in>set (gen_rooms s2).
      room_ok (gen_width s2) (gen_height s2) room \<and> room \<in> set (gen_rooms s)"
    using lo2 by (simp add: level_ok_def r2)
  from add_poolrooms_features_ok [OF lo2 rooms2, of rng pos1]
  obtain s3 pos3 where g: "add_poolrooms_features (gen_rooms s2) s2 rng pos1 = Inr (s3, pos3)"
    and sl3: "same_level (gen_rooms s) s2 s3" by blast
  have lo3: "level_ok s3" using same_level_ok [OF lo2 sl3] .
  have r3: "set (gen_rooms s3) \<subseteq> set (gen_rooms s)" using sl3 r2 by (simp add: same_level_def)
  from add_level_exit_ok [OF lo3 r3, of rng pos3]
  obtain G pos' where e: "add_level_exit s3 rng pos3 = Inr (G, pos')"
    and sl4: "same_level (gen_rooms s) s3 G" by blast
  have run: "finish_poolrooms s rng pos = Inr (G, pos')"
    by (simp only: finish_poolrooms_def c f g e sum.case prod.case)
  have s1G: "same_level (gen_rooms s) s1 G"
    using same_level_trans [OF sl2 same_level_trans [OF sl3 sl4]] .
  have sG: "same_level (gen_rooms s) s G" using same_level_trans [OF sl1 s1G] .
  from L s1G placed_final [OF p sG] run sG show ?thesis by blast
qed

lemma generate_after_placement:
  assumes pl: "place_rooms W H lt rng pos = Some (Inr (s, a, p))"
  shows "\<exists>G pos'. generate W H lt rng pos = Some (Inr (G, pos')) \<and> final_ok G \<and>
           same_level (gen_rooms s) s G \<and>
           (\<forall>i<length (gen_rooms G).
              linked G (center (gen_rooms G ! i)) (center (gen_rooms G ! 0)))"
proof -
  from place_rooms_placed [OF pl] have p: "placed s" by simp
  show ?thesis
  proof (cases "lt = POOLROOMS")
    case True
    from finish_poolrooms_ok [OF p, of rng p]
    obtain G pos' where f: "finish_poolrooms s rng p = Inr (G, pos')"
      and sl: "same_level (gen_rooms s) s G"
      and L: "\<forall>i<length (gen_rooms G).
              linked G (center (gen_rooms G ! i)) (center (gen_rooms G ! 0))" by blast
    have "generate W H lt rng pos = Some (Inr (G, pos'))"
      using True pl f by (simp add: generate_def)
    with placed_final [OF p sl] sl L show ?thesis by blast
  next
    case False
    from finish_level_0_ok [OF p, of rng p]
    obtain G pos' where f: "finish_level_0 s rng p = Inr (G, pos')"
      and sl: "same_level (gen_rooms s) s G"
      and L: "\<forall>i<length (gen_rooms G).
              linked G (center (gen_rooms G ! i)) (center (gen_rooms G ! 0))" by blast
    have "generate W H lt rng pos = Some (Inr (G, pos'))"
      using False pl f by (simp add: generate_def)
    with placed_final [OF p sl] sl L show ?thesis by blast
  qed
qed

lemma generate_placement:
  assumes g: "generate W H lt rng pos = Some (Inr (G, pos'))"
  shows "\<exists>s a p. place_rooms W H lt rng pos = Some (Inr (s, a, p))"
proof (cases "place_rooms W H lt rng pos")
  case None
  with g show ?thesis by (simp add: generate_def)
next
  case (Some y)
  show ?thesis
  proof (cases y)
    case (Inl e)
    with g Some show ?thesis by (simp add: generate_def)
  next
    case (Inr t)
    then show ?thesis using Some by (cases t) auto
  qed
qed

lemma generate_final:
  assumes g: "generate W H lt rng pos = Some (Inr (G, pos'))"
  shows "\<exists>s a p. place_rooms W H lt rng pos = Some (Inr (s, a, p)) \<and> placed s \<and>
           gen_rooms G = gen_rooms s \<and> final_ok G \<and>
           (\<forall>i<length (gen_rooms G).
              linked G (center (gen_rooms G ! i)) (center (gen_rooms G ! 0)))"
proof -
  from generate_placement [OF g] obtain s a p where
    pl: "place_rooms W H lt rng pos = Some (Inr (s, a, p))" by blast
  from generate_after_placement [OF pl] g
  have "final_ok G" "same_level (gen_rooms s) s G"
    "\<forall>i<length (gen_rooms G). linked G (center (gen_rooms G ! i)) (center (gen_rooms G ! 0))"
    by auto
  moreover from place_rooms_placed [OF pl] have "placed s" by simp
  ultimately show ?thesis using pl by (auto simp: same_level_def)
qed

lemma linked_centers:
  assumes f: "final_ok G" and r: "r \<in> set (gen_rooms G)" and r0: "r0 \<in> set (gen_rooms G)"
    and l: "linked G (center r) (center r0)"
    and p: "p \<in> room_perimeter r" and q: "q \<in> room_perimeter r0"
  shows "floor_connected G p q"
proof -
  have no: "no_overlap (gen_rooms G)" using f by (simp add: final_ok_def)
  have ro: "room_ok (gen_width G) (gen_height G) r" "room_ok (gen_width G) (gen_height G) r0"
    using f r r0 by (simp_all add: final_ok_def level_ok_def)
  have "anchors (gen_rooms G) (center r) = room_perimeter r"
    using anchors_inside [OF no r center_interior [OF ro(1)]] .
  moreover have "anchors (gen_rooms G) (center r0) = room_perimeter r0"
    using anchors_inside [OF no r0 center_interior [OF ro(2)]] .
  ultimately show ?thesis using l p q by (simp add: linked_def)
qed

subsection \<open>The placement loops only append rooms\<close>

lemma try_place_prefix:
  assumes a: "try_place s rt p rng pos = Inr (s', pos')"
  shows "\<exists>ys. gen_rooms s' = gen_rooms s @ ys"
proof -
  from try_place_cases [OF a] obtain r where
    alt: "(list_ex (overlaps r) (gen_rooms s) \<and> s' = s) \<or>
            (\<not> list_ex (overlaps r) (gen_rooms s) \<and>
             carve_room (s\<lparr>gen_rooms := gen_rooms s @ [r]\<rparr>) r = Inr s')"
    by blast
  then show ?thesis
  proof
    assume "list_ex (overlaps r) (gen_rooms s) \<and> s' = s"
    then show ?thesis by simp
  next
    assume "\<not> list_ex (overlaps r) (gen_rooms s) \<and>
             carve_room (s\<lparr>gen_rooms := gen_rooms s @ [r]\<rparr>) r = Inr s'"
    then have "gen_rooms s' = gen_rooms s @ [r]"
      by (auto simp: carve_room_def paint_grid_def split: sum.splits)
    then show ?thesis by blast
  qed
qed

lemma generate_pool_rooms_prefix:
  "generate_pool_rooms s attempts rng pos = Inr (s', attempts', pos') \<Longrightarrow>
     \<exists>ys. gen_rooms s' = gen_rooms s @ ys"
proof (induction s attempts rng pos rule: generate_pool_rooms.induct)
  case (1 s attempts rng pos)
  show ?case
  proof (cases "int (length (gen_rooms s)) < 15 \<and> attempts < 150")
    case False
    with "1.prems" show ?thesis
      by (subst (asm) generate_pool_rooms.simps) auto
  next
    case True
    from choice_pool_room_types obtain rt where rt: "choice pool_room_types (rng pos) = Inr rt"
      by blast
    from "1.prems"(1) True rt obtain s1 pos1 where
      tp: "try_place s rt (7 / 10) rng (pos + 1) = Inr (s1, pos1)"
      and rec: "generate_pool_rooms s1 (attempts + 1) rng pos1 = Inr (s', attempts', pos')"
      by (subst (asm) generate_pool_rooms.simps) (auto split: sum.splits)
    from "1.IH" [OF True rt _ _ rec] tp
    obtain ys where "gen_rooms s' = gen_rooms s1 @ ys" by auto
    with try_place_prefix [OF tp] show ?thesis by auto
  qed
qed

lemma generate_rooms_prefix:
  assumes "generate_rooms s attempts rng pos = Some y"
  shows "\<forall>s' attempts' pos'. y = Inr (s', attempts', pos') \<longrightarrow>
           (\<exists>ys. gen_rooms s' = gen_rooms s @ ys)"
proof (rule generate_rooms.raw_induct
    [where P = "\<lambda>s attempts rng pos y. \<forall>s' attempts' pos'. y = Inr (s', attempts', pos') \<longrightarrow>
           (\<exists>ys. gen_rooms s' = gen_rooms s @ ys)", OF _ assms])
  fix f :: "Generator \<Rightarrow> int \<Rightarrow> rng \<Rightarrow> nat \<Rightarrow> (py_error + (Generator \<times> int \<times> nat)) option"
  fix s attempts rng pos y
  assume IH: "\<And>s attempts rng pos y. f s attempts rng pos = Some y \<Longrightarrow>
      \<forall>s' attempts' pos'. y = Inr (s', attempts', pos') \<longrightarrow>
           (\<exists>ys. gen_rooms s' = gen_rooms s @ ys)"
  assume body: "(if int (length (gen_rooms s)) < 20 \<and> attempts < 150
      then case choice all_room_types (rng pos) of Inl e \<Rightarrow> Some (Inl e)
           | Inr rt \<Rightarrow>
               if rt \<in> set pool_room_types
               then f s attempts rng (pos + 1)
               else case try_place s rt (3 / 10) rng (pos + 1) of
                    Inl e \<Rightarrow> Some (Inl e)
                    | Inr (s', pos') \<Rightarrow> f s' (attempts + 1) rng pos'
      else Some (Inr (s, attempts, pos))) = Some y"
  show "\<forall>s' attempts' pos'. y = Inr (s', attempts', pos') \<longrightarrow>
           (\<exists>ys. gen_rooms s' = gen_rooms s @ ys)"
  proof (cases "int (length (gen_rooms s)) < 20 \<and> attempts < 150")
    case False
    from body have "Some (Inr (s, attempts, pos)) = Some y"
      unfolding if_not_P [OF False] .
    then have "y = Inr (s, attempts, pos)" by simp
    then show ?thesis by simp
  next
    case True
    from choice_all_room_types obtain rt where rt: "choice all_room_types (rng pos) = Inr rt"
      by blast
    from body have body1: "(case choice all_room_types (rng pos) of Inl e \<Rightarrow> Some (Inl e)
           | Inr rt \<Rightarrow>
               if rt \<in> set pool_room_types
               then f s attempts rng (pos + 1)
               else case try_place s rt (3 / 10) rng (pos + 1) of
                    Inl e \<Rightarrow> Some (Inl e)
                    | Inr (s', pos') \<Rightarrow> f s' (attempts + 1) rng pos') = Some y"
      unfolding if_P [OF True] .
    show ?thesis
    proof (cases "rt \<in> set pool_room_types")
      case pool: True
      with body1 rt have "f s attempts rng (pos + 1) = Some y" by simp
      from IH [OF this] show ?thesis .
    next
      case False
      with body1 rt have body2:
        "(case try_place s rt (3 / 10) rng (pos + 1) of
            Inl e \<Rightarrow> Some (Inl e)
          | Inr (s', pos') \<Rightarrow> f s' (attempts + 1) rng pos') = Some y"
        by simp
      show ?thesis
      proof (cases "try_place s rt (3 / 10) rng (pos + 1)")
        case (Inl e)
        with body2 have "y = Inl e" by simp
        then show ?thesis by simp
      next
        case (Inr sp)
        obtain s1 pos1 where sp: "sp = (s1, pos1)" by (cases sp)
        from Inr sp have tp: "try_place s rt (3 / 10) rng (pos + 1) = Inr (s1, pos1)" by simp
        with body2 have rec: "f s1 (attempts + 1) rng pos1 = Some y" by simp
        from try_place_prefix [OF tp] obtain zs where zs: "gen_rooms s1 = gen_rooms s @ zs"
          by blast
        show ?thesis
        proof (intro allI impI)
          fix s' attempts' pos'
          assume "y = Inr (s', attempts', pos')"
          with IH [OF rec] obtain ys where "gen_rooms s' = gen_rooms s1 @ ys" by blast
          with zs show "\<exists>ys. gen_rooms s' = gen_rooms s @ ys" by simp
        qed
      qed
    qed
  qed
qed

subsection \<open>Two runs of the placement loop\<close>

lemma try_place_office:
  assumes d: "rng pos = 0" "rng (pos + 1) = 0" "rng (pos + 2) = of_int k" "rng (pos + 3) = 0"
      "rng (pos + 4) = 0"
    and k: "0 \<le> k" "k < 279"
    and w: "gen_width s = 288" "gen_height s = 162"
  shows "try_place s OFFICE_SPACE (3 / 10) rng pos =
           (if \<not> list_ex (overlaps (office_at (1 + k))) (gen_rooms s)
            then (case carve_room (s\<lparr>gen_rooms := gen_rooms s @ [office_at (1 + k)]\<rparr>)
                         (office_at (1 + k)) of
                    Inl e \<Rightarrow> Inl e
                  | Inr s' \<Rightarrow> Inr (s', pos + 5))
            else Inr (s, pos + 5))"
proof -
  have sz: "get_room_size OFFICE_SPACE rng pos = Inr ((8, 6), pos + 2)"
    using d(1,2) by (simp add: get_room_size_def randint_def)
  have x: "randint 1 (gen_width s - 8 - 1) (rng (pos + 2)) = Inr (1 + k)"
    using k d(3) by (simp add: randint_def w)
  have y: "randint 1 (gen_height s - 6 - 1) (rng (pos + 2 + 1)) = Inr 1"
    using d(4) by (simp add: randint_def w numeral_3_eq_3)
  have e: "pos + 2 + 2 = pos + 4" by simp
  have l: "random_unit (rng (pos + 2 + 2)) < 3 / 10"
    unfolding e d(5) by (simp add: random_unit_def)
  have e5: "pos + 2 + 3 = pos + 5" by simp
  have "try_place s OFFICE_SPACE (3 / 10) rng pos =
           (if \<not> list_ex (overlaps (office_at (1 + k))) (gen_rooms s)
            then (case carve_room (s\<lparr>gen_rooms := gen_rooms s @ [office_at (1 + k)]\<rparr>)
                         (office_at (1 + k)) of
                    Inl e \<Rightarrow> Inl e
                  | Inr s' \<Rightarrow> Inr (s', pos + 2 + 3))
            else Inr (s, pos + 2 + 3))"
    unfolding try_place_def
    by (simp only: sz x y l sum.case prod.case Let_def office_at_def)
  then show ?thesis unfolding e5 .
qed

lemma try_place_office_new:
  assumes d: "rng pos = 0" "rng (pos + 1) = 0" "rng (pos + 2) = of_int k" "rng (pos + 3) = 0"
      "rng (pos + 4) = 0"
    and k: "0 \<le> k" "k < 279"
    and w: "gen_width s = 288" "gen_height s = 162"
    and p: "placed s"
    and n: "\<not> list_ex (overlaps (office_at (1 + k))) (gen_rooms s)"
  shows "\<exists>s'. try_place s OFFICE_SPACE (3 / 10) rng pos = Inr (s', pos + 5) \<and>
           gen_rooms s' = gen_rooms s @ [office_at (1 + k)] \<and> placed s' \<and>
           gen_width s' = 288 \<and> gen_height s' = 162"
proof -
  let ?s = "s\<lparr>gen_rooms := gen_rooms s @ [office_at (1 + k)]\<rparr>"
  have "dims (gen_grid ?s) (gen_width ?s) (gen_height ?s)"
    using p by (simp add: placed_def)
  from carve_room_ok [OF this, of "office_at (1 + k)"]
  obtain s' where c: "carve_room ?s (office_at (1 + k)) = Inr s'"
    and r: "gen_rooms s' = gen_rooms ?s" by blast
  have t: "try_place s OFFICE_SPACE (3 / 10) rng pos = Inr (s', pos + 5)"
    using n by (simp only: try_place_office [OF d k w] c sum.case simp_thms if_True)
  from try_place_placed [OF t p] r t w show ?thesis by simp
qed

lemma office_overlaps: "overlaps (office_at 1) (office_at 1)" "\<not> overlaps (office_at 11) (office_at 1)"
  by (simp_all add: overlaps_def office_at_def)

lemma generate_rooms_stuck:
  assumes w: "gen_width s = 288" "gen_height s = 162"
    and r: "office_at 1 \<in> set (gen_rooms s)" and n: "int (length (gen_rooms s)) < 20"
  shows "a \<le> 150 \<Longrightarrow> \<forall>i\<ge>pos. rng i = 0 \<Longrightarrow>
           generate_rooms s a rng pos = Some (Inr (s, 150, pos + 6 * nat (150 - a)))"
proof (induction "nat (150 - a)" arbitrary: a pos)
  case 0
  then have "a = 150" by simp
  then show ?case
    by (subst generate_rooms.simps) simp
next
  case (Suc d)
  then have a: "a < 150" and d: "d = nat (150 - (a + 1))" by simp_all
  note z = \<open>\<forall>i\<ge>pos. rng i = 0\<close>
  have c: "choice all_room_types (rng pos) = Inr OFFICE_SPACE"
    using z by (simp add: choice_def all_room_types_def)
  have np: "OFFICE_SPACE \<notin> set pool_room_types" by (simp add: pool_room_types_def)
  have ov: "list_ex (overlaps (office_at (1 + 0))) (gen_rooms s)"
    using r office_overlaps(1) by (auto simp: list_ex_iff)
  have "try_place s OFFICE_SPACE (3 / 10) rng (pos + 1) =
           (if \<not> list_ex (overlaps (office_at (1 + 0))) (gen_rooms s)
            then (case carve_room (s\<lparr>gen_rooms := gen_rooms s @ [office_at (1 + 0)]\<rparr>)
                         (office_at (1 + 0)) of
                    Inl e \<Rightarrow> Inl e
                  | Inr s' \<Rightarrow> Inr (s', pos + 1 + 5))
            else Inr (s, pos + 1 + 5))"
    using z by (intro try_place_office w) simp_all
  with ov have t: "try_place s OFFICE_SPACE (3 / 10) rng (pos + 1) = Inr (s, pos + 1 + 5)"
    by (simp only: simp_thms if_False)
  have z': "\<forall>i\<ge>pos + 1 + 5. rng i = 0" using z by simp
  have a1: "a + 1 \<le> 150" using a by simp
  from Suc.hyps(1) [OF d a1 z']
  have rec: "generate_rooms s (a + 1) rng (pos + 1 + 5) =
      Some (Inr (s, 150, pos + 1 + 5 + 6 * nat (150 - (a + 1))))" .
  have "pos + 1 + 5 + 6 * nat (150 - (a + 1)) = pos + 6 * nat (150 - a)"
    using a by (simp add: nat_diff_distrib)
  with rec have rec': "generate_rooms s (a + 1) rng (pos + 1 + 5) =
      Some (Inr (s, 150, pos + 6 * nat (150 - a)))" by simp
  have cond: "int (length (gen_rooms s)) < 20 \<and> a < 150" using n a by simp
  show ?case
    by (subst generate_rooms.simps)
      (simp only: if_P [OF cond] c np t rec' sum.case prod.case if_False)
qed

lemma first_attempt:
  assumes z: "\<forall>i<6. rng i = 0"
  shows "\<exists>s1. generate_rooms (Generator_init 288 162) 0 rng 0 = generate_rooms s1 1 rng 6 \<and>
           gen_rooms s1 = [office_at 1] \<and> placed s1 \<and> gen_width s1 = 288 \<and> gen_height s1 = 162"
proof -
  define s0 where "s0 = Generator_init 288 162"
  have p0: "placed s0" unfolding s0_def by (rule placed_init) simp_all
  have w0: "gen_width s0 = 288" "gen_height s0 = 162" and r0: "gen_rooms s0 = []"
    by (simp_all add: s0_def Generator_init_def)
  have c: "choice all_room_types (rng 0) = Inr OFFICE_SPACE"
    using z by (simp add: choice_def all_room_types_def)
  have np: "OFFICE_SPACE \<notin> set pool_room_types" by (simp add: pool_room_types_def)
  have "\<exists>s'. try_place s0 OFFICE_SPACE (3 / 10) rng (0 + 1) = Inr (s', 0 + 1 + 5) \<and>
           gen_rooms s' = gen_rooms s0 @ [office_at (1 + 0)] \<and> placed s' \<and>
           gen_width s' = 288 \<and> gen_height s' = 162"
    using z by (intro try_place_office_new w0 p0) (simp_all add: r0)
  then obtain s1 where t: "try_place s0 OFFICE_SPACE (3 / 10) rng (0 + 1) = Inr (s1, 0 + 1 + 5)"
    and s1: "gen_rooms s1 = [office_at 1]" "placed s1" "gen_width s1 = 288" "gen_height s1 = 162"
    by (auto simp: r0)
  have cond: "int (length (gen_rooms s0)) < 20 \<and> (0::int) < 150" by (simp add: r0)
  have "generate_rooms s0 0 rng 0 = generate_rooms s1 (0 + 1) rng (0 + 1 + 5)"
    by (subst generate_rooms.simps)
      (simp only: if_P [OF cond] c np t sum.case prod.case if_False)
  then have "generate_rooms s0 0 rng 0 = generate_rooms s1 1 rng 6" by simp
  with s1 show ?thesis unfolding s0_def by blast
qed


lemma place_two_rooms:
  "\<exists>s1 s. place_rooms 288 162 LEVEL_0 second_at_11 0 = Some (Inr (s, 150, 900)) \<and>
        generate_rooms s1 1 second_at_11 6 = Some (Inr (s, 150, 900)) \<and>
        gen_rooms s1 = [office_at 1] \<and> gen_rooms s = [office_at 1, office_at 11]"
proof -
  have "\<forall>i<6. second_at_11 i = 0" by (simp add: second_at_11_def)
  from first_attempt [OF this] obtain s1 where
    f: "generate_rooms (Generator_init 288 162) 0 second_at_11 0 =
        generate_rooms s1 1 second_at_11 6"
    and s1: "gen_rooms s1 = [office_at 1]" "placed s1" "gen_width s1 = 288" "gen_height s1 = 162"
    by blast
  have c: "choice all_room_types (second_at_11 6) = Inr OFFICE_SPACE"
    by (simp add: choice_def all_room_types_def second_at_11_def)
  have np: "OFFICE_SPACE \<notin> set pool_room_types" by (simp add: pool_room_types_def)
  have "\<exists>s'. try_place s1 OFFICE_SPACE (3 / 10) second_at_11 (6 + 1) = Inr (s', 6 + 1 + 5) \<and>
           gen_rooms s' = gen_rooms s1 @ [office_at (1 + 10)] \<and> placed s' \<and>
           gen_width s' = 288 \<and> gen_height s' = 162"
    by (intro try_place_office_new s1)
      (simp_all add: second_at_11_def s1 office_overlaps)
  then obtain s2 where
    t: "try_place s1 OFFICE_SPACE (3 / 10) second_at_11 (6 + 1) = Inr (s2, 6 + 1 + 5)"
    and s2: "gen_rooms s2 = [office_at 1, office_at 11]" "gen_width s2 = 288" "gen_height s2 = 162"
    by (auto simp: s1)
  have cond: "int (length (gen_rooms s1)) < 20 \<and> (1::int) < 150" by (simp add: s1)
  have "generate_rooms s1 1 second_at_11 6 = generate_rooms s2 (1 + 1) second_at_11 (6 + 1 + 5)"
    by (subst generate_rooms.simps)
      (simp only: if_P [OF cond] c np t sum.case prod.case if_False)
  then have g1: "generate_rooms s1 1 second_at_11 6 = generate_rooms s2 2 second_at_11 12"
    by simp
  have "generate_rooms s2 2 second_at_11 12 = Some (Inr (s2, 150, 12 + 6 * nat (150 - 2)))"
    by (rule generate_rooms_stuck) (simp_all add: s2 second_at_11_def)
  then have g2: "generate_rooms s2 2 second_at_11 12 = Some (Inr (s2, 150, 900))" by simp
  from f g1 g2 have "place_rooms 288 162 LEVEL_0 second_at_11 0 = Some (Inr (s2, 150, 900))"
    by (simp add: place_rooms_def)
  with g1 g2 s1(1) s2(1) show ?thesis by auto
qed

section \<open>Properties of the generated level\<close>

subsection \<open>Room placement: budget and termination\<close>





subsection \<open>Rooms stay apart and unchanged\<close>

text \<open>
  C2. In every level that \<open>generate\<close> returns, two rooms at different places of the room
  list do not overlap: their rectangles have no cell in common. No room changes after it is
  placed: the room list of the level is the list that the placement loop ended with, and
  a run of either placement loop from any state keeps the rooms that state already has, in
  their order, and only appends rooms (a room is a value with its \<open>x\<close>, \<open>y\<close>, \<open>width\<close> and
  \<open>height\<close>, so the rooms kept are unchanged).
\<close>

theorem rooms_never_overlap_nor_change:
  assumes "generate W H level_type rng pos = Some (Inr (G, pos'))"
  shows "(\<forall>i<length (gen_rooms G). \<forall>j<length (gen_rooms G). i \<noteq> j \<longrightarrow>
            \<not> overlaps (gen_rooms G ! i) (gen_rooms G ! j) \<and>
            room_rect (gen_rooms G ! i) \<inter> room_rect (gen_rooms G ! j) = {}) \<and>
         (\<exists>s attempts p. place_rooms W H level_type rng pos = Some (Inr (s, attempts, p)) \<and>
            gen_rooms G = gen_rooms s) \<and>
         (\<forall>s attempts rng1 p s' attempts' p'.
            generate_rooms s attempts rng1 p = Some (Inr (s', attempts', p')) \<or>
            generate_pool_rooms s attempts rng1 p = Inr (s', attempts', p') \<longrightarrow>
            (\<exists>rooms. gen_rooms s' = gen_rooms s @ rooms))"
proof (intro conjI)
  from generate_final [OF assms] obtain s a p where
    pl: "place_rooms W H level_type rng pos = Some (Inr (s, a, p))" and f: "final_ok G"
    and r: "gen_rooms G = gen_rooms s"
    by blast
  from f have no: "no_overlap (gen_rooms G)" by (simp add: final_ok_def)
  show "\<forall>i<length (gen_rooms G). \<forall>j<length (gen_rooms G). i \<noteq> j \<longrightarrow>
            \<not> overlaps (gen_rooms G ! i) (gen_rooms G ! j) \<and>
            room_rect (gen_rooms G ! i) \<inter> room_rect (gen_rooms G ! j) = {}"
  proof (intro allI impI)
    fix i j assume "i < length (gen_rooms G)" "j < length (gen_rooms G)" "i \<noteq> j"
    with no have "\<not> overlaps (gen_rooms G ! i) (gen_rooms G ! j)"
      by (simp add: no_overlap_def)
    with overlaps_disjoint [OF this]
    show "\<not> overlaps (gen_rooms G ! i) (gen_rooms G ! j) \<and>
            room_rect (gen_rooms G ! i) \<inter> room_rect (gen_rooms G ! j) = {}" by simp
  qed
  from pl r show "\<exists>s attempts p. place_rooms W H level_type rng pos = Some (Inr (s, attempts, p)) \<and>
            gen_rooms G = gen_rooms s" by blast
  show "\<forall>s attempts rng1 p s' attempts' p'.
            generate_rooms s attempts rng1 p = Some (Inr (s', attempts', p')) \<or>
            generate_pool_rooms s attempts rng1 p = Inr (s', attempts', p') \<longrightarrow>
            (\<exists>rooms. gen_rooms s' = gen_rooms s @ rooms)"
    using generate_rooms_prefix generate_pool_rooms_prefix by blast
qed

theorem rooms_never_overlap_nor_change_witness:
  "\<exists>G pos' s1 s.
     generate 288 162 LEVEL_0 second_at_11 0 = Some (Inr (G, pos')) \<and>
     gen_rooms G = [office_at 1, office_at 11] \<and>
     \<not> overlaps (gen_rooms G ! 0) (gen_rooms G ! 1) \<and>
     room_rect (gen_rooms G ! 0) \<inter> room_rect (gen_rooms G ! 1) = {} \<and>
     generate_rooms s1 1 second_at_11 6 = Some (Inr (s, 150, 900)) \<and>
     gen_rooms s1 = [office_at 1] \<and> gen_rooms s = gen_rooms s1 @ [office_at 11]"
proof -
  from place_two_rooms obtain s1 s where
    pl: "place_rooms 288 162 LEVEL_0 second_at_11 0 = Some (Inr (s, 150, 900))"
    and lp: "generate_rooms s1 1 second_at_11 6 = Some (Inr (s, 150, 900))"
    and r: "gen_rooms s1 = [office_at 1]" "gen_rooms s = [office_at 1, office_at 11]"
    by blast
  from generate_after_placement [OF pl] obtain G pos' where
    g: "generate 288 162 LEVEL_0 second_at_11 0 = Some (Inr (G, pos'))" by blast
  note t = rooms_never_overlap_nor_change [OF g]
  from t pl r have rG: "gen_rooms G = [office_at 1, office_at 11]" by auto
  from t have "\<forall>i<length (gen_rooms G). \<forall>j<length (gen_rooms G). i \<noteq> j \<longrightarrow>
            \<not> overlaps (gen_rooms G ! i) (gen_rooms G ! j) \<and>
            room_rect (gen_rooms G ! i) \<inter> room_rect (gen_rooms G ! j) = {}" by blast
  from this [rule_format, of 0 1] rG
  have a: "\<not> overlaps (gen_rooms G ! 0) (gen_rooms G ! 1)"
    "room_rect (gen_rooms G ! 0) \<inter> room_rect (gen_rooms G ! 1) = {}" by simp_all
  from t lp have "\<exists>rooms. gen_rooms s = gen_rooms s1 @ rooms" by blast
  with r have "gen_rooms s = gen_rooms s1 @ [office_at 11]" by simp
  with g rG a lp r(1) show ?thesis by blast
qed

subsection \<open>Every room is reachable from room 0\<close>

text \<open>
  C1. In every level that \<open>generate\<close> returns, of either biome and for every random
  source, every room of the room list is reachable from room 0 over floor tiles: the
  border cells of a room (they include its corner \<open>(x, y)\<close>) are floor tiles, and from each
  of them each border cell of room 0 is reached by steps between floor tiles that share a
  side. (The cells inside the border may have been overwritten by the feature passes.)
\<close>

theorem rooms_reachable_from_room_0:
  assumes "generate W H level_type rng pos = Some (Inr (G, pos'))"
    and "room \<in> set (gen_rooms G)"
    and "c \<in> room_perimeter room" and "d \<in> room_perimeter (gen_rooms G ! 0)"
  shows "(room_x room, room_y room) \<in> room_perimeter room \<and> floor_connected G c d"
proof -
  from generate_final [OF assms(1)] have f: "final_ok G"
    and L: "\<forall>i<length (gen_rooms G).
              linked G (center (gen_rooms G ! i)) (center (gen_rooms G ! 0))"
    by blast+
  from assms(2) obtain i where i: "i < length (gen_rooms G)" "gen_rooms G ! i = room"
    by (auto simp: in_set_conv_nth)
  then have r0: "gen_rooms G ! 0 \<in> set (gen_rooms G)" by (cases "gen_rooms G") auto
  from L i have l: "linked G (center room) (center (gen_rooms G ! 0))" by blast
  from f assms(2) have "room_ok (gen_width G) (gen_height G) room"
    by (simp add: final_ok_def level_ok_def)
  then have "(room_x room, room_y room) \<in> room_perimeter room"
    by (intro corner_perimeter) (simp_all add: room_ok_def)
  with linked_centers [OF f assms(2) r0 l assms(3,4)] show ?thesis by simp
qed

theorem rooms_reachable_from_room_0_witness:
  "\<exists>G pos'.
     generate 288 162 LEVEL_0 second_at_11 0 = Some (Inr (G, pos')) \<and>
     gen_rooms G = [office_at 1, office_at 11] \<and>
     (18, 6) \<in> room_perimeter (office_at 11) \<and> (1, 1) \<in> room_perimeter (office_at 1) \<and>
     floor_connected G (18, 6) (1, 1)"
proof -
  from place_two_rooms obtain s where
    pl: "place_rooms 288 162 LEVEL_0 second_at_11 0 = Some (Inr (s, 150, 900))"
    and r: "gen_rooms s = [office_at 1, office_at 11]"
    by blast
  from generate_after_placement [OF pl] obtain G pos' where
    g: "generate 288 162 LEVEL_0 second_at_11 0 = Some (Inr (G, pos'))"
    and sl: "same_level (gen_rooms s) s G" by blast
  from sl r have rG: "gen_rooms G = [office_at 1, office_at 11]" by (simp add: same_level_def)
  have m: "office_at 11 \<in> set (gen_rooms G)" by (simp add: rG)
  have p: "(18, 6) \<in> room_perimeter (office_at 11)"
    by (simp add: perimeter_iff office_at_def)
  have q: "(1, 1) \<in> room_perimeter (gen_rooms G ! 0)"
    by (simp add: rG perimeter_iff office_at_def)
  from rooms_reachable_from_room_0 [OF g m p q] have "floor_connected G (18, 6) (1, 1)" by simp
  with g rG p q show ?thesis by (auto simp: rG)
qed

end
